(* ===== verification/Prelude.thy ===== *)
theory Prelude
  imports
    Main
    "HOL-Library.List_Lexorder"
    "HOL-Library.Char_ord"
    "HOL-Library.Product_Lexorder"
    "HOL-Library.State_Monad"
    "HOL-Library.Stream"
    "HOL-Library.Multiset"
begin

text \<open>
  What every component shares: the monad of the effectful code and the list facts.

  A Go \<open>string\<close> is a byte sequence, here a \<open>string\<close> (a \<open>char list\<close>) under the
  bytewise lexicographic order, which is the order of Go's \<open><\<close> on strings.  A function that
  reaches a store is a state transformer of the library's \<open>State_Monad\<close>; its result is a sum,
  \<open>Inl\<close> for the error the Go function returns.  The state (theory \<open>World\<close>) is what the
  services share.
\<close>

named_theorems run_simps "equations that execute the monadic code"

section \<open>Fallible state transformers\<close>

type_synonym ('w, 'e, 'a) fio = "('w, 'e + 'a) state"

abbreviation ret :: "'a \<Rightarrow> ('w, 'e, 'a) fio" where
  "ret x \<equiv> State_Monad.return (Inr x)"

abbreviation fail :: "'e \<Rightarrow> ('w, 'e, 'a) fio" where
  "fail e \<equiv> State_Monad.return (Inl e)"

text \<open>Go's \<open>if err != nil { return err }\<close>.\<close>

definition tryE :: "('w, 'e, 'a) fio \<Rightarrow> ('a \<Rightarrow> ('w, 'e, 'b) fio) \<Rightarrow> ('w, 'e, 'b) fio" where
  "tryE m f = State (\<lambda>w. case run_state m w of
      (Inl e, w') \<Rightarrow> (Inl e, w')
    | (Inr x, w') \<Rightarrow> run_state (f x) w')"

text \<open>A call whose error is handled on the spot: \<open>h\<close> for the error, \<open>f\<close> for the result.\<close>

definition handleE ::
  "('w, 'e, 'a) fio \<Rightarrow> ('e \<Rightarrow> ('w, 'f, 'b) fio) \<Rightarrow> ('a \<Rightarrow> ('w, 'f, 'b) fio) \<Rightarrow> ('w, 'f, 'b) fio" where
  "handleE m h f = State (\<lambda>w. case run_state m w of
      (Inl e, w') \<Rightarrow> run_state (h e) w'
    | (Inr x, w') \<Rightarrow> run_state (f x) w')"

lemma run_bind [run_simps]:
  "run_state (Monad_Syntax.bind m f) w = (case run_state m w of (a, w') \<Rightarrow> run_state (f a) w')"
  by (cases m) (simp add: State_Monad.bind_def)

lemma run_ret [run_simps]: "run_state (State_Monad.return x) w = (x, w)"
  by simp

lemma run_tryE [run_simps]:
  "run_state (tryE m f) w = (case run_state m w of
      (Inl e, w') \<Rightarrow> (Inl e, w')
    | (Inr x, w') \<Rightarrow> run_state (f x) w')"
  by (simp add: tryE_def)

lemma run_handleE [run_simps]:
  "run_state (handleE m h f) w = (case run_state m w of
      (Inl e, w') \<Rightarrow> run_state (h e) w'
    | (Inr x, w') \<Rightarrow> run_state (f x) w')"
  by (simp add: handleE_def)

lemma run_tryE_Inr:
  "run_state (tryE m f) w = (Inr y, w2) \<longleftrightarrow>
     (\<exists>x w1. run_state m w = (Inr x, w1) \<and> run_state (f x) w1 = (Inr y, w2))"
  by (auto simp: run_simps split: prod.splits sum.splits)

declare split_paired_All [simp del] split_paired_Ex [simp del]

section \<open>Lists\<close>

lemma takeWhile_snoc:
  "takeWhile P (xs @ [x]) = (if \<forall>y\<in>set xs. P y then xs @ (if P x then [x] else []) else takeWhile P xs)"
  by (induction xs) auto

lemma dropWhile_snoc:
  "dropWhile P (xs @ [x]) = (if \<forall>y\<in>set xs. P y then (if P x then [] else [x]) else dropWhile P xs @ [x])"
  by (induction xs) auto

lemma takeWhile_mono_append:
  assumes "\<And>x. P x \<Longrightarrow> Q x"
  shows "takeWhile Q xs = takeWhile P xs @ takeWhile Q (dropWhile P xs)"
    and "dropWhile Q xs = dropWhile Q (dropWhile P xs)"
  using assms by (induction xs) auto

lemma set_dropWhile_distinct:
  "distinct xs \<Longrightarrow> set (dropWhile P xs) = set xs - set (takeWhile P xs)"
  by (induction xs) (auto dest: set_takeWhileD)

lemma sorted_wrt_last:
  fixes xs :: "'a::linorder list"
  shows "sorted_wrt (<) xs \<Longrightarrow> x \<in> set xs \<Longrightarrow> x \<le> last xs"
  by (induction xs) (auto simp: less_imp_le)

lemma last_takeWhile:
  "takeWhile P xs \<noteq> [] \<Longrightarrow> last (takeWhile P xs) \<in> set xs \<and> P (last (takeWhile P xs))"
  by (metis last_in_set set_takeWhileD)

lemma filter_eq_take:
  assumes "\<And>i j. i < j \<Longrightarrow> j < length xs \<Longrightarrow> P (xs ! j) \<Longrightarrow> P (xs ! i)"
  shows "filter P xs = takeWhile P xs"
  using assms
proof (induction xs)
  case Nil
  then show ?case by simp
next
  case (Cons x xs)
  have IH: "filter P xs = takeWhile P xs"
    by (rule Cons.IH) (use Cons.prems [of "Suc i" "Suc j" for i j] in simp)
  show ?case
  proof (cases "P x")
    case True
    with IH show ?thesis by simp
  next
    case False
    have "\<not> P y" if "y \<in> set xs" for y
      using that False Cons.prems [of 0] by (force simp: in_set_conv_nth)
    with False show ?thesis by simp
  qed
qed

text \<open>Two strictly descending lists with the same elements are equal: the result of a sort by a
  key without ties does not depend on the sorting algorithm.\<close>

lemma strict_desc_unique:
  fixes key :: "'a \<Rightarrow> 'k::linorder"
  assumes "sorted_wrt (\<lambda>x y. key y < key x) xs" "sorted_wrt (\<lambda>x y. key y < key x) ys"
    and "set xs = set ys"
  shows "xs = ys"
  using assms
proof (induction xs arbitrary: ys)
  case Nil
  then show ?case by simp
next
  case (Cons x xs)
  then obtain y ys' where ys: "ys = y # ys'" by (cases ys) auto
  have "x = y"
  proof (rule ccontr)
    assume "x \<noteq> y"
    with Cons.prems(3) ys have "x \<in> set ys'" "y \<in> set xs" by auto
    with Cons.prems(1,2) ys have "key x < key y" "key y < key x" by auto
    then show False by simp
  qed
  moreover have "x \<notin> set xs" "y \<notin> set ys'"
    using Cons.prems(1,2) ys by auto
  ultimately have "set xs = set ys'" using Cons.prems(3) ys by auto
  then show ?case using Cons ys \<open>x = y\<close> by auto
qed

lemma strict_desc_distinct:
  fixes key :: "'a \<Rightarrow> 'k::linorder"
  shows "sorted_wrt (\<lambda>x y. key y < key x) xs \<Longrightarrow> distinct xs"
  by (induction xs) auto

end
