(* ===== verification/Tracker.thy ===== *)
theory Tracker
  imports Prelude "HOL-Library.AList"
begin

text \<open>
  The offset tracker of \<open>shared/consumer/tracker.go\<close>: workers finish messages out of
  order, the tracker turns the completions into in-order commit positions per partition.

  Go's \<open>map[partKey]*partState\<close> is an association list with distinct keys whose order
  has no meaning (\<open>committable\<close> sorts by key); \<open>map[int64]bool\<close> holding only
  \<open>true\<close> is a set.  The abstract specification of a partition is the pair of the offsets
  tracked so far and the set of those done (\<open>frontier\<close>); \<open>part_abs\<close> relates it to
  the concrete state and every operation preserves it.
\<close>

type_synonym part_key = "string \<times> int"

type_synonym position = "part_key \<times> int"

record part_state =
  pending :: "int list"
  done_offs :: "int set"
  ready :: int
  committed :: int

type_synonym tracker = "(part_key \<times> part_state) list"

definition new_part :: part_state where
  "new_part = \<lparr>pending = [], done_offs = {}, ready = -1, committed = -1\<rparr>"

definition new_tracker :: tracker where
  "new_tracker = []"

definition part_of :: "tracker \<Rightarrow> part_key \<Rightarrow> part_state" where
  "part_of t k = (case map_of t k of None \<Rightarrow> new_part | Some s \<Rightarrow> s)"

definition track :: "part_key \<Rightarrow> int \<Rightarrow> tracker \<Rightarrow> tracker" where
  "track k off t =
     (let s = part_of t k in AList.update k (s\<lparr>pending := pending s @ [off]\<rparr>) t)"

text \<open>The loop at the end of \<open>Done\<close>.\<close>

function drain :: "part_state \<Rightarrow> part_state" where
  "drain s = (case pending s of
       [] \<Rightarrow> s
     | off # rest \<Rightarrow>
         (if off \<in> done_offs s
          then drain (s\<lparr>ready := off, done_offs := done_offs s - {off}, pending := rest\<rparr>)
          else s))"
  by pat_completeness auto
termination
  by (relation "measure (\<lambda>s. length (pending s))") auto

declare drain.simps [simp del]

definition mark_done :: "part_key \<Rightarrow> int \<Rightarrow> tracker \<Rightarrow> tracker" where
  "mark_done k off t =
     (let s = part_of t k in AList.update k (drain (s\<lparr>done_offs := insert off (done_offs s)\<rparr>)) t)"

definition committable :: "tracker \<Rightarrow> position list \<times> tracker" where
  "committable t =
     (sort_key fst (map (\<lambda>(k, s). (k, ready s)) (filter (\<lambda>(k, s). ready s > committed s) t)),
      map (\<lambda>(k, s). (k, if ready s > committed s then s\<lparr>committed := ready s\<rparr> else s)) t)"

definition rewind :: "position \<Rightarrow> tracker \<Rightarrow> tracker" where
  "rewind p t =
     (let s = part_of t (fst p) in
      AList.update (fst p) (if committed s \<ge> snd p then s\<lparr>committed := snd p - 1\<rparr> else s) t)"

section \<open>The map behind the tracker\<close>

definition tracker_wf :: "tracker \<Rightarrow> bool" where
  "tracker_wf t \<longleftrightarrow> distinct (map fst t)"

lemma part_of_update [simp]:
  "part_of (AList.update k s t) k' = (if k' = k then s else part_of t k')"
  by (simp add: part_of_def update_conv')

lemma part_of_new [simp]: "part_of new_tracker k = new_part"
  by (simp add: part_of_def new_tracker_def)

lemma part_of_track:
  "part_of (track k off t) k' =
     (if k' = k then (part_of t k)\<lparr>pending := pending (part_of t k) @ [off]\<rparr> else part_of t k')"
  by (simp add: track_def Let_def)

lemma part_of_mark_done:
  "part_of (mark_done k off t) k' =
     (if k' = k then drain ((part_of t k)\<lparr>done_offs := insert off (done_offs (part_of t k))\<rparr>)
      else part_of t k')"
  by (simp add: mark_done_def Let_def)

lemma part_of_rewind:
  "part_of (rewind p t) k =
     (if k = fst p \<and> committed (part_of t k) \<ge> snd p
      then (part_of t k)\<lparr>committed := snd p - 1\<rparr> else part_of t k)"
  by (simp add: rewind_def Let_def)

lemma part_of_committable:
  "part_of (snd (committable t)) k =
     (let s = part_of t k in if ready s > committed s then s\<lparr>committed := ready s\<rparr> else s)"
proof -
  have "map_of (map (\<lambda>(k, s). (k, f s)) t) k = map_option f (map_of t k)" for f :: "part_state \<Rightarrow> part_state"
    by (induction t) auto
  then show ?thesis
    by (auto simp: committable_def part_of_def new_part_def Let_def split: option.splits)
qed

lemma tracker_wf_new [simp, intro]: "tracker_wf new_tracker"
  by (simp add: tracker_wf_def new_tracker_def)

lemma tracker_wf_steps [intro]:
  assumes "tracker_wf t"
  shows "tracker_wf (track k off t)" "tracker_wf (mark_done k off t)"
    "tracker_wf (snd (committable t))" "tracker_wf (rewind p t)"
proof -
  have "map fst (snd (committable t)) = map fst t"
    by (auto simp: committable_def split_beta)
  then show "tracker_wf (snd (committable t))" using assms by (simp add: tracker_wf_def)
qed (use assms in \<open>auto simp: tracker_wf_def track_def mark_done_def rewind_def Let_def
      distinct_update\<close>)

text \<open>The positions \<open>Committable\<close> returns.\<close>

lemma committable_iff:
  assumes "tracker_wf t"
  shows "(k, off) \<in> set (fst (committable t)) \<longleftrightarrow>
    off = ready (part_of t k) \<and> ready (part_of t k) > committed (part_of t k)"
proof -
  have "(k, s) \<in> set t \<longleftrightarrow> map_of t k = Some s" for s
    using assms by (simp add: tracker_wf_def)
  then show ?thesis
    by (force simp: committable_def part_of_def new_part_def split: option.splits)
qed

lemma committable_sorted: "sorted (map fst (fst (committable t)))"
  by (simp add: committable_def)

lemma committable_keys_distinct:
  assumes "tracker_wf t"
  shows "distinct (map fst (fst (committable t)))"
proof -
  let ?xs = "filter (\<lambda>(k, s). ready s > committed s) t"
  have "mset (map fst (fst (committable t))) = mset (map fst (map (\<lambda>(k, s). (k, ready s)) ?xs))"
    by (simp add: committable_def mset_map del: map_map)
  also have "map fst (map (\<lambda>(k, s). (k, ready s)) ?xs) = map fst ?xs"
    by (simp add: split_beta comp_def)
  finally have "distinct (map fst (fst (committable t))) \<longleftrightarrow> distinct (map fst ?xs)"
    by (rule mset_eq_imp_distinct_iff)
  then show ?thesis
    using assms by (simp add: tracker_wf_def distinct_map_filter)
qed

section \<open>One partition against its specification\<close>

text \<open>The largest offset below which everything tracked is done (\<open>-1\<close> if none).\<close>

definition frontier :: "int list \<Rightarrow> int set \<Rightarrow> int" where
  "frontier tracked fin = last (-1 # takeWhile (\<lambda>o1. o1 \<in> fin) tracked)"

definition part_abs :: "int list \<Rightarrow> int set \<Rightarrow> part_state \<Rightarrow> bool" where
  "part_abs tracked fin s \<longleftrightarrow>
     distinct tracked \<and> fin \<subseteq> set tracked \<and>
     pending s = dropWhile (\<lambda>o1. o1 \<in> fin) tracked \<and>
     done_offs s = fin \<inter> set (pending s) \<and>
     ready s = frontier tracked fin"

lemma drain_props:
  assumes "distinct (pending s)"
  shows "pending (drain s) = dropWhile (\<lambda>o1. o1 \<in> done_offs s) (pending s)
    \<and> done_offs (drain s) = done_offs s - set (takeWhile (\<lambda>o1. o1 \<in> done_offs s) (pending s))
    \<and> ready (drain s) = last (ready s # takeWhile (\<lambda>o1. o1 \<in> done_offs s) (pending s))
    \<and> committed (drain s) = committed s"
  using assms
proof (induction s rule: drain.induct)
  case (1 s)
  show ?case
  proof (cases "pending s")
    case Nil
    then show ?thesis by (subst (1 2 3 4) drain.simps) simp
  next
    case (Cons off rest)
    show ?thesis
    proof (cases "off \<in> done_offs s")
      case True
      let ?s = "s\<lparr>ready := off, done_offs := done_offs s - {off}, pending := rest\<rparr>"
      have eq: "drain s = drain ?s"
        using Cons True by (subst drain.simps) simp
      have off: "off \<notin> set rest" and "distinct (pending ?s)"
        using 1(2) Cons by auto
      have tw: "takeWhile (\<lambda>o1. o1 \<in> done_offs s - {off}) rest = takeWhile (\<lambda>o1. o1 \<in> done_offs s) rest"
        and dw: "dropWhile (\<lambda>o1. o1 \<in> done_offs s - {off}) rest = dropWhile (\<lambda>o1. o1 \<in> done_offs s) rest"
        using off by (auto intro!: takeWhile_cong dropWhile_cong)
      from 1(1) [OF Cons True \<open>distinct (pending ?s)\<close>] tw dw
      show ?thesis unfolding eq using Cons True by auto
    next
      case False
      then show ?thesis using Cons by (subst (1 2 3 4) drain.simps) simp
    qed
  qed
qed

lemma part_abs_new [simp]: "part_abs [] {} new_part"
  by (simp add: part_abs_def new_part_def frontier_def)

lemma part_abs_track:
  assumes "part_abs T D s" "off \<notin> set T"
  shows "part_abs (T @ [off]) D (s\<lparr>pending := pending s @ [off]\<rparr>)"
proof -
  have off: "off \<notin> D" using assms by (auto simp: part_abs_def)
  have "frontier (T @ [off]) D = frontier T D"
    using off by (simp add: frontier_def takeWhile_snoc takeWhile_eq_all_conv [THEN iffD2])
  moreover have "dropWhile (\<lambda>x. x \<in> D) (T @ [off]) = dropWhile (\<lambda>x. x \<in> D) T @ [off]"
    using off by (simp add: dropWhile_snoc)
  ultimately show ?thesis
    using assms off by (auto simp: part_abs_def)
qed

lemma part_abs_done:
  assumes abs: "part_abs T D s" and off: "off \<in> set T" "off \<notin> D"
  shows "part_abs T (insert off D) (drain (s\<lparr>done_offs := insert off (done_offs s)\<rparr>))"
proof -
  let ?D = "insert off D" and ?s = "s\<lparr>done_offs := insert off (done_offs s)\<rparr>"
  let ?P = "dropWhile (\<lambda>x. x \<in> D) T"
  from abs have T: "distinct T" "D \<subseteq> set T" "pending s = ?P" "done_offs s = D \<inter> set ?P"
    and rdy: "ready s = frontier T D"
    by (simp_all add: part_abs_def)
  have dP: "distinct ?P" using T(1) by simp
  have "off \<in> set ?P"
    using off T(1) by (auto simp: set_dropWhile_distinct dest: set_takeWhileD)
  then have done1: "done_offs ?s = ?D \<inter> set ?P" using T(4) by auto
  have on_P: "takeWhile (\<lambda>x. x \<in> done_offs ?s) ?P = takeWhile (\<lambda>x. x \<in> ?D) ?P"
    "dropWhile (\<lambda>x. x \<in> done_offs ?s) ?P = dropWhile (\<lambda>x. x \<in> ?D) ?P"
    unfolding done1 by (auto intro!: takeWhile_cong dropWhile_cong)
  have split: "takeWhile (\<lambda>x. x \<in> ?D) T
      = takeWhile (\<lambda>x. x \<in> D) T @ takeWhile (\<lambda>x. x \<in> ?D) ?P"
    "dropWhile (\<lambda>x. x \<in> ?D) T = dropWhile (\<lambda>x. x \<in> ?D) ?P"
    by (rule takeWhile_mono_append; simp)+
  have drained: "pending (drain ?s) = dropWhile (\<lambda>x. x \<in> ?D) ?P"
    "done_offs (drain ?s) = ?D \<inter> set ?P - set (takeWhile (\<lambda>x. x \<in> ?D) ?P)"
    "ready (drain ?s) = last (frontier T D # takeWhile (\<lambda>x. x \<in> ?D) ?P)"
    using drain_props [of ?s] dP T(3) on_P done1 rdy by simp_all
  have "ready (drain ?s) = frontier T ?D"
    unfolding drained(3) frontier_def split(1) by (simp add: last_append)
  moreover have "done_offs (drain ?s) = ?D \<inter> set (pending (drain ?s))"
    unfolding drained(1,2) using dP set_dropWhile_distinct [OF dP] by blast
  ultimately show ?thesis
    using T off drained(1) split(2) by (simp add: part_abs_def)
qed

text \<open>What the frontier means.\<close>

lemma frontier_ge: "frontier T D = -1 \<or> frontier T D \<in> set T \<inter> D"
  using last_takeWhile [of "\<lambda>x. x \<in> D" T] by (auto simp: frontier_def)

lemma frontier_below_done:
  assumes "sorted_wrt (<) T" "off \<in> set T" "off \<le> frontier T D" "frontier T D \<noteq> -1"
  shows "off \<in> D"
proof -
  let ?W = "takeWhile (\<lambda>x. x \<in> D) T" and ?R = "dropWhile (\<lambda>x. x \<in> D) T"
  have W: "?W \<noteq> []" "frontier T D = last ?W"
    using assms(4) by (auto simp: frontier_def)
  have "sorted_wrt (<) (?W @ ?R)" using assms(1) by simp
  then have "\<forall>x\<in>set ?W. \<forall>y\<in>set ?R. x < y" unfolding sorted_wrt_append by blast
  then have "off \<notin> set ?R"
    using W assms(3) last_in_set [OF W(1)] by fastforce
  then have "off \<in> set ?W"
    using assms(2) by (metis Un_iff set_append takeWhile_dropWhile_id)
  then show ?thesis by (auto dest: set_takeWhileD)
qed

lemma frontier_maximal:
  assumes "sorted_wrt (<) T" "\<forall>off\<in>set T. 0 \<le> off" "x \<in> set T"
    and "\<And>off. off \<in> set T \<Longrightarrow> off \<le> x \<Longrightarrow> off \<in> D"
  shows "x \<le> frontier T D"
proof -
  let ?W = "takeWhile (\<lambda>x. x \<in> D) T" and ?R = "dropWhile (\<lambda>x. x \<in> D) T"
  have srt: "sorted_wrt (<) (?W @ ?R)" using assms(1) by simp
  have "x \<in> set ?W"
  proof (rule ccontr)
    assume "x \<notin> set ?W"
    then have x: "x \<in> set ?R"
      using assms(3) by (metis Un_iff set_append takeWhile_dropWhile_id)
    then obtain r rs where r: "?R = r # rs" by (cases ?R) auto
    then have "r \<notin> D" by (metis hd_dropWhile list.distinct(1) list.sel(1))
    moreover have "r \<in> set T" using r by (metis list.set_intros(1) set_dropWhileD)
    moreover have "r \<le> x" using x r srt by (auto simp: sorted_wrt_append)
    ultimately show False using assms(4) by blast
  qed
  moreover have "sorted_wrt (<) ?W" using srt by (simp only: sorted_wrt_append)
  ultimately have "x \<le> last ?W" by (rule sorted_wrt_last [rotated])
  then show ?thesis
    using \<open>x \<in> set ?W\<close> by (auto simp: frontier_def)
qed

section \<open>The contract of the tracker\<close>

text \<open>
  What the consumer relies on: \<open>repr t T D C\<close> says that \<open>t\<close> stands for the offsets
  \<open>T k\<close> tracked, the offsets \<open>D k\<close> done and the position \<open>C k\<close> last handed out
  for every partition \<open>k\<close>.
\<close>

type_synonym 't repr_rel =
  "'t \<Rightarrow> (part_key \<Rightarrow> int list) \<Rightarrow> (part_key \<Rightarrow> int set) \<Rightarrow> (part_key \<Rightarrow> int) \<Rightarrow> bool"

locale offset_tracker =
  fixes new :: 't
    and trk :: "part_key \<Rightarrow> int \<Rightarrow> 't \<Rightarrow> 't"
    and don :: "part_key \<Rightarrow> int \<Rightarrow> 't \<Rightarrow> 't"
    and cmt :: "'t \<Rightarrow> position list \<times> 't"
    and rew :: "position \<Rightarrow> 't \<Rightarrow> 't"
    and repr :: "'t repr_rel"
  assumes repr_new: "repr new (\<lambda>_. []) (\<lambda>_. {}) (\<lambda>_. -1)"
    and repr_trk: "repr t T D C \<Longrightarrow> (\<And>o1. o1 \<in> set (T k) \<Longrightarrow> o1 < off) \<Longrightarrow> 0 \<le> off \<Longrightarrow>
      repr (trk k off t) (T(k := T k @ [off])) D C"
    and repr_don: "repr t T D C \<Longrightarrow> off \<in> set (T k) \<Longrightarrow> off \<notin> D k \<Longrightarrow>
      repr (don k off t) T (D(k := insert off (D k))) C"
    and repr_cmt: "repr t T D C \<Longrightarrow>
      repr (snd (cmt t)) T D (\<lambda>k. max (C k) (frontier (T k) (D k)))"
    and cmt_iff: "repr t T D C \<Longrightarrow>
      (k, off) \<in> set (fst (cmt t)) \<longleftrightarrow> off = frontier (T k) (D k) \<and> C k < off"
    and repr_rew: "repr t T D C \<Longrightarrow> 0 \<le> off \<Longrightarrow> repr (rew (k, off) t) T D (C(k := min (C k) (off - 1)))"
    and repr_bounds: "repr t T D C \<Longrightarrow>
      sorted_wrt (<) (T k) \<and> (\<forall>o1\<in>set (T k). 0 \<le> o1) \<and> D k \<subseteq> set (T k) \<and> -1 \<le> C k \<and>
      C k \<le> frontier (T k) (D k)"
begin

text \<open>A position handed out covers only finished messages.\<close>

lemma cmt_safe:
  assumes "repr t T D C" "(k, off) \<in> set (fst (cmt t))" "o1 \<in> set (T k)" "o1 \<le> off"
  shows "o1 \<in> D k"
proof -
  from assms(1,2) have "off = frontier (T k) (D k)" "C k < off" by (simp_all add: cmt_iff)
  moreover have "sorted_wrt (<) (T k)" "-1 \<le> C k" using repr_bounds [OF assms(1)] by auto
  ultimately show ?thesis using frontier_below_done assms(3,4) by fastforce
qed

lemma cmt_tracked:
  assumes "repr t T D C" "(k, off) \<in> set (fst (cmt t))"
  shows "off \<in> set (T k) \<inter> D k"
proof -
  from assms have "off = frontier (T k) (D k)" "C k < off" by (simp_all add: cmt_iff)
  moreover have "-1 \<le> C k" using repr_bounds [OF assms(1)] by auto
  ultimately show ?thesis using frontier_ge [of "T k" "D k"] by auto
qed

text \<open>What was handed out is not handed out again until it is rewound.\<close>

lemma cmt_idle:
  assumes "repr t T D C"
  shows "fst (cmt (snd (cmt t))) = []"
proof -
  have "(k, off) \<notin> set (fst (cmt (snd (cmt t))))" for k off
    using cmt_iff [OF repr_cmt [OF assms]] by auto
  then show ?thesis by (metis list.set_intros(1) neq_Nil_conv surj_pair)
qed

lemma cmt_complete:
  assumes "repr t T D C" "x \<in> set (T k)"
    and "\<And>o1. o1 \<in> set (T k) \<Longrightarrow> o1 \<le> x \<Longrightarrow> o1 \<in> D k"
  shows "x \<le> C k \<or> (\<exists>off\<ge>x. (k, off) \<in> set (fst (cmt t)))"
proof -
  have "x \<le> frontier (T k) (D k)"
    using repr_bounds [OF assms(1), of k] assms(2,3) by (intro frontier_maximal) auto
  then show ?thesis using cmt_iff [OF assms(1)] by (metis not_le order_less_le_trans)
qed

end

text \<open>The Go tracker keeps the contract.\<close>

definition key_repr :: "int list \<Rightarrow> int set \<Rightarrow> int \<Rightarrow> part_state \<Rightarrow> bool" where
  "key_repr T D c s \<longleftrightarrow> part_abs T D s \<and> committed s = c \<and>
     sorted_wrt (<) T \<and> (\<forall>o1\<in>set T. 0 \<le> o1) \<and> -1 \<le> c \<and> c \<le> frontier T D"

definition tracker_repr :: "tracker repr_rel" where
  "tracker_repr t T D C \<longleftrightarrow> tracker_wf t \<and> (\<forall>k. key_repr (T k) (D k) (C k) (part_of t k))"

lemma tracker_reprI:
  "tracker_wf t \<Longrightarrow> (\<And>k. key_repr (T k) (D k) (C k) (part_of t k)) \<Longrightarrow> tracker_repr t T D C"
  unfolding tracker_repr_def by blast

lemma tracker_reprD:
  assumes "tracker_repr t T D C"
  shows "tracker_wf t" "key_repr (T k) (D k) (C k) (part_of t k)"
  using assms unfolding tracker_repr_def by blast+

lemma drain_committed: "distinct (pending s) \<Longrightarrow> committed (drain s) = committed s"
  using drain_props by blast

lemma frontier_mono:
  assumes "D \<subseteq> D'" "sorted_wrt (<) T" "\<forall>o1\<in>set T. 0 \<le> o1"
  shows "frontier T D \<le> frontier T D'"
proof (cases "frontier T D = -1")
  case True
  have "-1 \<le> frontier T D'" using frontier_ge [of T D'] assms(3) by force
  with True show ?thesis by simp
next
  case False
  then have "frontier T D \<in> set T" using frontier_ge [of T D] by auto
  with False show ?thesis
    using frontier_below_done [of T _ D] assms by (intro frontier_maximal) auto
qed

lemma frontier_snoc:
  assumes "off \<notin> D"
  shows "frontier (T @ [off]) D = frontier T D"
  using assms by (simp add: frontier_def takeWhile_snoc takeWhile_eq_all_conv [THEN iffD2])

lemma key_repr_track:
  assumes "key_repr T D c s" "\<And>o1. o1 \<in> set T \<Longrightarrow> o1 < off" "0 \<le> off"
  shows "key_repr (T @ [off]) D c (s\<lparr>pending := pending s @ [off]\<rparr>)"
proof -
  have "off \<notin> set T" using assms(2) by blast
  moreover have "off \<notin> D" using assms(1) calculation by (auto simp: key_repr_def part_abs_def)
  ultimately show ?thesis
    using assms by (auto simp: key_repr_def sorted_wrt_append frontier_snoc intro!: part_abs_track)
qed

lemma key_repr_done:
  assumes "key_repr T D c s" "off \<in> set T" "off \<notin> D"
  shows "key_repr T (insert off D) c (drain (s\<lparr>done_offs := insert off (done_offs s)\<rparr>))"
proof -
  have "distinct (pending s)" using assms(1) by (simp add: key_repr_def part_abs_def)
  moreover have "frontier T D \<le> frontier T (insert off D)"
    using assms(1) by (intro frontier_mono) (auto simp: key_repr_def)
  ultimately show ?thesis
    using assms by (auto simp: key_repr_def drain_committed intro!: part_abs_done)
qed

lemma key_repr_committed:
  assumes "key_repr T D c s" "-1 \<le> c'" "c' \<le> frontier T D"
  shows "key_repr T D c' (s\<lparr>committed := c'\<rparr>)"
  using assms by (simp add: key_repr_def part_abs_def)

lemma key_repr_same: "key_repr T D c s \<Longrightarrow> c = committed s \<and> ready s = frontier T D \<and> c \<le> ready s"
  by (simp add: key_repr_def part_abs_def)

interpretation tr: offset_tracker new_tracker track mark_done committable rewind tracker_repr
proof (unfold_locales, goal_cases)
  case 1
  show ?case by (rule tracker_reprI) (simp_all add: key_repr_def, simp add: new_part_def frontier_def)
next
  case (2 t T D C k off)
  note r = tracker_reprD [OF 2(1)]
  show ?case
    using r 2 by (intro tracker_reprI) (auto simp: part_of_track intro!: key_repr_track)
next
  case (3 t T D C off k)
  note r = tracker_reprD [OF 3(1)]
  show ?case
    using r 3 by (intro tracker_reprI) (auto simp: part_of_mark_done intro!: key_repr_done)
next
  case (4 t T D C)
  note r = tracker_reprD [OF 4]
  have "key_repr (T k) (D k) (max (C k) (frontier (T k) (D k))) (part_of (snd (committable t)) k)" for k
    using key_repr_committed [OF r(2) [of k], of "frontier (T k) (D k)"] r(2) [of k]
      key_repr_same [OF r(2) [of k]]
    by (auto simp: part_of_committable Let_def max_def key_repr_def)
  with r(1) show ?case by (intro tracker_reprI) auto
next
  case (5 t T D C k off)
  note r = tracker_reprD [OF 5]
  show ?case using key_repr_same [OF r(2) [of k]] by (auto simp: committable_iff [OF r(1)])
next
  case (6 t T D C off k)
  note r = tracker_reprD [OF 6(1)]
  have "key_repr (T k) (D k) (min (C k) (off - 1)) (part_of (rewind (k, off) t) k)"
    using key_repr_committed [OF r(2) [of k], of "off - 1"] key_repr_same [OF r(2) [of k]] r(2) [of k] 6(2)
    by (auto simp: part_of_rewind min_def key_repr_def)
  with r show ?case by (intro tracker_reprI) (auto simp: part_of_rewind)
next
  case (7 t T D C k)
  then show ?case using tracker_reprD(2) [OF 7, of k] by (auto simp: key_repr_def part_abs_def)
qed

section \<open>Runs of the tracker\<close>

datatype track_op = OpTrack part_key int | OpDone part_key int | OpCommit | OpRewind position

fun op_step :: "track_op \<Rightarrow> tracker \<Rightarrow> tracker" where
  "op_step (OpTrack k off) t = track k off t"
| "op_step (OpDone k off) t = mark_done k off t"
| "op_step OpCommit t = snd (committable t)"
| "op_step (OpRewind p) t = rewind p t"

definition run_ops :: "track_op list \<Rightarrow> tracker" where
  "run_ops ops = fold op_step ops new_tracker"

fun tracked_of :: "track_op list \<Rightarrow> part_key \<Rightarrow> int list" where
  "tracked_of [] k = []"
| "tracked_of (OpTrack k' off # ops) k = (if k' = k then off # tracked_of ops k else tracked_of ops k)"
| "tracked_of (_ # ops) k = tracked_of ops k"

fun dones_of :: "track_op list \<Rightarrow> part_key \<Rightarrow> int list" where
  "dones_of [] k = []"
| "dones_of (OpDone k' off # ops) k = (if k' = k then off # dones_of ops k else dones_of ops k)"
| "dones_of (_ # ops) k = dones_of ops k"

text \<open>
  How the consumer drives the tracker: Kafka delivers each partition in increasing offset order,
  a message is finished once and after it was fetched, and only real offsets are rewound.
\<close>

fun op_ok :: "track_op list \<Rightarrow> track_op \<Rightarrow> bool" where
  "op_ok pre (OpTrack k off) = (0 \<le> off \<and> (\<forall>o1\<in>set (tracked_of pre k). o1 < off))"
| "op_ok pre (OpDone k off) = (off \<in> set (tracked_of pre k) \<and> off \<notin> set (dones_of pre k))"
| "op_ok pre OpCommit = True"
| "op_ok pre (OpRewind p) = (0 \<le> snd p)"

fun disciplined_from :: "track_op list \<Rightarrow> track_op list \<Rightarrow> bool" where
  "disciplined_from pre [] = True"
| "disciplined_from pre (x # xs) = (op_ok pre x \<and> disciplined_from (pre @ [x]) xs)"

abbreviation disciplined :: "track_op list \<Rightarrow> bool" where
  "disciplined \<equiv> disciplined_from []"

lemma tracked_of_append: "tracked_of (xs @ ys) k = tracked_of xs k @ tracked_of ys k"
  by (induction xs k rule: tracked_of.induct) auto

lemma dones_of_append: "dones_of (xs @ ys) k = dones_of xs k @ dones_of ys k"
  by (induction xs k rule: dones_of.induct) auto

lemma op_step_repr:
  assumes "tracker_repr t (tracked_of pre) (\<lambda>k. set (dones_of pre k)) C" "op_ok pre x"
  shows "\<exists>C'. tracker_repr (op_step x t) (tracked_of (pre @ [x])) (\<lambda>k. set (dones_of (pre @ [x]) k)) C'"
proof (cases x)
  case (OpTrack k off)
  have "tracked_of (pre @ [x]) = (tracked_of pre)(k := tracked_of pre k @ [off])"
    "(\<lambda>k. set (dones_of (pre @ [x]) k)) = (\<lambda>k. set (dones_of pre k))"
    using OpTrack by (auto simp: tracked_of_append dones_of_append)
  with tr.repr_trk [OF assms(1), of k off] assms(2) OpTrack show ?thesis by auto
next
  case (OpDone k off)
  have "tracked_of (pre @ [x]) = tracked_of pre"
    "(\<lambda>k. set (dones_of (pre @ [x]) k)) = (\<lambda>k. set (dones_of pre k))(k := insert off (set (dones_of pre k)))"
    using OpDone by (auto simp: tracked_of_append dones_of_append fun_eq_iff)
  with tr.repr_don [OF assms(1), of off k] assms(2) OpDone show ?thesis by auto
next
  case OpCommit
  then show ?thesis
    using tr.repr_cmt [OF assms(1)] by (auto simp: tracked_of_append [abs_def] dones_of_append)
next
  case (OpRewind p)
  then show ?thesis
    using tr.repr_rew [OF assms(1), of "snd p" "fst p"] assms(2)
    by (auto simp: tracked_of_append [abs_def] dones_of_append)
qed

lemma run_from_repr:
  assumes "disciplined_from pre ops" "tracker_repr t (tracked_of pre) (\<lambda>k. set (dones_of pre k)) C"
  shows "\<exists>C'. tracker_repr (fold op_step ops t) (tracked_of (pre @ ops)) (\<lambda>k. set (dones_of (pre @ ops) k)) C'"
  using assms
proof (induction ops arbitrary: pre t C)
  case Nil
  then show ?case by auto
next
  case (Cons x ops)
  then have "op_ok pre x" "disciplined_from (pre @ [x]) ops" by simp_all
  with op_step_repr [OF Cons.prems(2)] Cons.IH [of "pre @ [x]"] show ?case by fastforce
qed

lemma run_ops_repr:
  assumes "disciplined ops"
  obtains C where "tracker_repr (run_ops ops) (tracked_of ops) (\<lambda>k. set (dones_of ops k)) C"
proof -
  have "tracker_repr new_tracker (tracked_of []) (\<lambda>k. set (dones_of [] k)) (\<lambda>_. -1)"
    using tr.repr_new by (simp add: ext [of "tracked_of []" "\<lambda>_. []"])
  then show ?thesis
    using run_from_repr [of "[]" ops new_tracker] assms that unfolding run_ops_def by auto
qed

text \<open>\<open>Committable\<close> never hands out a position that covers an unfinished message: for every
  history in which partitions are fetched in offset order and messages are finished in any order,
  a returned position was itself tracked, and every tracked offset up to it is done.\<close>

theorem commit_covers_only_done:
  assumes "disciplined ops" "(k, off) \<in> set (fst (committable (run_ops ops)))"
  shows "off \<in> set (tracked_of ops k) \<and> (\<forall>o1\<in>set (tracked_of ops k). o1 \<le> off \<longrightarrow> o1 \<in> set (dones_of ops k))"
proof -
  obtain C where r: "tracker_repr (run_ops ops) (tracked_of ops) (\<lambda>k. set (dones_of ops k)) C"
    using run_ops_repr [OF assms(1)] .
  show ?thesis using tr.cmt_safe [OF r assms(2)] tr.cmt_tracked [OF r assms(2)] by blast
qed

abbreviation demo_ops :: "track_op list" where
  "demo_ops \<equiv> [OpTrack (''t'', 0) 5, OpTrack (''t'', 0) 6, OpTrack (''t'', 0) 7,
     OpDone (''t'', 0) 6, OpDone (''t'', 0) 5]"

theorem commit_covers_only_done_witness:
  "6 \<in> set (tracked_of demo_ops (''t'', 0)) \<and> 5 \<in> set (dones_of demo_ops (''t'', 0))"
proof -
  have "6 \<in> set (tracked_of demo_ops (''t'', 0)) \<and>
    (\<forall>o1\<in>set (tracked_of demo_ops (''t'', 0)). o1 \<le> 6 \<longrightarrow> o1 \<in> set (dones_of demo_ops (''t'', 0)))"
    by (rule commit_covers_only_done)
      (simp_all add: run_ops_def committable_def track_def mark_done_def part_of_def new_tracker_def
        new_part_def drain.simps Let_def)
  then show ?thesis by simp
qed

end
