(* ===== verification/Consumer.thy ===== *)
theory Consumer
  imports Tracker "HOL-Library.Word"
begin

text \<open>
  The event-processing loop of \<open>shared/consumer/consumer.go\<close>: configuration defaults, the
  retry delay in 64-bit nanoseconds, the routing hash, the retry and dead-letter loops of
  \<open>process\<close>, and \<open>Run\<close> as a step relation over the fetch loop, the workers and the
  committer.
\<close>

unbundle bit_operations_syntax

section \<open>Configuration\<close>

type_synonym duration = "64 word"

record config =
  workers :: int
  queue_size :: int
  max_attempts :: int
  base_backoff :: duration
  max_backoff :: duration
  dlq_topic :: string
  commit_interval :: duration

definition with_defaults :: "config \<Rightarrow> config" where
  "with_defaults c =
     (let c = (if workers c \<le> 0 then c\<lparr>workers := 8\<rparr> else c);
          c = (if queue_size c \<le> 0 then c\<lparr>queue_size := 64\<rparr> else c);
          c = (if max_attempts c \<le> 0 then c\<lparr>max_attempts := 5\<rparr> else c);
          c = (if sint (base_backoff c) \<le> 0 then c\<lparr>base_backoff := 200000000\<rparr> else c);
          c = (if sint (max_backoff c) \<le> 0 then c\<lparr>max_backoff := 10000000000\<rparr> else c);
          c = (if sint (commit_interval c) \<le> 0 then c\<lparr>commit_interval := 1000000000\<rparr> else c)
      in c)"

definition config_ok :: "config \<Rightarrow> bool" where
  "config_ok c \<longleftrightarrow> 0 < workers c \<and> 0 < queue_size c \<and> 0 < max_attempts c \<and>
     0 < sint (base_backoff c) \<and> 0 < sint (max_backoff c) \<and> 0 < sint (commit_interval c)"

lemma with_defaults_ok [simp, intro]: "config_ok (with_defaults c)"
  by (auto simp: with_defaults_def config_ok_def Let_def)

lemma with_defaults_id: "config_ok c \<Longrightarrow> with_defaults c = c"
  by (auto simp: with_defaults_def config_ok_def Let_def)

section \<open>Retry delay\<close>

definition backoff :: "config \<Rightarrow> int \<Rightarrow> duration" where
  "backoff cfg attempt =
     (let d = push_bit (nat (attempt - 1)) (base_backoff cfg) in
      if sint d \<le> 0 \<or> sint (max_backoff cfg) < sint d then max_backoff cfg else d)"

text \<open>
  The shift wraps around.  A wrapped value is a multiple of the power of two it was shifted by,
  so when base and cap are small enough it is either not positive or above the cap.
\<close>

lemma sint_push_bit:
  fixes w :: duration
  shows "sint (push_bit k w) = (2 ^ k * sint w + 2 ^ 63) mod 2 ^ 64 - 2 ^ 63"
proof -
  have "sint (push_bit k w) = signed_take_bit 63 (push_bit k (sint w))"
    by (subst signed_push_bit_eq) simp
  then show ?thesis
    by (simp add: signed_take_bit_eq_take_bit_shift take_bit_eq_mod push_bit_eq_mult mult.commute)
qed

lemma dvd_sint_push_bit:
  fixes w :: duration
  assumes "k < 64"
  shows "2 ^ k dvd sint (push_bit k w)"
proof -
  have d: "(2::int) ^ k dvd 2 ^ 63" "(2::int) ^ k dvd 2 ^ 64"
    using assms by (intro le_imp_power_dvd; simp)+
  then have "2 ^ k dvd (2 ^ k * sint w + 2 ^ 63) mod 2 ^ 64"
    by (simp add: dvd_mod)
  then show ?thesis unfolding sint_push_bit by (rule dvd_diff [OF _ d(1)])
qed

lemma backoff_min:
  fixes b mx :: duration
  assumes "0 < sint b" "0 < sint mx" "sint b * sint mx < 2 ^ 62"
  shows "sint (let d = push_bit k b in if sint d \<le> 0 \<or> sint mx < sint d then mx else d) = min (sint b * 2 ^ k) (sint mx)"
proof (cases "sint b * 2 ^ k < 2 ^ 63")
  case True
  then have "sint (push_bit k b) = sint b * 2 ^ k"
    using assms(1) by (simp add: sint_push_bit mult.commute)
  then show ?thesis using assms by (auto simp: Let_def min_def mult_le_0_iff)
next
  case False
  have big: "sint mx < 2 ^ k"
  proof -
    have "sint b * sint mx < sint b * 2 ^ k" using False assms(3) by simp
    then show ?thesis using assms(1) by simp
  qed
  have "sint (push_bit k b) \<le> 0 \<or> sint mx < sint (push_bit k b)"
  proof (cases "k < 64")
    case True
    then show ?thesis using dvd_sint_push_bit [OF True, of b] big by (metis linorder_not_le order_less_le_trans zdvd_imp_le)
  next
    case False
    then have "push_bit k b = 0" by (simp add: push_bit_word_beyond)
    then show ?thesis by simp
  qed
  moreover have "sint mx \<le> sint b * 2 ^ k"
    using mult_mono [of 1 "sint b" "sint mx" "2 ^ k"] big assms(1,2) by simp
  ultimately show ?thesis by (auto simp: Let_def min_def)
qed

text \<open>C10. For a positive base delay and cap whose product (in nanoseconds) is below \<open>2^62\<close>, as for
  the defaults of 200 ms and 10 s, the retry delay of the consumer is the base delay doubled per
  attempt and capped, \<open>min (base * 2^(attempt-1)) max\<close>, for every attempt number, although the
  code computes it by a 64-bit shift that wraps around.  \<open>backoff_wraps\<close> below shows that the bound
  on the product is needed.\<close>

theorem backoff_is_capped_doubling:
  assumes "0 < sint (base_backoff cfg)" "0 < sint (max_backoff cfg)"
    and "sint (base_backoff cfg) * sint (max_backoff cfg) < 2 ^ 62" "1 \<le> attempt"
  shows "sint (backoff cfg attempt)
    = min (sint (base_backoff cfg) * 2 ^ nat (attempt - 1)) (sint (max_backoff cfg))"
  unfolding backoff_def using assms(1-3) by (rule backoff_min)

definition zero_config :: config where
  "zero_config = \<lparr>workers = 0, queue_size = 0, max_attempts = 0, base_backoff = 0, max_backoff = 0,
     dlq_topic = ''post.created.dlq'', commit_interval = 0\<rparr>"

theorem backoff_is_capped_doubling_witness:
  "sint (backoff (with_defaults zero_config) 4)
    = min (sint (base_backoff (with_defaults zero_config)) * 2 ^ nat (4 - 1))
          (sint (max_backoff (with_defaults zero_config)))"
  by (rule backoff_is_capped_doubling) (simp_all add: with_defaults_def zero_config_def Let_def)

text \<open>Beyond that bound the shift can wrap around to a small positive delay: a base delay of
  \<open>2^28 + 1\<close> ns (0.27 s) and a cap of one hour give 68.7 s at attempt 37, far below the cap.\<close>

lemma backoff_wraps:
  "sint (backoff (zero_config\<lparr>base_backoff := 268435457, max_backoff := 3600000000000\<rparr>) 37) = 2 ^ 36"
  by (simp add: backoff_def Let_def)

lemma backoff_bounds:
  assumes "0 < sint (max_backoff cfg)"
  shows "0 < sint (backoff cfg a)" "sint (backoff cfg a) \<le> sint (max_backoff cfg)"
  using assms by (auto simp: backoff_def Let_def)

section \<open>Routing\<close>

text \<open>FNV-1a over 32 bits (\<open>hash/fnv\<close> of Go's standard library).\<close>

definition fnv32a :: "string \<Rightarrow> 32 word" where
  "fnv32a key = foldl (\<lambda>h c. (h XOR of_char c) * 16777619) 2166136261 key"

definition route :: "string \<Rightarrow> int \<Rightarrow> int" where
  "route key n = (if n \<le> 1 then 0 else uint (fnv32a key mod word_of_int n))"

lemma route_bounds:
  assumes "0 < n" "n < 2 ^ 32"
  shows "0 \<le> route key n" "route key n < n"
proof -
  have "uint (word_of_int n :: 32 word) = n"
    using assms by (simp add: unsigned_of_int take_bit_int_eq_self)
  then show "0 \<le> route key n" "route key n < n"
    using assms by (auto simp: route_def uint_mod_distrib)
qed

section \<open>Handling one message\<close>

record msg =
  m_topic :: string
  m_part :: int
  m_off :: int
  m_key :: string
  m_value :: string

abbreviation m_pk :: "msg \<Rightarrow> part_key" where
  "m_pk m \<equiv> (m_topic m, m_part m)"

record dead_letter =
  original_topic :: string
  dl_partition :: int
  dl_offset :: int
  dl_key :: string
  dl_value :: string
  dl_error :: string
  dl_attempts :: int
  failed_at :: int

text \<open>The visible effects of \<open>process\<close>, in order: handler calls with their outcome, sleeps,
  refused dead-letter writes and the accepted one.\<close>

datatype pevent =
    EvHandle int bool
  | EvSleep duration
  | EvDlqRefused int
  | EvDlqAccepted dead_letter

datatype handle_result = HDone | HStopped | HGaveUp "string option"

datatype process_result = Finished bool | Panicked

text \<open>
  The environment of one message: \<open>ctx a\<close> is \<open>ctx.Err() != nil\<close> at attempt \<open>a\<close>,
  \<open>h a\<close> the error of the \<open>a\<close>-th handler call (\<open>None\<close>: success), likewise
  \<open>pctx\<close>, \<open>pub\<close> for the dead-letter writes.  Any behaviour of handler and broker is
  some such functions.  With no dead-letter topic the loop retries forever, so it may not return.
\<close>

partial_function (option) handle_loop ::
  "config \<Rightarrow> (int \<Rightarrow> bool) \<Rightarrow> (int \<Rightarrow> string option) \<Rightarrow> int \<Rightarrow> string option \<Rightarrow> pevent list
   \<Rightarrow> (handle_result \<times> pevent list) option" where
  "handle_loop cfg ctx h a err ev =
     (if a \<le> max_attempts cfg \<or> dlq_topic cfg = [] then
        if ctx a then Some (HStopped, ev)
        else if h a = None then Some (HDone, ev @ [EvHandle a True])
        else handle_loop cfg ctx h (a + 1) (h a)
               (ev @ [EvHandle a False] @
                (if a < max_attempts cfg \<or> dlq_topic cfg = [] then [EvSleep (backoff cfg a)] else []))
      else Some (HGaveUp err, ev))"

partial_function (option) dlq_loop ::
  "config \<Rightarrow> (int \<Rightarrow> bool) \<Rightarrow> (int \<Rightarrow> string option) \<Rightarrow> dead_letter \<Rightarrow> int \<Rightarrow> pevent list
   \<Rightarrow> (bool \<times> pevent list) option" where
  "dlq_loop cfg pctx pub dl a ev =
     (if pctx a then Some (False, ev)
      else if pub a = None then Some (True, ev @ [EvDlqAccepted dl])
      else dlq_loop cfg pctx pub dl (a + 1) (ev @ [EvDlqRefused a, EvSleep (backoff cfg a)]))"

definition dead_letter_of :: "config \<Rightarrow> msg \<Rightarrow> string \<Rightarrow> int \<Rightarrow> dead_letter" where
  "dead_letter_of cfg m err now =
     \<lparr>original_topic = m_topic m, dl_partition = m_part m, dl_offset = m_off m,
      dl_key = m_key m, dl_value = m_value m, dl_error = err,
      dl_attempts = max_attempts cfg, failed_at = now\<rparr>"

definition process ::
  "config \<Rightarrow> (int \<Rightarrow> bool) \<Rightarrow> (int \<Rightarrow> string option) \<Rightarrow> (int \<Rightarrow> bool) \<Rightarrow> (int \<Rightarrow> string option)
   \<Rightarrow> int \<Rightarrow> msg \<Rightarrow> (process_result \<times> pevent list) option" where
  "process cfg ctx h pctx pub now m =
     (case handle_loop cfg ctx h 1 None [] of
        None \<Rightarrow> None
      | Some (HDone, ev) \<Rightarrow> Some (Finished True, ev)
      | Some (HStopped, ev) \<Rightarrow> Some (Finished False, ev)
      | Some (HGaveUp None, ev) \<Rightarrow> Some (Panicked, ev)
      | Some (HGaveUp (Some e), ev) \<Rightarrow>
          map_option (\<lambda>(b, ev'). (Finished b, ev'))
            (dlq_loop cfg pctx pub (dead_letter_of cfg m e now) 1 ev))"

subsection \<open>What the loops return\<close>

fun handle_post :: "config \<Rightarrow> (int \<Rightarrow> bool) \<Rightarrow> (int \<Rightarrow> string option) \<Rightarrow> int \<Rightarrow> string option
    \<Rightarrow> handle_result \<Rightarrow> bool" where
  "handle_post cfg ctx h a err HDone =
     (\<exists>b\<ge>a. h b = None \<and> \<not> ctx b \<and> (\<forall>i. a \<le> i \<and> i < b \<longrightarrow> h i \<noteq> None) \<and>
            (b \<le> max_attempts cfg \<or> dlq_topic cfg = []))"
| "handle_post cfg ctx h a err HStopped = (\<exists>b\<ge>a. ctx b)"
| "handle_post cfg ctx h a err (HGaveUp e) =
     (dlq_topic cfg \<noteq> [] \<and> (\<forall>i. a \<le> i \<and> i \<le> max_attempts cfg \<longrightarrow> h i \<noteq> None) \<and>
      e = (if a \<le> max_attempts cfg then h (max_attempts cfg) else err))"

lemma handle_post_step:
  assumes "handle_post cfg ctx h (a + 1) (h a) r" "h a \<noteq> None" "a \<le> max_attempts cfg \<or> dlq_topic cfg = []"
  shows "handle_post cfg ctx h a err r"
proof (cases r)
  case HDone
  then obtain b where b: "b \<ge> a + 1" "h b = None" "\<not> ctx b"
    "\<forall>i. a + 1 \<le> i \<and> i < b \<longrightarrow> h i \<noteq> None" "b \<le> max_attempts cfg \<or> dlq_topic cfg = []"
    using assms(1) by auto
  have "h i \<noteq> None" if "a \<le> i" "i < b" for i
    using that b(4) assms(2) by (cases "i = a") auto
  with b HDone show ?thesis by (auto intro!: exI [of _ b])
next
  case HStopped
  then obtain b where "b \<ge> a + 1" "ctx b" using assms(1) by auto
  with HStopped show ?thesis by (auto intro!: exI [of _ b])
next
  case (HGaveUp e)
  have "h i \<noteq> None" if "a \<le> i" "i \<le> max_attempts cfg" for i
    using that assms HGaveUp by (cases "i = a") auto
  moreover have "a + 1 \<le> max_attempts cfg \<or> a = max_attempts cfg"
    using assms(1,3) HGaveUp by auto
  ultimately show ?thesis using assms(1,3) HGaveUp by auto
qed

lemma handle_loop_post:
  assumes "handle_loop cfg ctx h a err ev = Some (r, ev')"
  shows "handle_post cfg ctx h a err r"
proof -
  have "handle_post cfg ctx h a err (fst p)" if "handle_loop cfg ctx h a err ev = Some p" for p
  proof (rule handle_loop.raw_induct
      [where P = "\<lambda>cfg ctx h a err ev p. handle_post cfg ctx h a err (fst p)", OF _ that])
    fix loop cfg ctx h a err ev p
    assume IH: "\<And>cfg ctx h a err ev p. loop cfg ctx h a err ev = Some p \<Longrightarrow>
        handle_post cfg ctx h a err (fst p)"
      and eq: "(if a \<le> max_attempts cfg \<or> dlq_topic cfg = [] then
        if ctx a then Some (HStopped, ev)
        else if h a = None then Some (HDone, ev @ [EvHandle a True])
        else loop cfg ctx h (a + 1) (h a)
               (ev @ [EvHandle a False] @
                (if a < max_attempts cfg \<or> dlq_topic cfg = [] then [EvSleep (backoff cfg a)] else []))
      else Some (HGaveUp err, ev)) = Some p"
    show "handle_post cfg ctx h a err (fst p)"
    proof (cases "a \<le> max_attempts cfg \<or> dlq_topic cfg = []")
      case False
      with eq show ?thesis by auto
    next
      case go: True
      show ?thesis
      proof (cases "ctx a \<or> h a = None")
        case True
        with eq go show ?thesis by (fastforce split: if_splits)
      next
        case False
        let ?ev = "ev @ [EvHandle a False] @
          (if a < max_attempts cfg \<or> dlq_topic cfg = [] then [EvSleep (backoff cfg a)] else [])"
        from False have "ctx a = False" "(h a = None) = False" by simp_all
        with eq go have "loop cfg ctx h (a + 1) (h a) ?ev = Some p" by (simp only: if_True if_False)
        then have "handle_post cfg ctx h (a + 1) (h a) (fst p)" by (rule IH)
        then show ?thesis
        proof (rule handle_post_step)
          show "h a \<noteq> None" using False by blast
          show "a \<le> max_attempts cfg \<or> dlq_topic cfg = []" by (rule go)
        qed
      qed
    qed
  qed
  from this [OF assms] show ?thesis by simp
qed

text \<open>Counting handler calls.\<close>

fun handle_calls :: "pevent list \<Rightarrow> nat" where
  "handle_calls [] = 0"
| "handle_calls (EvHandle _ _ # ev) = Suc (handle_calls ev)"
| "handle_calls (_ # ev) = handle_calls ev"

lemma handle_calls_append [simp]: "handle_calls (xs @ ys) = handle_calls xs + handle_calls ys"
  by (induction xs rule: handle_calls.induct) auto

lemma handle_loop_total:
  assumes "dlq_topic cfg \<noteq> []"
  shows "\<exists>r ev'. handle_loop cfg ctx h a err ev = Some (r, ev') \<and>
    handle_calls ev' \<le> handle_calls ev + nat (max_attempts cfg + 1 - a)"
proof (induction "nat (max_attempts cfg + 1 - a)" arbitrary: a err ev)
  case 0
  then show ?case using assms by (subst handle_loop.simps) auto
next
  case (Suc n)
  then have a: "a \<le> max_attempts cfg" by linarith
  then have n: "n = nat (max_attempts cfg + 1 - (a + 1))" using Suc(2) by linarith
  show ?case
  proof (cases "ctx a \<or> h a = None")
    case True
    then show ?thesis using a by (subst handle_loop.simps) auto
  next
    case False
    let ?ev = "ev @ [EvHandle a False] @
      (if a < max_attempts cfg \<or> dlq_topic cfg = [] then [EvSleep (backoff cfg a)] else [])"
    have "handle_calls ?ev = Suc (handle_calls ev)" by simp
    with Suc(1) [OF n, of "h a" ?ev] show ?thesis
      using False a n Suc(2) by (subst handle_loop.simps) auto
  qed
qed

lemma dlq_loop_post:
  assumes "dlq_loop cfg pctx pub dl a ev = Some (b, ev')"
  shows "if b then EvDlqAccepted dl \<in> set ev' \<and> (\<exists>i\<ge>a. pub i = None) else (\<exists>i\<ge>a. pctx i)"
proof -
  let ?P = "\<lambda>pctx pub dl a p. if fst p then EvDlqAccepted dl \<in> set (snd p) \<and> (\<exists>i\<ge>a. pub i = None)
      else (\<exists>i\<ge>(a::int). pctx i)"
  have "?P pctx pub dl a p" if "dlq_loop cfg pctx pub dl a ev = Some p" for p :: "bool \<times> pevent list"
  proof (rule dlq_loop.raw_induct
      [where P = "\<lambda>cfg pctx pub dl a ev p. ?P pctx pub dl a p", OF _ that])
    fix loop cfg pctx pub dl a ev and p :: "bool \<times> pevent list"
    assume IH: "\<And>cfg pctx pub dl a ev p. loop cfg pctx pub dl a ev = Some p \<Longrightarrow> ?P pctx pub dl a p"
      and eq: "(if pctx a then Some (False, ev)
      else if pub a = None then Some (True, ev @ [EvDlqAccepted dl])
      else loop cfg pctx pub dl (a + 1) (ev @ [EvDlqRefused a, EvSleep (backoff cfg a)])) = Some p"
    show "?P pctx pub dl a p"
    proof (cases "pctx a \<or> pub a = None")
      case True
      with eq show ?thesis by (auto split: if_splits)
    next
      case False
      then have "pctx a = False" "(pub a = None) = False" by simp_all
      with eq have "loop cfg pctx pub dl (a + 1) (ev @ [EvDlqRefused a, EvSleep (backoff cfg a)]) = Some p"
        by (simp only: if_False)
      then have "?P pctx pub dl (a + 1) p" by (rule IH)
      moreover have "i \<ge> a + 1 \<Longrightarrow> i \<ge> a" for i by simp
      ultimately show ?thesis by metis
    qed
  qed
  from this [OF assms] show ?thesis by (simp only: fst_conv snd_conv)
qed

lemma dlq_loop_total:
  assumes "pctx (a + int n) \<or> pub (a + int n) = None"
  shows "\<exists>b ev'. dlq_loop cfg pctx pub dl a ev = Some (b, ev') \<and> handle_calls ev' = handle_calls ev"
  using assms
proof (induction n arbitrary: a ev)
  case 0
  then show ?case by (subst dlq_loop.simps) auto
next
  case (Suc n)
  show ?case
  proof (cases "pctx a \<or> pub a = None")
    case True
    then show ?thesis by (subst dlq_loop.simps) auto
  next
    case False
    have "pctx (a + 1 + int n) \<or> pub (a + 1 + int n) = None"
      using Suc.prems by (simp add: add.commute add.left_commute)
    from Suc.IH [OF this, of "ev @ [EvDlqRefused a, EvSleep (backoff cfg a)]"]
    show ?thesis using False by (subst dlq_loop.simps) auto
  qed
qed

text \<open>The two loops go on as long as nothing stops them.\<close>

lemma handle_loop_gives_up:
  assumes "\<forall>b. a \<le> b \<and> b \<le> max_attempts cfg \<longrightarrow> \<not> ctx b \<and> h b \<noteq> None" "dlq_topic cfg \<noteq> []"
  shows "\<exists>e ev'. handle_loop cfg ctx h a err ev = Some (HGaveUp e, ev')"
  using assms
proof (induction "nat (max_attempts cfg + 1 - a)" arbitrary: a err ev)
  case 0
  then show ?case by (subst handle_loop.simps) auto
next
  case (Suc n)
  let ?ev = "ev @ [EvHandle a False] @
    (if a < max_attempts cfg \<or> dlq_topic cfg = [] then [EvSleep (backoff cfg a)] else [])"
  have a: "a \<le> max_attempts cfg" "n = nat (max_attempts cfg + 1 - (a + 1))" using Suc(2) by linarith+
  have "\<forall>b. a + 1 \<le> b \<and> b \<le> max_attempts cfg \<longrightarrow> \<not> ctx b \<and> h b \<noteq> None" using Suc.prems(1) by simp
  from Suc.hyps(1) [OF a(2) this Suc.prems(2), of "h a" ?ev]
  show ?case using Suc.prems a(1) by (subst handle_loop.simps) simp
qed

lemma handle_loop_stops:
  assumes "handle_loop cfg ctx h a err ev = Some (HGaveUp e, ev')"
  shows "\<forall>b. a \<le> b \<and> b \<le> max_attempts cfg \<longrightarrow> \<not> ctx b \<and> h b \<noteq> None"
proof -
  have "fst p = HGaveUp e \<longrightarrow> (\<forall>b. a \<le> b \<and> b \<le> max_attempts cfg \<longrightarrow> \<not> ctx b \<and> h b \<noteq> None)"
    if "handle_loop cfg ctx h a err ev = Some p" for p
  proof (rule handle_loop.raw_induct
      [where P = "\<lambda>cfg ctx h a err ev p. fst p = HGaveUp e \<longrightarrow>
         (\<forall>b. a \<le> b \<and> b \<le> max_attempts cfg \<longrightarrow> \<not> ctx b \<and> h b \<noteq> None)", OF _ that])
    fix loop cfg ctx h a err ev p
    assume IH: "\<And>cfg ctx h a err ev p. loop cfg ctx h a err ev = Some p \<Longrightarrow> fst p = HGaveUp e \<longrightarrow>
         (\<forall>b. a \<le> b \<and> b \<le> max_attempts cfg \<longrightarrow> \<not> ctx b \<and> h b \<noteq> None)"
      and eq: "(if a \<le> max_attempts cfg \<or> dlq_topic cfg = [] then
        if ctx a then Some (HStopped, ev)
        else if h a = None then Some (HDone, ev @ [EvHandle a True])
        else loop cfg ctx h (a + 1) (h a)
               (ev @ [EvHandle a False] @
                (if a < max_attempts cfg \<or> dlq_topic cfg = [] then [EvSleep (backoff cfg a)] else []))
      else Some (HGaveUp err, ev)) = Some p"
    show "fst p = HGaveUp e \<longrightarrow> (\<forall>b. a \<le> b \<and> b \<le> max_attempts cfg \<longrightarrow> \<not> ctx b \<and> h b \<noteq> None)"
    proof (cases "(a \<le> max_attempts cfg \<or> dlq_topic cfg = []) \<and> \<not> ctx a \<and> h a \<noteq> None")
      case True
      then have "ctx a = False" "(h a = None) = False" by simp_all
      with eq True have "loop cfg ctx h (a + 1) (h a) (ev @ [EvHandle a False] @
          (if a < max_attempts cfg \<or> dlq_topic cfg = [] then [EvSleep (backoff cfg a)] else [])) = Some p"
        by (simp only: if_True if_False)
      from IH [OF this] show ?thesis using True
        by (metis (no_types, lifting) zle_add1_eq_le order_le_less zless_imp_add1_zle)
    next
      case False
      with eq show ?thesis by (fastforce split: if_splits)
    qed
  qed
  from this [OF assms] show ?thesis by simp
qed

text \<open>C6. A message counts as finished (its offset may be committed) only after a handler call
  succeeded, or after every one of the \<open>MaxAttempts\<close> calls failed and the dead-letter topic
  accepted a record with the message's origin, key, value and last error.\<close>

theorem finished_means_handled_or_parked:
  assumes "process cfg ctx h pctx pub now m = Some (Finished True, ev)"
  shows "(\<exists>b\<ge>1. h b = None \<and> (\<forall>i. 1 \<le> i \<and> i < b \<longrightarrow> h i \<noteq> None)) \<or>
    (dlq_topic cfg \<noteq> [] \<and> (\<forall>i. 1 \<le> i \<and> i \<le> max_attempts cfg \<longrightarrow> h i \<noteq> None) \<and>
     (\<exists>e. h (max_attempts cfg) = Some e \<and> EvDlqAccepted (dead_letter_of cfg m e now) \<in> set ev))"
proof -
  from assms obtain r ev1 where l: "handle_loop cfg ctx h 1 None [] = Some (r, ev1)"
    by (auto simp: process_def split: option.splits)
  note post = handle_loop_post [OF l]
  show ?thesis
  proof (cases r)
    case HDone
    with post show ?thesis by auto
  next
    case HStopped
    with assms l show ?thesis by (simp add: process_def)
  next
    case (HGaveUp oe)
    with assms l obtain e where e: "oe = Some e" "dlq_loop cfg pctx pub (dead_letter_of cfg m e now) 1 ev1 = Some (True, ev)"
      by (auto simp: process_def split: option.splits)
    then have "EvDlqAccepted (dead_letter_of cfg m e now) \<in> set ev"
      using dlq_loop_post by fastforce
    with post HGaveUp e show ?thesis by (auto split: if_splits)
  qed
qed

abbreviation demo_cfg :: config where
  "demo_cfg \<equiv> with_defaults zero_config"

abbreviation demo_msg :: msg where
  "demo_msg \<equiv> \<lparr>m_topic = ''t'', m_part = 0, m_off = 7, m_key = ''k'', m_value = ''v''\<rparr>"

theorem finished_means_handled_or_parked_witness:
  "(\<exists>b\<ge>1. (if b = (2::int) then None else Some ''boom'') = None \<and>
      (\<forall>i. 1 \<le> i \<and> i < b \<longrightarrow> (if i = 2 then None else Some ''boom'') \<noteq> None)) \<or>
   (dlq_topic demo_cfg \<noteq> [] \<and> (\<forall>i. 1 \<le> i \<and> i \<le> max_attempts demo_cfg \<longrightarrow>
      (if i = 2 then None else Some ''boom'') \<noteq> None) \<and>
     (\<exists>e. (if max_attempts demo_cfg = 2 then None else Some ''boom'') = Some e \<and>
        EvDlqAccepted (dead_letter_of demo_cfg demo_msg e 0) \<in>
          set [EvHandle 1 False, EvSleep (backoff demo_cfg 1), EvHandle 2 True]))"
  by (rule finished_means_handled_or_parked
      [where ctx = "\<lambda>_. False" and pctx = "\<lambda>_. False" and pub = "\<lambda>_. None"])
    (simp add: process_def handle_loop.simps with_defaults_def zero_config_def Let_def)

text \<open>C7. With a dead-letter topic, \<open>process\<close> runs forever in exactly one case: every one of the
  \<open>MaxAttempts\<close> handler calls fails, the dead-letter topic then refuses every write, and the context
  is never cancelled (a dead letter is retried without a limit).  Whenever it returns, it did not
  panic, it called the handler at most \<open>MaxAttempts\<close> times, and it reports "not finished" only
  after it saw the context cancelled.\<close>

theorem process_returns:
  assumes "config_ok cfg" "dlq_topic cfg \<noteq> []"
  shows "(process cfg ctx h pctx pub now m = None \<longleftrightarrow>
      (\<forall>a. 1 \<le> a \<and> a \<le> max_attempts cfg \<longrightarrow> \<not> ctx a \<and> h a \<noteq> None) \<and>
      (\<forall>i\<ge>1. \<not> pctx i \<and> pub i \<noteq> None)) \<and>
    (\<forall>r ev. process cfg ctx h pctx pub now m = Some (r, ev) \<longrightarrow>
      (\<exists>b. r = Finished b \<and> (\<not> b \<longrightarrow> (\<exists>j\<ge>1. ctx j \<or> pctx j))) \<and> handle_calls ev \<le> nat (max_attempts cfg))"
proof -
  obtain r ev1 where l: "handle_loop cfg ctx h 1 None [] = Some (r, ev1)"
    and calls: "handle_calls ev1 \<le> nat (max_attempts cfg)"
    using handle_loop_total [OF assms(2), of ctx h 1 None "[]"] by auto
  note post = handle_loop_post [OF l]
  show ?thesis
  proof (cases "\<exists>e. r = HGaveUp e")
    case False
    then have "\<not> (\<forall>a. 1 \<le> a \<and> a \<le> max_attempts cfg \<longrightarrow> \<not> ctx a \<and> h a \<noteq> None)"
      using handle_loop_gives_up [of 1 cfg ctx h None "[]"] assms(2) l by auto
    with False show ?thesis using l calls post
      by (cases r) (auto simp: process_def)
  next
    case True
    then obtain oe where gave: "r = HGaveUp oe" by blast
    have all: "\<forall>a. 1 \<le> a \<and> a \<le> max_attempts cfg \<longrightarrow> \<not> ctx a \<and> h a \<noteq> None"
      using handle_loop_stops l gave by blast
    have oe: "1 \<le> max_attempts cfg" "oe = h (max_attempts cfg)" using post gave assms(1) by (auto simp: config_ok_def)
    with all obtain e where e: "oe = Some e" by auto
    let ?dl = "dlq_loop cfg pctx pub (dead_letter_of cfg m e now) 1 ev1"
    have proc: "process cfg ctx h pctx pub now m = map_option (\<lambda>(b, ev'). (Finished b, ev')) ?dl"
      using l gave e by (simp add: process_def)
    show ?thesis
    proof (cases "\<forall>i\<ge>1. \<not> pctx i \<and> pub i \<noteq> None")
      case True
      have "?dl = None"
      proof (cases ?dl)
        case (Some p)
        then have "dlq_loop cfg pctx pub (dead_letter_of cfg m e now) 1 ev1 = Some (fst p, snd p)" by simp
        from dlq_loop_post [OF this] True show ?thesis by (metis (full_types))
      qed
      then show ?thesis using all True proc by simp
    next
      case False
      then obtain i where i: "i \<ge> 1" "pctx (1 + int (nat (i - 1))) \<or> pub (1 + int (nat (i - 1))) = None" by auto
      then obtain b ev where d: "?dl = Some (b, ev)" "handle_calls ev = handle_calls ev1"
        using dlq_loop_total [of pctx 1 "nat (i - 1)" pub cfg "dead_letter_of cfg m e now" ev1] by blast
      have "\<not> b \<longrightarrow> (\<exists>j\<ge>1. pctx j)" using dlq_loop_post [OF d(1)] by auto
      with False proc d calls show ?thesis by auto
    qed
  qed
qed

text \<open>Every handler call fails; the dead-letter topic accepts the third write, or never any.\<close>

theorem process_returns_witness:
  "process demo_cfg (\<lambda>_. False) (\<lambda>_. Some ''boom'') (\<lambda>_. False)
      (\<lambda>a. if a < 3 then Some ''down'' else None) 0 demo_msg \<noteq> None \<and>
   process demo_cfg (\<lambda>_. False) (\<lambda>_. Some ''boom'') (\<lambda>_. False) (\<lambda>_. Some ''down'') 0 demo_msg = None"
proof -
  have "config_ok demo_cfg" "dlq_topic demo_cfg \<noteq> []"
    by (simp_all add: with_defaults_def zero_config_def config_ok_def Let_def)
  note p = process_returns [OF this, THEN conjunct1, of "\<lambda>_. False" "\<lambda>_. Some ''boom''" "\<lambda>_. False" _ 0 demo_msg]
  have "\<not> (\<forall>i\<ge>1. (if i < (3::int) then Some ''down'' else None) \<noteq> None)"
    by (auto intro!: exI [of _ 3])
  then show ?thesis unfolding p by simp
qed

end
