(* ===== verification/ConsumerRun.thy ===== *)
theory ConsumerRun
  imports Consumer
begin

text \<open>
  \<open>Consumer.Run\<close> of \<open>shared/consumer/consumer.go\<close> as a step relation: the fetch loop,
  \<open>Workers\<close> goroutines with one bounded queue each, and the committer, interleaved in any
  order.  A worker step that ends a message stands for one call of \<open>process\<close> (theory
  \<open>Consumer\<close>), which reports "not finished" only after the context was cancelled.

  The history fields (\<open>fetched\<close>, \<open>started\<close>, \<open>finished\<close>, in order) only record what
  happened; no step reads them except to say that the broker delivers a partition in increasing
  offset order.  \<open>brk k\<close> is the position the broker holds for partition \<open>k\<close>.
\<close>

record cstate =
  trk_st :: tracker
  queues :: "nat \<Rightarrow> msg list"
  busy :: "nat \<Rightarrow> msg option"
  waiting :: "msg option"
  closed :: bool
  cancelled :: bool
  to_commit :: "position list"
  brk :: "part_key \<Rightarrow> int"
  fetched :: "msg list"
  started :: "msg list"
  finished :: "msg list"

definition init_cstate :: cstate where
  "init_cstate = \<lparr>trk_st = new_tracker, queues = (\<lambda>_. []), busy = (\<lambda>_. None), waiting = None,
     closed = False, cancelled = False, to_commit = [], brk = (\<lambda>_. -1),
     fetched = [], started = [], finished = []\<rparr>"

definition wk :: "config \<Rightarrow> msg \<Rightarrow> nat" where
  "wk cfg m = nat (route (m_key m) (workers cfg))"

definition offs :: "part_key \<Rightarrow> msg list \<Rightarrow> int list" where
  "offs k ms = map m_off (filter (\<lambda>m. m_pk m = k) ms)"

inductive consumer_step :: "config \<Rightarrow> cstate \<Rightarrow> cstate \<Rightarrow> bool" for cfg where
  fetch: "\<lbrakk>\<not> closed s; waiting s = None; 0 \<le> m_off m; \<forall>o1\<in>set (offs (m_pk m) (fetched s)). o1 < m_off m\<rbrakk> \<Longrightarrow>
    consumer_step cfg s (s\<lparr>trk_st := track (m_pk m) (m_off m) (trk_st s), waiting := Some m,
      fetched := fetched s @ [m]\<rparr>)"
| enqueue: "\<lbrakk>\<not> closed s; waiting s = Some m; int (length (queues s (wk cfg m))) < queue_size cfg\<rbrakk> \<Longrightarrow>
    consumer_step cfg s (s\<lparr>queues := (queues s)(wk cfg m := queues s (wk cfg m) @ [m]),
      waiting := None, closed := cancelled s\<rparr>)"
| abandon: "\<lbrakk>\<not> closed s; waiting s = Some m; cancelled s\<rbrakk> \<Longrightarrow> consumer_step cfg s (s\<lparr>closed := True\<rparr>)"
| fetch_fails: "\<lbrakk>\<not> closed s; waiting s = None\<rbrakk> \<Longrightarrow> consumer_step cfg s (s\<lparr>closed := True\<rparr>)"
| cancel: "consumer_step cfg s (s\<lparr>cancelled := True\<rparr>)"
| take: "\<lbrakk>int w < workers cfg; busy s w = None; queues s w = m # rest\<rbrakk> \<Longrightarrow>
    consumer_step cfg s (s\<lparr>busy := (busy s)(w := Some m), queues := (queues s)(w := rest),
      started := started s @ [m]\<rparr>)"
| finish: "\<lbrakk>int w < workers cfg; busy s w = Some m\<rbrakk> \<Longrightarrow>
    consumer_step cfg s (s\<lparr>busy := (busy s)(w := None),
      trk_st := mark_done (m_pk m) (m_off m) (trk_st s), finished := finished s @ [m]\<rparr>)"
| interrupt: "\<lbrakk>int w < workers cfg; busy s w = Some m; cancelled s\<rbrakk> \<Longrightarrow>
    consumer_step cfg s (s\<lparr>busy := (busy s)(w := None)\<rparr>)"
| tick: "\<lbrakk>to_commit s = []\<rbrakk> \<Longrightarrow>
    consumer_step cfg s (s\<lparr>to_commit := fst (committable (trk_st s)),
      trk_st := snd (committable (trk_st s))\<rparr>)"
| commit_ok: "\<lbrakk>to_commit s = (k, off) # ps\<rbrakk> \<Longrightarrow>
    consumer_step cfg s (s\<lparr>to_commit := ps, brk := (brk s)(k := off)\<rparr>)"
| commit_fails: "\<lbrakk>to_commit s = (k, off) # ps\<rbrakk> \<Longrightarrow>
    consumer_step cfg s (s\<lparr>to_commit := ps, trk_st := rewind (k, off) (trk_st s)\<rparr>)"
| commit_reply_lost: "\<lbrakk>to_commit s = (k, off) # ps\<rbrakk> \<Longrightarrow>
    consumer_step cfg s (s\<lparr>to_commit := ps, brk := (brk s)(k := off),
      trk_st := rewind (k, off) (trk_st s)\<rparr>)"

inductive consumer_reach :: "config \<Rightarrow> cstate \<Rightarrow> bool" for cfg where
  start: "consumer_reach cfg init_cstate"
| step: "consumer_reach cfg s \<Longrightarrow> consumer_step cfg s s' \<Longrightarrow> consumer_reach cfg s'"

section \<open>The invariant\<close>

fun olist :: "'a option \<Rightarrow> 'a list" where
  "olist None = []"
| "olist (Some x) = [x]"

abbreviation on :: "config \<Rightarrow> nat \<Rightarrow> msg \<Rightarrow> bool" where
  "on cfg w m \<equiv> wk cfg m = w"

text \<open>Worker \<open>w\<close> starts its messages in fetch order; what is not started is in its queue or
  waits for room.\<close>

definition flow :: "config \<Rightarrow> cstate \<Rightarrow> nat \<Rightarrow> bool" where
  "flow cfg s w \<longleftrightarrow> filter (on cfg w) (fetched s) =
     filter (on cfg w) (started s) @ queues s w @ filter (on cfg w) (olist (waiting s))"

text \<open>Worker \<open>w\<close> handles one message at a time; before a shutdown it finishes all of them, in
  order.\<close>

definition serial :: "config \<Rightarrow> cstate \<Rightarrow> nat \<Rightarrow> bool" where
  "serial cfg s w \<longleftrightarrow> (\<exists>pre. filter (on cfg w) (started s) = pre @ olist (busy s w) \<and>
     set (filter (on cfg w) (finished s)) \<subseteq> set pre \<and>
     (\<not> cancelled s \<longrightarrow> filter (on cfg w) (finished s) = pre))"

definition fr :: "cstate \<Rightarrow> part_key \<Rightarrow> int" where
  "fr s k = frontier (offs k (fetched s)) (set (offs k (finished s)))"

definition commits :: "cstate \<Rightarrow> (part_key \<Rightarrow> int) \<Rightarrow> bool" where
  "commits s C \<longleftrightarrow>
     tracker_repr (trk_st s) (\<lambda>k. offs k (fetched s)) (\<lambda>k. set (offs k (finished s))) C \<and>
     (\<forall>k off. (k, off) \<in> set (to_commit s) \<longrightarrow> 0 \<le> off \<and> off \<le> fr s k) \<and>
     (\<forall>k. brk s k \<le> fr s k)"

definition cinv :: "config \<Rightarrow> cstate \<Rightarrow> bool" where
  "cinv cfg s \<longleftrightarrow> (\<forall>w. flow cfg s w) \<and> (\<forall>w. serial cfg s w) \<and>
     (\<forall>w. int (length (queues s w)) \<le> queue_size cfg) \<and> (\<exists>C. commits s C)"

lemma offs_append [simp]: "offs k (xs @ ys) = offs k xs @ offs k ys"
  by (simp add: offs_def)

lemma offs_simps [simp]: "offs k [] = []" "offs k (m # ms) = (if m_pk m = k then m_off m # offs k ms else offs k ms)"
  by (simp_all add: offs_def)

lemma in_offs: "off \<in> set (offs k ms) \<longleftrightarrow> (\<exists>m\<in>set ms. m_pk m = k \<and> m_off m = off)"
  by (auto simp: offs_def)

lemma flowD: "flow cfg s w \<Longrightarrow> m \<in> set (queues s w) \<Longrightarrow> wk cfg m = w"
  unfolding flow_def
  by (metis (mono_tags, lifting) Un_iff filter_id_conv filter_is_subset set_append mem_Collect_eq set_filter)

lemma serialD:
  assumes "serial cfg s w" "busy s w = Some m"
  shows "wk cfg m = w" "m \<in> set (started s)"
proof -
  from assms obtain pre where "filter (on cfg w) (started s) = pre @ [m]"
    by (auto simp: serial_def)
  then have "m \<in> set (filter (on cfg w) (started s))" by simp
  then show "wk cfg m = w" "m \<in> set (started s)" by auto
qed

lemma finished_started:
  assumes "\<forall>w. serial cfg s w"
  shows "set (finished s) \<subseteq> set (started s)"
proof
  fix m assume m: "m \<in> set (finished s)"
  from assms obtain pre where "filter (on cfg (wk cfg m)) (started s) = pre @ olist (busy s (wk cfg m))"
    "set (filter (on cfg (wk cfg m)) (finished s)) \<subseteq> set pre" unfolding serial_def by blast
  with m have "m \<in> set (filter (on cfg (wk cfg m)) (started s))" by auto
  then show "m \<in> set (started s)" by simp
qed

lemma started_fetched:
  assumes "\<forall>w. flow cfg s w"
  shows "set (started s) \<subseteq> set (fetched s)"
proof
  fix m assume "m \<in> set (started s)"
  then have "m \<in> set (filter (on cfg (wk cfg m)) (started s))" by simp
  then have "m \<in> set (filter (on cfg (wk cfg m)) (fetched s))"
    using assms unfolding flow_def by (metis Un_iff set_append)
  then show "m \<in> set (fetched s)" by simp
qed

lemma distinct_by_parts:
  assumes "\<And>k. distinct (filter (\<lambda>x. f x = k) xs)"
  shows "distinct xs"
  using assms
proof (induction xs)
  case Nil
  then show ?case by simp
next
  case (Cons x xs)
  have "distinct (filter (\<lambda>y. f y = k) xs)" for k
    using Cons.prems [of k] by (auto split: if_splits)
  moreover have "x \<notin> set xs" using Cons.prems [of "f x"] by auto
  ultimately show ?case using Cons.IH by simp
qed

text \<open>A fetched message is identified by partition and offset.\<close>

lemma fetched_ids:
  assumes "commits s C"
  shows "distinct (fetched s)"
    and "m \<in> set (fetched s) \<Longrightarrow> m' \<in> set (fetched s) \<Longrightarrow> m_pk m = m_pk m' \<Longrightarrow> m_off m = m_off m' \<Longrightarrow> m = m'"
proof -
  have "sorted_wrt (<) (offs k (fetched s))" for k
    using assms tr.repr_bounds unfolding commits_def by blast
  then have d: "distinct (map m_off (filter (\<lambda>m. m_pk m = k) (fetched s)))" for k
    unfolding offs_def using strict_sorted_iff by blast
  then have "distinct (filter (\<lambda>m. m_pk m = k) (fetched s))" for k
    unfolding distinct_map by blast
  then show "distinct (fetched s)" by (rule distinct_by_parts)
  show "m = m'" if "m \<in> set (fetched s)" "m' \<in> set (fetched s)" "m_pk m = m_pk m'" "m_off m = m_off m'"
  proof -
    have "inj_on m_off (set (filter (\<lambda>x. m_pk x = m_pk m') (fetched s)))"
      using d [of "m_pk m'"] unfolding distinct_map by blast
    from inj_onD [OF this that(4)] that(1-3) show ?thesis by simp
  qed
qed

lemma busy_not_finished:
  assumes "\<forall>w. flow cfg s w" "\<forall>w. serial cfg s w" "commits s C" "busy s w = Some m"
  shows "m_off m \<in> set (offs (m_pk m) (fetched s))" "m_off m \<notin> set (offs (m_pk m) (finished s))"
proof -
  have w: "wk cfg m = w" "m \<in> set (started s)" using serialD assms(2,4) by blast+
  then have f: "m \<in> set (fetched s)" using started_fetched [OF assms(1)] by blast
  then show "m_off m \<in> set (offs (m_pk m) (fetched s))" by (auto simp: in_offs)
  from assms(2,4) obtain pre where pre: "filter (on cfg w) (started s) = pre @ [m]"
    "set (filter (on cfg w) (finished s)) \<subseteq> set pre" unfolding serial_def by (metis olist.simps(2))
  have "distinct (filter (on cfg w) (fetched s))" using fetched_ids(1) [OF assms(3)] by simp
  with assms(1) have "distinct (filter (on cfg w) (started s))" by (metis distinct_append flow_def)
  with pre(1) have "m \<notin> set pre" by simp
  with pre(2) w(1) have "m \<notin> set (finished s)" by auto
  moreover have "m' = m" if "m' \<in> set (finished s)" "m_pk m' = m_pk m" "m_off m' = m_off m" for m'
    using that fetched_ids(2) [OF assms(3)] f finished_started [OF assms(2)] started_fetched [OF assms(1)] by blast
  ultimately show "m_off m \<notin> set (offs (m_pk m) (finished s))" by (auto simp: in_offs)
qed

section \<open>Every step keeps the invariant\<close>

lemma flow_step:
  assumes "consumer_step cfg s s'" "\<forall>w. flow cfg s w"
  shows "flow cfg s' w"
  using assms
proof (cases rule: consumer_step.cases)
  case (take w' m rest)
  have "wk cfg m = w'" using flowD assms(2) take by (metis list.set_intros(1))
  then show ?thesis using take assms(2) [rule_format, of w] by (auto simp: flow_def)
next
  case (enqueue m)
  then show ?thesis using assms(2) [rule_format, of w] by (auto simp: flow_def)
qed (auto simp: flow_def)

lemma serial_step:
  assumes "consumer_step cfg s s'" "\<forall>w. flow cfg s w" "\<forall>w. serial cfg s w"
  shows "serial cfg s' w"
  using assms
proof (cases rule: consumer_step.cases)
  case (take w' m rest)
  have "wk cfg m = w'" using flowD assms(2) take by (metis list.set_intros(1))
  then show ?thesis using take assms(3) [rule_format, of w] finished_started [OF assms(3)]
    by (auto simp: serial_def)
next
  case (finish w' m)
  have "wk cfg m = w'" using serialD assms(3) finish by blast
  moreover have "m \<in> set (started s)" using serialD assms(3) finish by blast
  ultimately show ?thesis using finish assms(3) [rule_format, of w] finished_started [OF assms(3)]
    by (auto simp: serial_def)
next
  case (interrupt w' m)
  then show ?thesis using assms(3) [rule_format, of w] finished_started [OF assms(3)]
    by (auto simp: serial_def intro: exI [of _ "_ @ [m]"])
qed (auto simp: serial_def)

lemma queue_bound_step:
  assumes "consumer_step cfg s s'" "\<forall>w. int (length (queues s w)) \<le> queue_size cfg"
  shows "int (length (queues s' w)) \<le> queue_size cfg"
  using assms
proof (cases rule: consumer_step.cases)
  case (take w' m rest)
  then show ?thesis using assms(2) [rule_format, of w] by auto
qed auto

lemma frontier_step_mono:
  assumes "commits s C" "off \<in> set (offs k (fetched s))"
  shows "frontier (offs k (fetched s)) (set (offs k (finished s)))
    \<le> frontier (offs k (fetched s)) (insert off (set (offs k (finished s))))"
  using assms(1) tr.repr_bounds unfolding commits_def by (intro frontier_mono) blast+

lemma commits_mono:
  assumes "commits s C"
    and "tracker_repr (trk_st s') (\<lambda>k. offs k (fetched s')) (\<lambda>k. set (offs k (finished s'))) C'"
    and "set (to_commit s') \<subseteq> set (to_commit s)" "\<And>k. brk s' k \<le> fr s k" "\<And>k. fr s k \<le> fr s' k"
  shows "commits s' C'"
  unfolding commits_def
proof (intro conjI allI impI)
  fix k off assume "(k, off) \<in> set (to_commit s')"
  then have "0 \<le> off" "off \<le> fr s k" using assms(1,3) unfolding commits_def by blast+
  then show "0 \<le> off" "off \<le> fr s' k" using assms(5) order_trans by blast+
next
  fix k show "brk s' k \<le> fr s' k"
    using assms(4) [of k] assms(5) [of k] by (rule order_trans)
qed (rule assms(2))

lemma commits_step:
  assumes "consumer_step cfg s s'" "\<forall>w. flow cfg s w" "\<forall>w. serial cfg s w" "commits s C"
  shows "\<exists>C'. commits s' C'"
proof -
  have brk: "brk s k \<le> fr s k" for k using assms(4) unfolding commits_def by blast
  have rep: "tracker_repr (trk_st s) (\<lambda>k. offs k (fetched s)) (\<lambda>k. set (offs k (finished s))) C"
    using assms(4) unfolding commits_def by blast
  show ?thesis
  using assms(1)
proof (cases rule: consumer_step.cases)
  case (fetch m)
  let ?k = "m_pk m"
  have new: "m_off m \<notin> set (offs ?k (finished s))"
  proof
    assume "m_off m \<in> set (offs ?k (finished s))"
    then have "m_off m \<in> set (offs ?k (fetched s))"
      using finished_started [OF assms(3)] started_fetched [OF assms(2)] by (fastforce simp: in_offs)
    with fetch show False by blast
  qed
  have T: "(\<lambda>k. offs k (fetched s @ [m])) = (\<lambda>k. offs k (fetched s))(?k := offs ?k (fetched s) @ [m_off m])"
    by (rule ext) simp
  have "tracker_repr (track ?k (m_off m) (trk_st s)) (\<lambda>k. offs k (fetched s @ [m]))
      (\<lambda>k. set (offs k (finished s))) C"
    unfolding T using assms(4) fetch by (intro tr.repr_trk) (auto simp: commits_def)
  moreover have "frontier (offs k (fetched s @ [m])) (set (offs k (finished s)))
      = frontier (offs k (fetched s)) (set (offs k (finished s)))" for k
    using new by (cases "m_pk m = k") (auto simp: frontier_snoc)
  ultimately have "commits s' C" using fetch
    by (intro commits_mono [OF assms(4)]) (use brk in \<open>simp_all add: fr_def del: offs_append\<close>)
  then show ?thesis by blast
next
  case (finish w m)
  let ?k = "m_pk m"
  note b = busy_not_finished [OF assms(2-4) finish(3)]
  have D: "(\<lambda>k. set (offs k (finished s @ [m])))
      = (\<lambda>k. set (offs k (finished s)))(?k := insert (m_off m) (set (offs ?k (finished s))))"
    by (rule ext) simp
  have "tracker_repr (mark_done ?k (m_off m) (trk_st s)) (\<lambda>k. offs k (fetched s))
      (\<lambda>k. set (offs k (finished s @ [m]))) C"
    unfolding D using assms(4) b by (intro tr.repr_don) (auto simp: commits_def)
  moreover have "fr s k \<le> frontier (offs k (fetched s)) (set (offs k (finished s @ [m])))" for k
    using frontier_step_mono [OF assms(4), of "m_off m" k] b by (auto simp: fr_def)
  ultimately have "commits s' C" using finish
    by (intro commits_mono [OF assms(4)]) (use brk in \<open>simp_all add: fr_def del: offs_append\<close>)
  then show ?thesis by blast
next
  case tick
  let ?C = "\<lambda>k. max (C k) (frontier (offs k (fetched s)) (set (offs k (finished s))))"
  have r: "tracker_repr (trk_st s) (\<lambda>k. offs k (fetched s)) (\<lambda>k. set (offs k (finished s))) C"
    using assms(4) by (simp add: commits_def)
  have "0 \<le> off \<and> off \<le> fr s k" if "(k, off) \<in> set (fst (committable (trk_st s)))" for k off
    using tr.cmt_iff [OF r] tr.cmt_tracked [OF r that] tr.repr_bounds [OF r, of k] that by (auto simp: fr_def)
  then have "commits s' ?C"
    using tr.repr_cmt [OF r] assms(4) tick by (auto simp: commits_def fr_def)
  then show ?thesis by blast
next
  case (commit_ok k off ps)
  have "off \<le> fr s k" using assms(4) commit_ok unfolding commits_def by (metis list.set_intros(1))
  then have "commits s' C" using commit_ok brk assms(4)
    by (intro commits_mono [OF assms(4)]) (auto simp: fr_def commits_def)
  then show ?thesis by blast
next
  case (commit_fails k off ps)
  have "0 \<le> off" using assms(4) commit_fails unfolding commits_def by (metis list.set_intros(1))
  then have "commits s' (C(k := min (C k) (off - 1)))" using commit_fails brk tr.repr_rew [OF rep]
    by (intro commits_mono [OF assms(4)]) (auto simp: fr_def)
  then show ?thesis by blast
next
  case (commit_reply_lost k off ps)
  have "0 \<le> off" "off \<le> fr s k"
    using assms(4) commit_reply_lost unfolding commits_def by (metis list.set_intros(1))+
  then have "commits s' (C(k := min (C k) (off - 1)))" using commit_reply_lost brk tr.repr_rew [OF rep]
    by (intro commits_mono [OF assms(4)]) (auto simp: fr_def)
  then show ?thesis by blast
qed (use assms(4) in \<open>auto simp: commits_def fr_def\<close>)
qed

lemma cinv_init: "0 \<le> queue_size cfg \<Longrightarrow> cinv cfg init_cstate"
  using tr.repr_new
  by (auto simp: cinv_def init_cstate_def flow_def serial_def commits_def fr_def frontier_def)

lemma cinv_step: "consumer_step cfg s s' \<Longrightarrow> cinv cfg s \<Longrightarrow> cinv cfg s'"
  unfolding cinv_def by (blast intro: flow_step serial_step queue_bound_step commits_step)

lemma consumer_reach_cinv: "consumer_reach cfg s \<Longrightarrow> 0 \<le> queue_size cfg \<Longrightarrow> cinv cfg s"
  by (induction rule: consumer_reach.induct) (auto intro: cinv_init cinv_step)


lemma cinvE:
  assumes "cinv cfg s"
  obtains C where "commits s C" "\<forall>w. flow cfg s w" "\<forall>w. serial cfg s w"
  using assms unfolding cinv_def by blast

lemma cinv_part:
  assumes "cinv cfg s"
  shows "ready (part_of (trk_st s) k) = fr s k" "committed (part_of (trk_st s) k) \<le> fr s k"
    "brk s k \<le> fr s k" "sorted_wrt (<) (offs k (fetched s))" "\<forall>x\<in>set (offs k (fetched s)). 0 \<le> x"
proof -
  from assms obtain C where C: "commits s C" by (rule cinvE)
  then have "key_repr (offs k (fetched s)) (set (offs k (finished s))) (C k) (part_of (trk_st s) k)"
    unfolding commits_def using tracker_reprD(2) by blast
  then show "ready (part_of (trk_st s) k) = fr s k" "committed (part_of (trk_st s) k) \<le> fr s k"
    "sorted_wrt (<) (offs k (fetched s))" "\<forall>x\<in>set (offs k (fetched s)). 0 \<le> x"
    by (auto simp: key_repr_def part_abs_def fr_def)
  show "brk s k \<le> fr s k" using C unfolding commits_def by blast
qed

text \<open>A position that was handed out is at the broker, on its way there, or was rewound.\<close>

definition handed :: "cstate \<Rightarrow> part_key \<Rightarrow> bool" where
  "handed s k \<longleftrightarrow> (let p = part_of (trk_st s) k in
     (\<forall>off. (k, off) \<in> set (to_commit s) \<longrightarrow> committed p \<le> off) \<and>
     (committed p = ready p \<longrightarrow> ready p \<le> brk s k \<or> (k, ready p) \<in> set (to_commit s)))"

lemma handed_rewind:
  assumes "to_commit s = (k', off) # ps" "handed s k" "committed (part_of (trk_st s) k) \<le> ready (part_of (trk_st s) k)"
    "off \<le> ready (part_of (trk_st s) k')" "distinct (map fst (to_commit s))"
    "to_commit s' = ps" "trk_st s' = rewind (k', off) (trk_st s)"
    "brk s' = brk s \<or> brk s' = (brk s)(k' := off)"
  shows "handed s' k"
proof (cases "k' = k")
  case True
  have "(k, x) \<notin> set ps" for x using assms(1,5) True by (auto simp: image_iff)
  moreover have "committed (part_of (trk_st s') k) < ready (part_of (trk_st s') k)"
  proof -
    have "committed (part_of (trk_st s) k) \<le> off"
      using assms(1,2) True unfolding handed_def Let_def by simp
    then show ?thesis using assms(3,4,7) True by (auto simp: part_of_rewind)
  qed
  ultimately show ?thesis using assms(6) by (simp add: handed_def Let_def)
next
  case False
  then have "brk s' k = brk s k" using assms(8) by auto
  then show ?thesis using assms(1,2,6,7) False by (auto simp: handed_def Let_def part_of_rewind)
qed

lemma to_commit_distinct_step:
  assumes "consumer_step cfg s s'" "cinv cfg s" "distinct (map fst (to_commit s))"
  shows "distinct (map fst (to_commit s'))"
proof -
  have "tracker_wf (trk_st s)"
    using assms(2) unfolding cinv_def commits_def by (meson tracker_reprD(1))
  with assms(1,3) show ?thesis by (auto simp: committable_keys_distinct elim!: consumer_step.cases)
qed

lemma handed_step:
  assumes "consumer_step cfg s s'" "cinv cfg s" "cinv cfg s'" "distinct (map fst (to_commit s))" "handed s k"
  shows "handed s' k"
proof -
  note p = cinv_part [OF assms(2)] and p' = cinv_part [OF assms(3)]
  have le: "committed (part_of (trk_st s) k) \<le> ready (part_of (trk_st s) k)" using p by simp
  obtain C where C: "commits s C" "\<forall>w. flow cfg s w" "\<forall>w. serial cfg s w" using assms(2) by (rule cinvE)
  have offr: "(k', off) \<in> set (to_commit s) \<Longrightarrow> off \<le> ready (part_of (trk_st s) k')" for k' off
    using C(1) p(1) unfolding commits_def by metis
  show ?thesis using assms(1)
  proof (cases rule: consumer_step.cases)
    case (fetch m)
    then show ?thesis using assms(5) by (auto simp: handed_def Let_def part_of_track)
  next
    case (finish w m)
    have "distinct (pending (part_of (trk_st s) k))" for k
      using C(1) tracker_reprD(2) unfolding commits_def key_repr_def part_abs_def by (metis distinct_dropWhile)
    then have same: "committed (part_of (trk_st s') k) = committed (part_of (trk_st s) k)"
      using finish by (simp add: part_of_mark_done drain_committed)
    have "fr s k \<le> fr s' k"
      using frontier_step_mono [OF C(1), of "m_off m" k] busy_not_finished [OF C(2,3,1) finish(3)] finish
      by (auto simp: fr_def)
    then have "ready (part_of (trk_st s) k) \<le> ready (part_of (trk_st s') k)" by (simp add: p(1) p'(1))
    then show ?thesis using same le assms(5) finish by (auto simp: handed_def Let_def)
  next
    case tick
    have wf: "tracker_wf (trk_st s)"
      using C(1) unfolding commits_def by (blast dest: tracker_reprD(1))
    show ?thesis using assms(5) tick le
      by (auto simp: handed_def Let_def part_of_committable committable_iff [OF wf])
  next
    case (commit_ok k' off ps)
    have "off \<le> ready (part_of (trk_st s) k')" using commit_ok offr by simp
    then show ?thesis using commit_ok assms(5) by (fastforce simp: handed_def Let_def)
  next
    case (commit_fails k' off ps)
    then show ?thesis using offr by (intro handed_rewind [OF commit_fails(2) assms(5) le _ assms(4)]) auto
  next
    case (commit_reply_lost k' off ps)
    then show ?thesis using offr by (intro handed_rewind [OF commit_reply_lost(2) assms(5) le _ assms(4)]) auto
  qed (use assms(5) in \<open>auto simp: handed_def\<close>)
qed

lemma consumer_reach_handed:
  assumes "consumer_reach cfg s" "0 \<le> queue_size cfg"
  shows "cinv cfg s \<and> distinct (map fst (to_commit s)) \<and> (\<forall>k. handed s k)"
  using assms
proof (induction rule: consumer_reach.induct)
  case start
  have "handed init_cstate k" for k by (simp add: handed_def init_cstate_def Let_def new_part_def)
  with start show ?case using cinv_init by (auto simp: init_cstate_def)
next
  case (step s s')
  then show ?case using cinv_step handed_step to_commit_distinct_step by meson
qed


section \<open>What Run guarantees\<close>

text \<open>C1. At-least-once: in every reachable state of the consumer, whatever the interleaving of
  fetches, workers, commits, failed commits and lost commit replies, every fetched message at or
  below the position the broker holds is finished; a crash at any point re-delivers, it never drops.\<close>

theorem broker_position_is_safe:
  assumes "consumer_reach cfg s" "0 \<le> queue_size cfg"
    and "m \<in> set (fetched s)" "m_off m \<le> brk s (m_pk m)"
  shows "m \<in> set (finished s)"
proof -
  have inv: "cinv cfg s" using assms(1,2) by (rule consumer_reach_cinv)
  obtain C where C: "commits s C" "\<forall>w. flow cfg s w" "\<forall>w. serial cfg s w" using inv by (rule cinvE)
  note p = cinv_part [OF inv, of "m_pk m"]
  have off: "m_off m \<in> set (offs (m_pk m) (fetched s))" using assms(3) by (auto simp: in_offs)
  have le: "m_off m \<le> fr s (m_pk m)" using assms(4) p(3) by (rule order_trans)
  have "0 \<le> m_off m" using off p(5) by blast
  with le have "fr s (m_pk m) \<noteq> -1" by linarith
  with le have "m_off m \<in> set (offs (m_pk m) (finished s))"
    unfolding fr_def by (intro frontier_below_done [OF p(4) off])
  then obtain m' where m': "m' \<in> set (finished s)" "m_pk m' = m_pk m" "m_off m' = m_off m"
    unfolding in_offs by blast
  then have "m' \<in> set (fetched s)"
    using finished_started [OF C(3)] started_fetched [OF C(2)] by blast
  then have "m' = m" using fetched_ids(2) [OF C(1)] m' assms(3) by blast
  with m' show ?thesis by simp
qed

text \<open>C2. Per-key order: the messages of one key are started in the order they were fetched, and
  until the context is cancelled they are finished in that order, one at a time.\<close>

theorem key_order:
  assumes "consumer_reach cfg s" "0 \<le> queue_size cfg"
  shows "\<exists>rest. filter (\<lambda>m. m_key m = K) (fetched s) = filter (\<lambda>m. m_key m = K) (started s) @ rest \<and>
    (\<not> cancelled s \<longrightarrow> (\<exists>cur. filter (\<lambda>m. m_key m = K) (started s) =
       filter (\<lambda>m. m_key m = K) (finished s) @ cur \<and> length cur \<le> 1))"
proof -
  define w where "w = nat (route K (workers cfg))"
  let ?K = "\<lambda>m. m_key m = K"
  have sub: "filter ?K xs = filter ?K (filter (on cfg w) xs)" for xs
    unfolding w_def wk_def by (induction xs) auto
  have inv: "cinv cfg s" using assms by (rule consumer_reach_cinv)
  then have fl: "flow cfg s w" and se: "serial cfg s w" unfolding cinv_def by blast+
  have "filter ?K (filter (on cfg w) (fetched s)) = filter ?K (filter (on cfg w) (started s)) @
      filter ?K (queues s w @ filter (on cfg w) (olist (waiting s)))"
    using fl unfolding flow_def by (simp only: filter_append)
  then have "filter ?K (fetched s) = filter ?K (started s) @
      filter ?K (queues s w @ filter (on cfg w) (olist (waiting s)))"
    by (simp only: sub [symmetric])
  moreover have "\<exists>cur. filter ?K (started s) = filter ?K (finished s) @ cur \<and> length cur \<le> 1" if "\<not> cancelled s"
  proof -
    have "filter (on cfg w) (started s) = filter (on cfg w) (finished s) @ olist (busy s w)"
      using se that unfolding serial_def by auto
    then have "filter ?K (filter (on cfg w) (started s)) =
        filter ?K (filter (on cfg w) (finished s)) @ filter ?K (olist (busy s w))"
      by (simp only: filter_append)
    then have "filter ?K (started s) = filter ?K (finished s) @ filter ?K (olist (busy s w))"
      by (simp only: sub [symmetric])
    moreover have "length (filter ?K (olist (busy s w))) \<le> 1" by (cases "busy s w") auto
    ultimately show ?thesis by blast
  qed
  ultimately show ?thesis by blast
qed

definition accept_pass :: "position list \<Rightarrow> (part_key \<Rightarrow> int) \<Rightarrow> part_key \<Rightarrow> int" where
  "accept_pass ps b = foldl (\<lambda>b p. b(fst p := snd p)) b ps"

lemma accept_pass_miss: "\<forall>p\<in>set ps. fst p \<noteq> k \<Longrightarrow> accept_pass ps b k = b k"
  by (induction ps arbitrary: b) (auto simp: accept_pass_def)

lemma accept_pass_hit: "distinct (map fst ps) \<Longrightarrow> (k, off) \<in> set ps \<Longrightarrow> accept_pass ps b k = off"
proof (induction ps arbitrary: b)
  case Nil
  then show ?case by simp
next
  case (Cons p ps)
  have eq: "accept_pass (p # ps) b k = accept_pass ps (b(fst p := snd p)) k"
    by (simp add: accept_pass_def)
  show ?case
  proof (cases "p = (k, off)")
    case True
    then have "\<forall>q\<in>set ps. fst q \<noteq> k" using Cons.prems(1) by force
    with True show ?thesis unfolding eq by (simp add: accept_pass_miss)
  next
    case False
    then show ?thesis using Cons unfolding eq by auto
  qed
qed

text \<open>C8. Commits do not fall behind: if the committer is between passes and everything of a
  partition up to a message is finished, the broker's position covers that message as soon as the
  next pass over \<open>Committable\<close> is accepted, no matter how many earlier commits failed.\<close>

theorem accepted_pass_covers:
  assumes "consumer_reach cfg s" "0 \<le> queue_size cfg" "to_commit s = []" "m \<in> set (fetched s)"
    and "\<And>m'. m' \<in> set (fetched s) \<Longrightarrow> m_pk m' = m_pk m \<Longrightarrow> m_off m' \<le> m_off m \<Longrightarrow> m' \<in> set (finished s)"
  shows "m_off m \<le> accept_pass (fst (committable (trk_st s))) (brk s) (m_pk m)"
proof -
  let ?k = "m_pk m" and ?ps = "fst (committable (trk_st s))"
  have inv: "cinv cfg s" and h: "handed s ?k" using consumer_reach_handed [OF assms(1,2)] by blast+
  obtain C where C: "commits s C" using inv by (rule cinvE)
  then have wf: "tracker_wf (trk_st s)" unfolding commits_def by (blast dest: tracker_reprD(1))
  note p = cinv_part [OF inv, of ?k]
  have le: "m_off m \<le> fr s ?k" unfolding fr_def
  proof (rule frontier_maximal [OF p(4,5)])
    show "m_off m \<in> set (offs ?k (fetched s))" using assms(4) by (auto simp: in_offs)
    show "off \<in> set (offs ?k (finished s))" if "off \<in> set (offs ?k (fetched s))" "off \<le> m_off m" for off
      using that assms(5) unfolding in_offs by blast
  qed
  show ?thesis
  proof (cases "committed (part_of (trk_st s) ?k) < ready (part_of (trk_st s) ?k)")
    case True
    then have "(?k, fr s ?k) \<in> set ?ps" using committable_iff [OF wf] p(1) by simp
    with le show ?thesis by (simp add: accept_pass_hit [OF committable_keys_distinct [OF wf]])
  next
    case False
    then have "(?k, off) \<notin> set ?ps" for off using committable_iff [OF wf] by blast
    then have "\<forall>p\<in>set ?ps. fst p \<noteq> ?k" by (metis surjective_pairing)
    moreover have "fr s ?k \<le> brk s ?k"
      using h False p(1,2) assms(3) unfolding handed_def Let_def by auto
    ultimately show ?thesis using le by (simp add: accept_pass_miss)
  qed
qed


section \<open>A concrete run\<close>

abbreviation one_worker :: config where
  "one_worker \<equiv> demo_cfg\<lparr>workers := 1\<rparr>"

definition run_fetched :: cstate where
  "run_fetched = init_cstate\<lparr>trk_st := track (m_pk demo_msg) (m_off demo_msg) (trk_st init_cstate),
     waiting := Some demo_msg, fetched := fetched init_cstate @ [demo_msg]\<rparr>"

definition run_started :: cstate where
  "run_started = run_fetched\<lparr>queues := (\<lambda>_. [])(0 := []), waiting := None, closed := False,
     busy := (\<lambda>_. None)(0 := Some demo_msg), started := [demo_msg]\<rparr>"

definition run_finished :: cstate where
  "run_finished = run_started\<lparr>busy := (busy run_started)(0 := None),
     trk_st := mark_done (m_pk demo_msg) (m_off demo_msg) (trk_st run_started),
     finished := finished run_started @ [demo_msg]\<rparr>"

definition run_committed :: cstate where
  "run_committed = run_finished\<lparr>trk_st := snd (committable (trk_st run_finished)),
     to_commit := [], brk := (brk run_finished)((''t'', 0) := 7)\<rparr>"

lemma wk_one [simp]: "wk one_worker m = 0"
  by (simp add: wk_def route_def)

lemma reach_fetched: "consumer_reach one_worker run_fetched"
  unfolding run_fetched_def
  by (rule consumer_reach.step [OF consumer_reach.start consumer_step.fetch])
    (simp_all add: init_cstate_def)

lemma reach_started: "consumer_reach one_worker run_started"
proof -
  have "consumer_reach one_worker (run_fetched\<lparr>queues := (queues run_fetched)
      (wk one_worker demo_msg := queues run_fetched (wk one_worker demo_msg) @ [demo_msg]),
      waiting := None, closed := cancelled run_fetched\<rparr>)" (is "consumer_reach _ ?s")
    by (rule consumer_reach.step [OF reach_fetched consumer_step.enqueue])
      (simp_all add: run_fetched_def init_cstate_def with_defaults_def zero_config_def Let_def)
  then have "consumer_reach one_worker (?s\<lparr>busy := (busy ?s)(0 := Some demo_msg),
      queues := (queues ?s)(0 := []), started := started ?s @ [demo_msg]\<rparr>)"
    by (rule consumer_reach.step [OF _ consumer_step.take])
      (simp_all add: run_fetched_def init_cstate_def)
  then show ?thesis by (simp add: run_started_def run_fetched_def init_cstate_def)
qed

lemma reach_finished: "consumer_reach one_worker run_finished"
  unfolding run_finished_def
  by (rule consumer_reach.step [OF reach_started consumer_step.finish])
    (simp_all add: run_started_def)

lemma run_finished_tracker:
  "fst (committable (trk_st run_finished)) = [((''t'', 0), 7)]"
  by (simp add: run_finished_def run_started_def run_fetched_def init_cstate_def committable_def
      track_def mark_done_def part_of_def new_tracker_def new_part_def drain.simps Let_def)

lemma reach_committed: "consumer_reach one_worker run_committed"
proof -
  let ?s = "run_finished\<lparr>to_commit := fst (committable (trk_st run_finished)),
      trk_st := snd (committable (trk_st run_finished))\<rparr>"
  have "consumer_reach one_worker ?s"
    by (rule consumer_reach.step [OF reach_finished consumer_step.tick])
      (simp add: run_finished_def run_started_def run_fetched_def init_cstate_def)
  then have "consumer_reach one_worker (?s\<lparr>to_commit := [], brk := (brk ?s)((''t'', 0) := 7)\<rparr>)"
    by (rule consumer_reach.step [OF _ consumer_step.commit_ok]) (simp add: run_finished_tracker)
  then show ?thesis by (simp add: run_committed_def)
qed

lemma one_worker_queue: "0 \<le> queue_size one_worker"
  by (simp add: with_defaults_def zero_config_def Let_def)

theorem broker_position_is_safe_witness: "demo_msg \<in> set (finished run_committed)"
  by (rule broker_position_is_safe [OF reach_committed one_worker_queue])
    (simp_all add: run_committed_def run_finished_def run_started_def run_fetched_def)

theorem key_order_witness:
  "\<exists>rest. filter (\<lambda>m. m_key m = ''k'') (fetched run_started) = filter (\<lambda>m. m_key m = ''k'') (started run_started) @ rest \<and>
    (\<not> cancelled run_started \<longrightarrow> (\<exists>cur. filter (\<lambda>m. m_key m = ''k'') (started run_started) =
       filter (\<lambda>m. m_key m = ''k'') (finished run_started) @ cur \<and> length cur \<le> 1))"
  by (rule key_order [OF reach_started one_worker_queue])

theorem accepted_pass_covers_witness:
  "m_off demo_msg \<le> accept_pass (fst (committable (trk_st run_finished))) (brk run_finished) (m_pk demo_msg)"
  by (rule accepted_pass_covers [OF reach_finished one_worker_queue])
    (simp_all add: run_finished_def run_started_def run_fetched_def init_cstate_def)

end
