(* ===== verification/Strconv.thy ===== *)
theory Strconv
  imports Prelude
begin

text \<open>
  Decimal text of 64-bit integers: Go's \<open>strconv.FormatInt\<close> and \<open>strconv.ParseInt(s, 10, 64)\<close>,
  which the counters (Redis stores a number as text), the outbox ids and the message ids use.
\<close>

definition int64_ok :: "int \<Rightarrow> bool" where
  "int64_ok n \<longleftrightarrow> - (2 ^ 63) \<le> n \<and> n < 2 ^ 63"

fun digits :: "nat \<Rightarrow> string" where
  "digits n = (if n < 10 then [char_of (48 + n)] else digits (n div 10) @ [char_of (48 + n mod 10)])"

declare digits.simps [simp del]

definition format_int :: "int \<Rightarrow> string" where
  "format_int n = (if n < 0 then CHR ''-'' # digits (nat (- n)) else digits (nat n))"

definition is_digit :: "char \<Rightarrow> bool" where
  "is_digit c \<longleftrightarrow> (48::nat) \<le> of_char c \<and> of_char c \<le> (57::nat)"

definition digits_val :: "string \<Rightarrow> nat" where
  "digits_val s = foldl (\<lambda>v c. v * 10 + (of_char c - 48)) 0 s"

definition parse_nat :: "string \<Rightarrow> nat option" where
  "parse_nat s = (if s \<noteq> [] \<and> (\<forall>c\<in>set s. is_digit c) then Some (digits_val s) else None)"

definition parse_int :: "string \<Rightarrow> int option" where
  "parse_int s =
     (case (case s of
          [] \<Rightarrow> None
        | c # cs \<Rightarrow>
            if c = CHR ''-'' then map_option (\<lambda>v. - int v) (parse_nat cs)
            else if c = CHR ''+'' then map_option int (parse_nat cs)
            else map_option int (parse_nat s)) of
        None \<Rightarrow> None
      | Some n \<Rightarrow> if int64_ok n then Some n else None)"

lemma digits_nonempty [simp]: "digits n \<noteq> []"
  by (subst digits.simps) simp

lemma digit_char: "d < 10 \<Longrightarrow> of_char (char_of (48 + d) :: char) = (48 + d :: nat)"
  by simp

lemma digits_are_digits: "c \<in> set (digits n) \<Longrightarrow> is_digit c"
proof (induction n rule: digits.induct)
  case (1 n)
  have "is_digit (char_of (48 + d))" if "d < 10" for d :: nat
    using that by (simp add: is_digit_def)
  then show ?case
    using 1 by (subst (asm) (2) digits.simps) (auto split: if_splits simp del: of_char_of char_of_nat)
qed

lemma digits_val_snoc: "digits_val (s @ [c]) = digits_val s * 10 + (of_char c - 48)"
  by (simp add: digits_val_def)

lemma digits_val_digits: "digits_val (digits n) = n"
proof (induction n rule: digits.induct)
  case (1 n)
  show ?case
  proof (cases "n < 10")
    case True
    then show ?thesis by (subst digits.simps) (simp add: digits_val_def)
  next
    case False
    then have "digits_val (digits n) = digits_val (digits (n div 10)) * 10 + n mod 10"
      by (subst digits.simps) (simp add: digits_val_snoc)
    with 1 [OF False] show ?thesis by simp
  qed
qed

lemma parse_nat_digits: "parse_nat (digits n) = Some n"
  using digits_are_digits by (auto simp: parse_nat_def digits_val_digits)

lemma digits_no_sign: "digits n = c # cs \<Longrightarrow> c \<noteq> CHR ''-'' \<and> c \<noteq> CHR ''+''"
  using digits_are_digits [of c n] by (auto simp: is_digit_def)

lemma parse_format_int: "int64_ok n \<Longrightarrow> parse_int (format_int n) = Some n"
proof (cases "n < 0")
  case True
  then show "int64_ok n \<Longrightarrow> ?thesis"
    by (simp add: parse_int_def format_int_def parse_nat_digits)
next
  case False
  obtain c cs where d: "digits (nat n) = c # cs" by (cases "digits (nat n)") auto
  then show "int64_ok n \<Longrightarrow> ?thesis"
    using False digits_no_sign [OF d] parse_nat_digits [of "nat n"]
    by (simp add: parse_int_def format_int_def)
qed

lemma format_int_nonempty [simp]: "format_int n \<noteq> []"
  by (simp add: format_int_def)

lemma format_int_inj: "format_int m = format_int n \<longleftrightarrow> m = n"
proof
  assume eq: "format_int m = format_int n"
  have sg: "(k < 0) = (\<exists>cs. format_int k = CHR ''-'' # cs)" for k
    using digits_no_sign [of "nat k"] by (auto simp: format_int_def)
  show "m = n"
  proof (cases "m < 0")
    case True
    then have "n < 0" using sg eq by metis
    with True eq have "digits (nat (- m)) = digits (nat (- n))" by (simp add: format_int_def)
    then have "nat (- m) = nat (- n)" by (metis digits_val_digits)
    with True \<open>n < 0\<close> show ?thesis by simp
  next
    case False
    then have "\<not> n < 0" using sg eq by metis
    with False eq have "digits (nat m) = digits (nat n)" by (simp add: format_int_def)
    then have "nat m = nat n" by (metis digits_val_digits)
    with False \<open>\<not> n < 0\<close> show ?thesis by simp
  qed
qed simp

lemma format_int_zero: "format_int n = ''0'' \<longleftrightarrow> n = 0"
proof -
  have "format_int 0 = ''0''" by code_simp
  then show ?thesis using format_int_inj by metis
qed

end
