(* ===== verification/World.thy ===== *)
theory World
  imports Strconv "HOL-Library.Word"
begin

text \<open>
  The world the services share: the PostgreSQL tables of \<open>migrations/0001_init.sql\<close>, the Redis
  keys, the objects in the bucket, the events Kafka accepted and the search index, with the calls
  that reach them.

  A call over the network ends in one of three ways, and the world carries, for each system, an
  arbitrary stream of such outcomes: \<open>Done\<close> (executed, answered), \<open>Refused\<close> (not executed, error) and
  \<open>Lost\<close> (executed, but the reply was lost, so the caller sees an error).  Each call also takes
  an arbitrary time.  A theorem about every world is therefore a theorem about every pattern of
  failures and delays.
\<close>

datatype outcome = Done | Refused | Lost

text \<open>The systems the services call, each with failures of its own.\<close>

datatype sys = PG | Redis | Kafka | GCS | Search | OpenAI

section \<open>Errors\<close>

text \<open>\<open>ErrIO\<close> is any error of a driver (connection, timeout, cancelled context); the others are
  the sentinel errors and SQLSTATE classes the code tells apart; \<open>ErrPanic\<close> is a run-time panic.\<close>

datatype err =
    ErrIO | UniqueViolation | ForeignKeyViolation | CheckViolation
  | ErrBadCursor | ErrNotRecorded | ErrLost | ErrPublishFailed
  | ErrPostNotFound | ErrAlreadyLiked | ErrNotLiked | ErrCommentNotFound | ErrInvalidComment | ErrNotPostOwner
  | ErrCannotFollowSelf | ErrAlreadyFollowing | ErrNotFollowing | ErrUserNotFound
  | ErrCannotMessageSelf | ErrInvalidContent | ErrKeyReused | ErrConversationNotFound
  | ErrUserAlreadyExisted | ErrInvalidCredentials | ErrInProgress | ErrNoRows | ErrPanic

section \<open>Tables\<close>

text \<open>Times are microseconds since the epoch, as \<open>timestamptz\<close>; \<open>posts.created_at\<close> holds whole
  seconds.\<close>

record user_row =
  u_id :: string
  u_name :: string
  u_hash :: string
  u_age :: int
  u_gender :: string

record follow_row =
  f_from :: string
  f_to :: string
  f_at :: int

datatype cleanup = CNone | CPending | CCompleted | CFailed

record post_row =
  p_id :: string
  p_user :: string
  p_message :: string
  p_url :: string
  p_type :: string
  p_at :: int
  p_deleted_at :: "int option"
  p_cleanup :: cleanup
  p_attempts :: int
  p_likes :: int
  p_shares :: int
  p_embedding :: "32 word list option"
  p_version :: int

record like_row =
  l_post :: string
  l_user :: string
  l_at :: int

record share_row =
  s_id :: string
  s_post :: string
  s_user :: string
  s_platform :: string
  s_at :: int

record comment_row =
  c_id :: string
  c_post :: string
  c_parent :: "string option"
  c_root :: string
  c_depth :: int
  c_user :: string
  c_content :: string
  c_at :: int
  c_deleted_at :: "int option"

text \<open>The events of \<open>shared/model/event.go\<close>.\<close>

datatype event =
    PostCreated (ev_post: string) string string string string int
  | PostDeleted (ev_post: string) string int
  | PostLiked (ev_post: string) string string int

datatype ostatus = OPending | OPublished | ODead

record outbox_row =
  o_id :: int
  o_agg_type :: string
  o_agg :: string
  o_topic :: string
  o_key :: string
  o_payload :: event
  o_at :: int
  o_status :: ostatus
  o_attempts :: int
  o_next :: int
  o_published_at :: "int option"

record notif_row =
  n_id :: string
  n_user :: string
  n_type :: string
  n_actor :: string
  n_post :: string
  n_read :: bool
  n_at :: int

record conv_row =
  v_id :: string
  v_last_seq :: int
  v_last_at :: "int option"

record member_row =
  b_conv :: string
  b_user :: string
  b_read :: int
  b_last_at :: "int option"

record message_row =
  g_conv :: string
  g_seq :: int
  g_sender :: string
  g_content :: string
  g_at :: int
  g_client :: "string option"

record database =
  t_users :: "user_row list"
  t_follows :: "follow_row list"
  t_posts :: "post_row list"
  t_likes :: "like_row list"
  t_shares :: "share_row list"
  t_comments :: "comment_row list"
  t_outbox :: "outbox_row list"
  t_notifications :: "notif_row list"
  t_convs :: "conv_row list"
  t_members :: "member_row list"
  t_messages :: "message_row list"

text \<open>Redis: strings with an optional expiry time, sets, and sorted sets.  \<open>r_pick\<close> is the
  order in which the next \<open>SPOP\<close> draws members, which Redis leaves open; \<open>r_cuts\<close> says
  how many commands of the next pipelines execute when their connection breaks.\<close>

record redis =
  r_str :: "string \<Rightarrow> (string \<times> int option) option"
  r_set :: "string \<Rightarrow> string list"
  r_zset :: "string \<Rightarrow> (string \<times> int) list"
  r_zexp :: "string \<Rightarrow> int option"
  r_pick :: "string list"
  r_cuts :: "nat stream"

record search_doc =
  d_id :: string
  d_user :: string
  d_message :: string
  d_type :: string
  d_at :: int
  d_embedding :: "32 word list option"
  d_deleted :: bool

text \<open>The world.  \<open>outs\<close>: outcome and duration of the calls to come; \<open>uuids\<close>: what
  \<open>uuid.New\<close> will return; \<open>oseq\<close>: the identity sequence of the outbox, which a rollback does
  not reset; \<open>bus\<close>: topic, key and payload of the events Kafka accepted.\<close>

record world =
  outs :: "sys \<Rightarrow> (outcome \<times> nat) stream"
  clock :: int
  uuids :: "string stream"
  oseq :: int
  db :: database
  red :: redis
  bucket :: "string \<Rightarrow> string option"
  bus :: "(string \<times> string \<times> event) list"
  index :: "string \<Rightarrow> (search_doc \<times> int) option"

type_synonym 'a io = "(world, err, 'a) fio"

section \<open>Calls\<close>

definition next_out :: "sys \<Rightarrow> world \<Rightarrow> outcome" where
  "next_out y w = fst (shd (outs w y))"

definition after_call :: "sys \<Rightarrow> world \<Rightarrow> world" where
  "after_call y w = w\<lparr>outs := (outs w)(y := stl (outs w y)), clock := clock w + int (snd (shd (outs w y)))\<rparr>"

definition ext_call :: "sys \<Rightarrow> (world \<Rightarrow> (err + 'a) \<times> world) \<Rightarrow> 'a io" where
  "ext_call y f = State (\<lambda>w.
     case next_out y w of
       Done \<Rightarrow> f (after_call y w)
     | Refused \<Rightarrow> (Inl ErrIO, after_call y w)
     | Lost \<Rightarrow> (Inl ErrIO, snd (f (after_call y w))))"

definition now :: "(world, int) state" where
  "now = State (\<lambda>w. (clock w, w))"

text \<open>\<open>Time.Unix\<close>; the clock counts microseconds.\<close>

definition unix :: "int \<Rightarrow> int" where
  "unix t = t div 1000000"

definition new_uuid :: "(world, string) state" where
  "new_uuid = State (\<lambda>w. (shd (uuids w), w\<lparr>uuids := stl (uuids w)\<rparr>))"

text \<open>\<open>db.InTx\<close>: the tables change only if the commit executed.\<close>

definition in_tx :: "'a io \<Rightarrow> 'a io" where
  "in_tx body = tryE (ext_call PG (\<lambda>w. (Inr (), w))) (\<lambda>_. State (\<lambda>w0.
     case run_state body w0 of
       (Inl e, w1) \<Rightarrow> (Inl e, w1\<lparr>db := db w0\<rparr>)
     | (Inr x, w1) \<Rightarrow>
         (case next_out PG w1 of
            Done \<Rightarrow> (Inr x, after_call PG w1)
          | Refused \<Rightarrow> (Inl ErrIO, (after_call PG w1)\<lparr>db := db w0\<rparr>)
          | Lost \<Rightarrow> (Inl ErrIO, after_call PG w1))))"

text \<open>A context is the time at which it is cancelled.\<close>

type_synonym ctx = "int option"

fun expired :: "int \<Rightarrow> int option \<Rightarrow> bool" where
  "expired t None = False"
| "expired t (Some e) = (e \<le> t)"

definition ctx_err :: "ctx \<Rightarrow> (world, bool) state" where
  "ctx_err c = State (\<lambda>w. (expired (clock w) c, w))"

section \<open>Weakest preconditions\<close>

definition wp :: "('w, 'r) state \<Rightarrow> ('r \<Rightarrow> 'w \<Rightarrow> bool) \<Rightarrow> 'w \<Rightarrow> bool" where
  "wp m Q w = (case run_state m w of (r, w') \<Rightarrow> Q r w')"

named_theorems wp_simps "weakest preconditions of the calls"

lemma wp_run: "wp m Q w \<Longrightarrow> run_state m w = (r, w') \<Longrightarrow> Q r w'"
  by (simp add: wp_def)

lemma wp_ret [wp_simps]: "wp (State_Monad.return r) Q w = Q r w"
  by (simp add: wp_def)

lemma wp_tryE [wp_simps]:
  "wp (tryE m f) Q w = wp m (\<lambda>r w'. case r of Inl e \<Rightarrow> Q (Inl e) w' | Inr x \<Rightarrow> wp (f x) Q w') w"
  by (simp add: wp_def run_simps split: prod.splits sum.splits)

lemma wp_handleE [wp_simps]:
  "wp (handleE m h f) Q w = wp m (\<lambda>r w'. case r of Inl e \<Rightarrow> wp (h e) Q w' | Inr x \<Rightarrow> wp (f x) Q w') w"
  by (simp add: wp_def run_simps split: prod.splits sum.splits)

lemma wp_bind [wp_simps]: "wp (Monad_Syntax.bind m f) Q w = wp m (\<lambda>r w'. wp (f r) Q w') w"
  by (simp add: wp_def run_simps split: prod.splits)

lemma wp_now [wp_simps]: "wp now Q w = Q (clock w) w"
  by (simp add: wp_def now_def)

lemma wp_new_uuid [wp_simps]: "wp new_uuid Q w = Q (shd (uuids w)) (w\<lparr>uuids := stl (uuids w)\<rparr>)"
  by (simp add: wp_def new_uuid_def)

lemma wp_ctx_err [wp_simps]: "wp (ctx_err c) Q w = Q (expired (clock w) c) w"
  by (simp add: wp_def ctx_err_def)

lemma wp_mono: "wp m Q w \<Longrightarrow> (\<And>r w'. Q r w' \<Longrightarrow> R r w') \<Longrightarrow> wp m R w"
  by (simp add: wp_def split: prod.splits)

lemma wp_state: "(\<And>r w'. run_state m w = (r, w') \<Longrightarrow> Q r w') \<Longrightarrow> wp m Q w"
  by (simp add: wp_def split: prod.split)

lemma wp_all: "(\<And>r w'. Q r w') \<Longrightarrow> wp m Q w"
  by (simp add: wp_def split: prod.splits)

lemma wp_conj: "wp m Q w \<Longrightarrow> wp m R w \<Longrightarrow> wp m (\<lambda>r w'. Q r w' \<and> R r w') w"
  by (simp add: wp_def split: prod.splits)

lemma wp_bindI: "wp m R w \<Longrightarrow> (\<And>r w'. R r w' \<Longrightarrow> wp (f r) Q w') \<Longrightarrow> wp (Monad_Syntax.bind m f) Q w"
  unfolding wp_bind by (rule wp_mono)

lemma wp_tryI:
  "wp m R w \<Longrightarrow> (\<And>x w'. R (Inr x) w' \<Longrightarrow> wp (f x) Q w') \<Longrightarrow> (\<And>e w'. R (Inl e) w' \<Longrightarrow> Q (Inl e) w') \<Longrightarrow>
   wp (tryE m f) Q w"
  unfolding wp_tryE by (erule wp_mono) (auto split: sum.split)

lemma wp_handleI:
  "wp m R w \<Longrightarrow> (\<And>x w'. R (Inr x) w' \<Longrightarrow> wp (f x) Q w') \<Longrightarrow> (\<And>e w'. R (Inl e) w' \<Longrightarrow> wp (h e) Q w') \<Longrightarrow>
   wp (handleE m h f) Q w"
  unfolding wp_handleE by (erule wp_mono) (auto split: sum.split)

lemma wp_ext_call [wp_simps]:
  "wp (ext_call y f) Q w = (case next_out y w of
       Done \<Rightarrow> Q (fst (f (after_call y w))) (snd (f (after_call y w)))
     | Refused \<Rightarrow> Q (Inl ErrIO) (after_call y w)
     | Lost \<Rightarrow> Q (Inl ErrIO) (snd (f (after_call y w))))"
  by (simp add: wp_def ext_call_def split: outcome.splits prod.splits)

text \<open>Inside a transaction an error rolls everything back, so only the success of a call matters.\<close>

lemma wp_try_call:
  assumes "\<And>e w'. Q (Inl e) w'"
    and "\<And>x. fst (f (after_call y w)) = Inr x \<Longrightarrow> wp (g x) Q (snd (f (after_call y w)))"
  shows "wp (tryE (ext_call y f) g) Q w"
  unfolding wp_tryE wp_ext_call using assms by (auto split: outcome.split sum.split)

lemma wp_in_tx:
  "wp (in_tx body) Q w = (if next_out PG w = Done then
       wp body (\<lambda>r w1. case r of
           Inl e \<Rightarrow> Q (Inl e) (w1\<lparr>db := db w\<rparr>)
         | Inr x \<Rightarrow> (case next_out PG w1 of
              Done \<Rightarrow> Q (Inr x) (after_call PG w1)
            | Refused \<Rightarrow> Q (Inl ErrIO) ((after_call PG w1)\<lparr>db := db w\<rparr>)
            | Lost \<Rightarrow> Q (Inl ErrIO) (after_call PG w1))) (after_call PG w)
     else Q (Inl ErrIO) (after_call PG w))"
proof (cases "next_out PG w")
  case Done
  then show ?thesis
    by (simp add: wp_def in_tx_def tryE_def ext_call_def after_call_def
        split: prod.splits sum.splits outcome.splits)
qed (simp_all add: wp_def in_tx_def tryE_def ext_call_def)

lemma wp_in_txI:
  assumes "wp body (\<lambda>r w1. case r of Inl e \<Rightarrow> Q (Inl e) (w1\<lparr>db := db w\<rparr>)
      | Inr x \<Rightarrow> Q (Inr x) (after_call PG w1) \<and> Q (Inl ErrIO) (after_call PG w1) \<and>
          Q (Inl ErrIO) ((after_call PG w1)\<lparr>db := db w\<rparr>)) (after_call PG w)"
    and "Q (Inl ErrIO) (after_call PG w)"
  shows "wp (in_tx body) Q w"
  unfolding wp_in_tx using assms
  by (auto elim!: wp_mono split: sum.splits outcome.splits)

lemma after_call_simps [simp]:
  "db (after_call y w) = db w" "red (after_call y w) = red w" "bus (after_call y w) = bus w"
  "bucket (after_call y w) = bucket w" "index (after_call y w) = index w" "oseq (after_call y w) = oseq w"
  "uuids (after_call y w) = uuids w" "outs (after_call y w) = (outs w)(y := stl (outs w y))"
  by (simp_all add: after_call_def)

lemma next_out_after_call: "y \<noteq> z \<Longrightarrow> next_out y (after_call z w) = next_out y w"
  by (simp add: next_out_def)

lemma next_out_cong: "outs w' y = outs w y \<Longrightarrow> next_out y w' = next_out y w"
  by (simp add: next_out_def)

lemma clock_after_call: "clock w \<le> clock (after_call y w)"
  by (simp add: after_call_def)

text \<open>Systems whose calls never fail, and systems of which no reply is ever lost (a failed call
  did not execute).\<close>

definition outcomes :: "world \<Rightarrow> sys \<Rightarrow> outcome set" where
  "outcomes w y = fst ` sset (outs w y)"

abbreviation reliable :: "sys \<Rightarrow> world \<Rightarrow> bool" where
  "reliable y w \<equiv> outcomes w y \<subseteq> {Done}"

abbreviation no_lost :: "sys \<Rightarrow> world \<Rightarrow> bool" where
  "no_lost y w \<equiv> Lost \<notin> outcomes w y"

lemma next_out_outcomes: "next_out y w \<in> outcomes w y"
  unfolding outcomes_def next_out_def by (metis image_eqI shd_sset)

lemma reliable_next: "reliable y w \<Longrightarrow> next_out y w = Done"
  using next_out_outcomes [of y w] by auto

lemma no_lost_next: "no_lost y w \<Longrightarrow> next_out y w \<noteq> Lost"
  using next_out_outcomes [of y w] by auto

lemma outcomes_stl: "outs w' y \<in> {outs w y, stl (outs w y)} \<Longrightarrow> outcomes w' y \<subseteq> outcomes w y"
  unfolding outcomes_def using stl_sset by fastforce

lemma outcomes_after_call: "outcomes (after_call z w) y \<subseteq> outcomes w y"
  by (rule outcomes_stl) simp

lemma no_lost_after [simp]: "no_lost y w \<Longrightarrow> no_lost y (after_call z w)"
  using outcomes_after_call by blast

lemma reliable_after [simp]: "reliable y w \<Longrightarrow> reliable y (after_call z w)"
  using outcomes_after_call by blast

lemma outcomes_cong: "outs w' y = outs w y \<Longrightarrow> outcomes w' y = outcomes w y"
  by (simp add: outcomes_def)

text \<open>A transaction, from its caller's view: the result with its effect \<open>P\<close>, or an error; then nothing
  happened, or the commit did and its reply was lost.  \<open>F\<close> is what the body keeps outside the tables.\<close>

lemma wp_in_tx_cases:
  assumes "wp body (\<lambda>r u. F u \<and> outcomes u PG \<subseteq> outcomes w PG \<and> (\<forall>x. r = Inr x \<longrightarrow> P x u)) (after_call PG w)"
    and "\<And>x u. P x u \<Longrightarrow> P x (after_call PG u)" "\<And>u. F u \<Longrightarrow> F (after_call PG u)"
    and "\<And>u. F u \<Longrightarrow> F (u\<lparr>db := db w\<rparr>)" "F (after_call PG w)"
  shows "wp (in_tx body) (\<lambda>r u. F u \<and> (case r of Inr x \<Rightarrow> P x u
    | Inl e \<Rightarrow> db u = db w \<or> (Lost \<in> outcomes w PG \<and> (\<exists>x. P x u)))) w"
proof (cases "next_out PG w = Done")
  case True
  have lost: "Lost \<in> outcomes w PG" if "next_out PG u = Lost" "outcomes u PG \<subseteq> outcomes w PG" for u
    using that next_out_outcomes [of PG u] by auto
  show ?thesis unfolding wp_in_tx if_P [OF True]
  proof (rule wp_mono [OF assms(1)], goal_cases)
    case (1 r u)
    then show ?case using assms(2-4) lost [of u] by (cases r) (auto split: outcome.split, blast)
  qed
next
  case False
  then show ?thesis using assms(5) unfolding wp_in_tx by (simp add: after_call_def)
qed

section \<open>Tables as lists\<close>

definition update_where :: "('r \<Rightarrow> bool) \<Rightarrow> ('r \<Rightarrow> 'r) \<Rightarrow> 'r list \<Rightarrow> 'r list" where
  "update_where P f rows = map (\<lambda>r. if P r then f r else r) rows"

definition count_where :: "('r \<Rightarrow> bool) \<Rightarrow> 'r list \<Rightarrow> nat" where
  "count_where P rows = length (filter P rows)"

lemma set_update_where: "set (update_where P f rows) = (\<lambda>r. if P r then f r else r) ` set rows"
  by (simp add: update_where_def)

lemma update_where_append [simp]:
  "update_where P f (xs @ ys) = update_where P f xs @ update_where P f ys"
  by (simp add: update_where_def)

lemma map_update_where:
  "(\<And>r. P r \<Longrightarrow> g (f r) = g r) \<Longrightarrow> map g (update_where P f rows) = map g rows"
  by (simp add: update_where_def)

lemma filter_update_where:
  "(\<And>r. P (f r) = P r) \<Longrightarrow> filter P (update_where P f rows) = map f (filter P rows)"
  by (induction rows) (auto simp: update_where_def)

lemma length_update_where [simp]: "length (update_where P f rows) = length rows"
  by (simp add: update_where_def)


lemma find_update_where:
  assumes "\<And>r. key (f r) = key r"
  shows "find (\<lambda>r. key r = i) (update_where (\<lambda>r. key r = j) f rows) =
    map_option (\<lambda>r. if key r = j then f r else r) (find (\<lambda>r. key r = i) rows)"
  using assms by (induction rows) (auto simp: update_where_def)

lemma find_in_set: "find P xs = Some x \<Longrightarrow> x \<in> set xs \<and> P x"
  by (induction xs) (auto split: if_splits)

lemma find_key:
  assumes "i \<in> key ` set rows"
  obtains r where "find (\<lambda>r. key r = i) rows = Some r" "r \<in> set rows" "key r = i"
proof -
  obtain r where "find (\<lambda>r. key r = i) rows = Some r"
    using assms by (cases "find (\<lambda>r. key r = i) rows") (auto simp: find_None_iff)
  moreover from find_in_set [OF this] have "r \<in> set rows" "key r = i" by simp_all
  ultimately show ?thesis by (rule that)
qed

definition upd_db :: "(database \<Rightarrow> database) \<Rightarrow> world \<Rightarrow> world" where
  "upd_db f w = w\<lparr>db := f (db w)\<rparr>"

lemma upd_db_simps [simp]:
  "db (upd_db f w) = f (db w)" "red (upd_db f w) = red w" "bus (upd_db f w) = bus w"
  "bucket (upd_db f w) = bucket w" "index (upd_db f w) = index w" "oseq (upd_db f w) = oseq w"
  "uuids (upd_db f w) = uuids w" "outs (upd_db f w) = outs w" "clock (upd_db f w) = clock w"
  "next_out y (upd_db f w) = next_out y w" "outcomes (upd_db f w) y = outcomes w y"
  by (simp_all add: upd_db_def next_out_def outcomes_def)

section \<open>A quiet world\<close>

definition empty_db :: database where
  "empty_db = \<lparr>t_users = [], t_follows = [], t_posts = [], t_likes = [], t_shares = [], t_comments = [],
     t_outbox = [], t_notifications = [], t_convs = [], t_members = [], t_messages = []\<rparr>"

definition empty_redis :: redis where
  "empty_redis = \<lparr>r_str = (\<lambda>_. None), r_set = (\<lambda>_. []), r_zset = (\<lambda>_. []), r_zexp = (\<lambda>_. None), r_pick = [],
     r_cuts = sconst 0\<rparr>"

definition quiet_world :: world where
  "quiet_world = \<lparr>outs = (\<lambda>_. sconst (Done, 0)), clock = 0, uuids = sconst ''id'', oseq = 0, db = empty_db,
     red = empty_redis, bucket = (\<lambda>_. None), bus = [], index = (\<lambda>_. None)\<rparr>"

lemma outcomes_quiet [simp]: "outcomes (quiet_world\<lparr>db := d, red := q\<rparr>) y = {Done}"
  by (simp add: outcomes_def quiet_world_def)

text \<open>Calls that are answered at once.\<close>

lemma instant_call: "outs w y = sconst (Done, 0) \<Longrightarrow> next_out y w = Done \<and> after_call y w = w"
  by (simp add: next_out_def after_call_def fun_upd_idem)

lemma instant_calls:
  assumes "outs w = (\<lambda>_. sconst (Done, 0))"
  shows "next_out y w = Done" "after_call y w = w" "run_state (ext_call y f) w = f w"
  using assms instant_call [of w y] by (simp_all add: ext_call_def)

end
