(* ===== verification/RedisStore.thy ===== *)
theory RedisStore
  imports World
begin

text \<open>
  The string and set commands of \<open>shared/backend/redis.go\<close> that the counters, the idempotency
  keys and the caches use, on the Redis part of the world.  Each is one call: its effect on the
  keys is a total function, the outcome of the call is the world's.
\<close>

section \<open>Effects on the keys\<close>

definition live_str :: "world \<Rightarrow> string \<Rightarrow> string option" where
  "live_str w k = (case r_str (red w) k of
       None \<Rightarrow> None
     | Some p \<Rightarrow> if expired (clock w) (snd p) then None else Some (fst p))"

lemma live_str_cong: "red w' = red w \<Longrightarrow> clock w' = clock w \<Longrightarrow> live_str w' = live_str w"
  by (simp add: live_str_def fun_eq_iff split: option.split)

definition put_str :: "string \<Rightarrow> (string \<times> int option) option \<Rightarrow> world \<Rightarrow> world" where
  "put_str k x w = w\<lparr>red := (red w)\<lparr>r_str := (r_str (red w))(k := x)\<rparr>\<rparr>"

definition put_set :: "string \<Rightarrow> string list \<Rightarrow> world \<Rightarrow> world" where
  "put_set k xs w = w\<lparr>red := (red w)\<lparr>r_set := (r_set (red w))(k := xs)\<rparr>\<rparr>"

text \<open>\<open>INCRBY\<close> keeps an expiry and refuses text that is no number and results beyond 64 bits.\<close>

definition incr_str :: "string \<Rightarrow> int \<Rightarrow> world \<Rightarrow> (err + int) \<times> world" where
  "incr_str k n w =
     (case (case live_str w k of None \<Rightarrow> Some 0 | Some v \<Rightarrow> parse_int v) of
        None \<Rightarrow> (Inl ErrIO, w)
      | Some old \<Rightarrow>
          if int64_ok (old + n)
          then (Inr (old + n), put_str k (Some (format_int (old + n),
                  case live_str w k of None \<Rightarrow> None | Some _ \<Rightarrow> snd (the (r_str (red w) k)))) w)
          else (Inl ErrIO, w))"

definition add_member :: "string \<Rightarrow> string \<Rightarrow> world \<Rightarrow> world" where
  "add_member k m w = put_set k (List.insert m (r_set (red w) k)) w"

text \<open>\<open>SPOP\<close> draws members in an order Redis does not promise.\<close>

definition spop_order :: "string list \<Rightarrow> string list \<Rightarrow> string list" where
  "spop_order pick ms = filter (\<lambda>m. m \<in> set ms) (remdups pick) @ filter (\<lambda>m. m \<notin> set pick) ms"

definition pop_members :: "string \<Rightarrow> int \<Rightarrow> world \<Rightarrow> string list \<times> world" where
  "pop_members k n w =
     (let ms = spop_order (r_pick (red w)) (r_set (red w) k)
      in (take (nat n) ms, put_set k (drop (nat n) ms) w))"

section \<open>The commands\<close>

definition redis_get :: "string \<Rightarrow> string option io" where
  "redis_get k = ext_call Redis (\<lambda>w. (Inr (live_str w k), w))"

definition expiry :: "int \<Rightarrow> int \<Rightarrow> int option" where
  "expiry t ttl = (if ttl > 0 then Some (t + ttl) else None)"

definition redis_set :: "string \<Rightarrow> string \<Rightarrow> int \<Rightarrow> unit io" where
  "redis_set k v ttl = ext_call Redis (\<lambda>w. (Inr (), put_str k (Some (v, expiry (clock w) ttl)) w))"

definition redis_setnx :: "string \<Rightarrow> string \<Rightarrow> int \<Rightarrow> bool io" where
  "redis_setnx k v ttl = ext_call Redis (\<lambda>w.
     if live_str w k = None
     then (Inr True, put_str k (Some (v, expiry (clock w) ttl)) w) else (Inr False, w))"

definition redis_delete :: "string \<Rightarrow> unit io" where
  "redis_delete k = ext_call Redis (\<lambda>w. (Inr (), put_str k None w))"

definition redis_incr_by :: "string \<Rightarrow> int \<Rightarrow> int io" where
  "redis_incr_by k n = ext_call Redis (incr_str k n)"

text \<open>\<open>GetDel\<close> answers the empty string for a missing key.\<close>

definition redis_getdel :: "string \<Rightarrow> string io" where
  "redis_getdel k = ext_call Redis (\<lambda>w.
     (Inr (case live_str w k of None \<Rightarrow> [] | Some v \<Rightarrow> v), put_str k None w))"

definition redis_sadd :: "string \<Rightarrow> string \<Rightarrow> unit io" where
  "redis_sadd k m = ext_call Redis (\<lambda>w. (Inr (), add_member k m w))"

definition redis_srem :: "string \<Rightarrow> string \<Rightarrow> unit io" where
  "redis_srem k m = ext_call Redis (\<lambda>w. (Inr (), put_set k (removeAll m (r_set (red w) k)) w))"

definition redis_smembers :: "string \<Rightarrow> string list io" where
  "redis_smembers k = ext_call Redis (\<lambda>w. (Inr (r_set (red w) k), w))"

definition redis_spop :: "string \<Rightarrow> int \<Rightarrow> string list io" where
  "redis_spop k n = ext_call Redis (\<lambda>w. (case pop_members k n w of (ms, w') \<Rightarrow> (Inr ms, w')))"

section \<open>Frame facts\<close>

lemma put_str_simps [simp]:
  "db (put_str k x w) = db w" "bus (put_str k x w) = bus w" "clock (put_str k x w) = clock w"
  "bucket (put_str k x w) = bucket w" "index (put_str k x w) = index w" "outs (put_str k x w) = outs w"
  "uuids (put_str k x w) = uuids w" "oseq (put_str k x w) = oseq w"
  "r_set (red (put_str k x w)) = r_set (red w)" "r_pick (red (put_str k x w)) = r_pick (red w)"
  "r_str (red (put_str k x w)) = (r_str (red w))(k := x)"
  "r_zset (red (put_str k x w)) = r_zset (red w)"
  by (simp_all add: put_str_def)

lemma put_set_simps [simp]:
  "db (put_set k x w) = db w" "bus (put_set k x w) = bus w" "clock (put_set k x w) = clock w"
  "bucket (put_set k x w) = bucket w" "index (put_set k x w) = index w" "outs (put_set k x w) = outs w"
  "uuids (put_set k x w) = uuids w" "oseq (put_set k x w) = oseq w"
  "r_set (red (put_set k x w)) = (r_set (red w))(k := x)" "r_str (red (put_set k x w)) = r_str (red w)"
  "r_zset (red (put_set k x w)) = r_zset (red w)" "r_pick (red (put_set k x w)) = r_pick (red w)"
  by (simp_all add: put_set_def)

lemma add_member_simps [simp]:
  "db (add_member k x w) = db w" "clock (add_member k x w) = clock w" "outs (add_member k x w) = outs w"
  "r_str (red (add_member k x w)) = r_str (red w)"
  "set (r_set (red (add_member k m w)) k') = (if k' = k then insert m (set (r_set (red w) k)) else set (r_set (red w) k'))"
  by (simp_all add: add_member_def)

lemma outcomes_put [simp]:
  "next_out y (put_str k x w) = next_out y w" "outcomes (put_str k x w) y = outcomes w y"
  "next_out y (put_set k xs w) = next_out y w" "outcomes (put_set k xs w) y = outcomes w y"
  "next_out y (add_member k m w) = next_out y w" "outcomes (add_member k m w) y = outcomes w y"
  by (simp_all add: next_out_def outcomes_def add_member_def)

text \<open>A step that only touches Redis.\<close>

definition redis_only :: "world \<Rightarrow> world \<Rightarrow> bool" where
  "redis_only w w' \<longleftrightarrow> db w' = db w \<and> bus w' = bus w \<and> bucket w' = bucket w \<and> index w' = index w \<and>
     uuids w' = uuids w \<and> oseq w' = oseq w \<and> (\<forall>y. y \<noteq> Redis \<longrightarrow> outs w' y = outs w y) \<and>
     outcomes w' Redis \<subseteq> outcomes w Redis"

lemma redis_only_steps [intro]:
  "redis_only w w"
  "redis_only w w' \<Longrightarrow> redis_only w (put_str k x w')"
  "redis_only w w' \<Longrightarrow> redis_only w (put_set k xs w')"
  "redis_only w w' \<Longrightarrow> redis_only w (add_member k m w')"
  "redis_only w w' \<Longrightarrow> redis_only w (after_call Redis w')"
  using outcomes_after_call [of Redis w' Redis] by (auto simp: redis_only_def add_member_def)

lemma redis_only_outcomes:
  assumes "redis_only w w'"
  shows "outcomes w' y \<subseteq> outcomes w y" "y \<noteq> Redis \<Longrightarrow> next_out y w' = next_out y w"
  using assms by (cases "y = Redis"; auto simp: redis_only_def outcomes_def next_out_def)+

lemma live_str_put [simp]:
  "live_str (put_str k None w) k' = (if k' = k then None else live_str w k')"
  "live_str (put_str k (Some (v, None)) w) k' = (if k' = k then Some v else live_str w k')"
  "live_str (put_set s xs w) k' = live_str w k'" "live_str (add_member s m w) k' = live_str w k'"
  by (simp_all add: live_str_def add_member_def split: option.splits)

lemma set_spop_order: "set (spop_order pick ms) = set ms"
  by (auto simp: spop_order_def)

lemma distinct_spop_order: "distinct ms \<Longrightarrow> distinct (spop_order pick ms)"
  by (auto simp: spop_order_def)

lemmas redis_defs [wp_simps] =
  redis_get_def redis_set_def redis_setnx_def redis_delete_def redis_incr_by_def redis_getdel_def
  redis_sadd_def redis_srem_def redis_smembers_def redis_spop_def

end
