(* ===== verification/Counter.thy ===== *)
theory Counter
  imports RedisStore
begin

text \<open>
  The write-behind counters of \<open>shared/counter/counter.go\<close>: a like is an \<open>INCRBY\<close> on a delta
  key plus an \<open>SADD\<close> to the dirty set; \<open>Flush\<close> takes the dirty entries and applies each delta to
  the database.  The sink is an argument of \<open>flush\<close>, as the field \<open>Sink\<close> of the Go struct; what
  the counter relies on is the locale \<open>counter_sink\<close>, and \<open>PostStore\<close> interprets it with
  \<open>pgCounterSink\<close>.
\<close>

section \<open>Keys\<close>

definition prefix_of :: "string \<Rightarrow> string" where
  "prefix_of pre = (if pre = [] then ''cnt'' else pre)"

definition dirty_key :: "string \<Rightarrow> string" where
  "dirty_key pre = prefix_of pre @ '':dirty''"

definition delta_key :: "string \<Rightarrow> string \<Rightarrow> string \<Rightarrow> string" where
  "delta_key pre id1 field = prefix_of pre @ '':'' @ field @ '':'' @ id1"

definition member_of :: "string \<Rightarrow> string \<Rightarrow> string" where
  "member_of id1 field = field @ ''|'' @ id1"

fun split_at :: "string \<Rightarrow> string \<Rightarrow> (string \<times> string) option" where
  "split_at pre [] = None"
| "split_at pre (c # cs) = (if c = CHR ''|'' then Some (cs, pre) else split_at (pre @ [c]) cs)"

definition split_member :: "string \<Rightarrow> (string \<times> string) option" where
  "split_member m = split_at [] m"

lemma split_at_append: "CHR ''|'' \<notin> set f \<Longrightarrow> split_at pre (f @ CHR ''|'' # i) = Some (i, pre @ f)"
  by (induction f arbitrary: pre) auto

lemma split_member_of: "CHR ''|'' \<notin> set f \<Longrightarrow> split_member (member_of i f) = Some (i, f)"
  by (simp add: split_member_def member_of_def split_at_append)

lemma split_at_Some: "split_at pre m = Some (i, f) \<Longrightarrow> \<exists>g. f = pre @ g \<and> m = g @ CHR ''|'' # i \<and> CHR ''|'' \<notin> set g"
proof (induction m arbitrary: pre)
  case Nil
  then show ?case by simp
next
  case (Cons c cs)
  show ?case
  proof (cases "c = CHR ''|''")
    case True
    with Cons.prems show ?thesis by auto
  next
    case False
    with Cons.prems Cons.IH [of "pre @ [c]"] obtain g where
      "f = (pre @ [c]) @ g" "cs = g @ CHR ''|'' # i" "CHR ''|'' \<notin> set g" by auto
    with False show ?thesis by (intro exI [of _ "c # g"]) auto
  qed
qed

lemma split_member_Some:
  "split_member m = Some (i, f) \<longleftrightarrow> m = member_of i f \<and> CHR ''|'' \<notin> set f"
  using split_at_Some [of "[]" m i f] split_member_of [of f i]
  by (auto simp: split_member_def member_of_def)

lemma split_char: "c \<notin> set f \<Longrightarrow> c \<notin> set g \<Longrightarrow> f @ c # x = g @ c # y \<longleftrightarrow> f = g \<and> x = y"
proof (induction f arbitrary: g)
  case Nil
  then show ?case by (cases g) auto
next
  case (Cons a f)
  then show ?case by (cases g) auto
qed

lemma delta_key_inj:
  assumes "CHR '':'' \<notin> set f" "CHR '':'' \<notin> set g"
  shows "delta_key pre i f = delta_key pre j g \<longleftrightarrow> i = j \<and> f = g"
  using assms by (auto simp: delta_key_def split_char)

section \<open>Incr and Flush\<close>

text \<open>\<open>Incr\<close>: count, then schedule; if scheduling fails, undo the count.\<close>

definition incr :: "string \<Rightarrow> string \<Rightarrow> string \<Rightarrow> int \<Rightarrow> unit io" where
  "incr pre id1 field n =
     handleE (redis_incr_by (delta_key pre id1 field) n) (\<lambda>_. fail ErrNotRecorded) (\<lambda>_.
     handleE (redis_sadd (dirty_key pre) (member_of id1 field))
       (\<lambda>_. handleE (redis_incr_by (delta_key pre id1 field) (- n)) (\<lambda>_. fail ErrIO) (\<lambda>_. fail ErrNotRecorded))
       (\<lambda>_. ret ()))"

type_synonym sink = "string \<Rightarrow> string \<Rightarrow> int \<Rightarrow> unit io"

definition first_err :: "err option \<Rightarrow> err \<Rightarrow> err option" where
  "first_err e x = (case e of None \<Rightarrow> Some x | Some y \<Rightarrow> Some y)"

type_synonym flush_result = "int \<times> err option"

text \<open>The body of the loop of \<open>Flush\<close> for one dirty member; the accumulator is
  \<open>(written, firstErr)\<close>.\<close>

definition flush_entry :: "string \<Rightarrow> sink \<Rightarrow> string \<Rightarrow> flush_result \<Rightarrow> (world, flush_result) state" where
  "flush_entry pre add m acc =
     (case split_member m of
        None \<Rightarrow> State_Monad.return acc
      | Some (id1, field) \<Rightarrow>
          Monad_Syntax.bind (redis_getdel (delta_key pre id1 field)) (\<lambda>r. case r of
            Inl x \<Rightarrow> Monad_Syntax.bind (redis_sadd (dirty_key pre) m)
                       (\<lambda>_. State_Monad.return (fst acc, first_err (snd acc) x))
          | Inr raw \<Rightarrow>
              if raw = [] then State_Monad.return acc
              else (case parse_int raw of
                  None \<Rightarrow> State_Monad.return acc
                | Some delta \<Rightarrow>
                    if delta = 0 then State_Monad.return acc
                    else Monad_Syntax.bind (add id1 field delta) (\<lambda>a. case a of
                        Inl x \<Rightarrow> Monad_Syntax.bind (incr pre id1 field delta) (\<lambda>i.
                          State_Monad.return (fst acc, first_err (case i of
                              Inl _ \<Rightarrow> first_err (snd acc) ErrLost | Inr _ \<Rightarrow> snd acc) x))
                      | Inr _ \<Rightarrow> State_Monad.return (fst acc + 1, snd acc)))))"

fun flush_loop :: "string \<Rightarrow> sink \<Rightarrow> string list \<Rightarrow> flush_result \<Rightarrow> (world, flush_result) state" where
  "flush_loop pre add [] acc = State_Monad.return acc"
| "flush_loop pre add (m # ms) acc =
     Monad_Syntax.bind (flush_entry pre add m acc) (flush_loop pre add ms)"

definition flush :: "string \<Rightarrow> sink \<Rightarrow> int \<Rightarrow> (world, flush_result) state" where
  "flush pre add mx = Monad_Syntax.bind (redis_spop (dirty_key pre) mx) (\<lambda>r. case r of
     Inl x \<Rightarrow> State_Monad.return (0, Some x)
   | Inr ms \<Rightarrow> flush_loop pre add ms (0, None))"

section \<open>The delta that is on its way\<close>

definition delta_text :: "string option \<Rightarrow> int" where
  "delta_text t = (case t of None \<Rightarrow> 0 | Some v \<Rightarrow> (case parse_int v of None \<Rightarrow> 0 | Some n \<Rightarrow> n))"

definition unflushed :: "string \<Rightarrow> world \<Rightarrow> string \<Rightarrow> string \<Rightarrow> int" where
  "unflushed pre w id1 field = delta_text (live_str w (delta_key pre id1 field))"

text \<open>Delta keys hold 64-bit numbers without expiry.\<close>

definition deltas_ok :: "string \<Rightarrow> world \<Rightarrow> bool" where
  "deltas_ok pre w \<longleftrightarrow> (\<forall>id1 field. case r_str (red w) (delta_key pre id1 field) of
      None \<Rightarrow> True | Some p \<Rightarrow> snd p = None \<and> (\<exists>n. int64_ok n \<and> fst p = format_int n))"

lemma deltas_ok_cases:
  assumes "deltas_ok pre w"
  obtains "r_str (red w) (delta_key pre i f) = None" | n where
    "r_str (red w) (delta_key pre i f) = Some (format_int n, None)" "int64_ok n"
proof (cases "r_str (red w) (delta_key pre i f)")
  case None
  then show ?thesis by (rule that(1))
next
  case (Some p)
  then have "snd p = None \<and> (\<exists>n. int64_ok n \<and> fst p = format_int n)"
    using assms [unfolded deltas_ok_def, rule_format, of i f] by simp
  then obtain n where "int64_ok n" "p = (format_int n, None)" by (cases p) auto
  with Some show ?thesis by (intro that(2)) simp_all
qed

lemma deltas_ok_live:
  assumes "deltas_ok pre w"
  shows "live_str w (delta_key pre i f) = map_option fst (r_str (red w) (delta_key pre i f))"
  using assms by (rule deltas_ok_cases [of pre w i f]) (simp_all add: live_str_def)

lemma deltas_ok_live':
  assumes "deltas_ok pre w"
  obtains "live_str w (delta_key pre i f) = None" "unflushed pre w i f = 0"
  | n where "live_str w (delta_key pre i f) = Some (format_int n)" "int64_ok n" "unflushed pre w i f = n"
  using assms by (rule deltas_ok_cases [of pre w i f])
    (auto simp: deltas_ok_live [OF assms] unflushed_def delta_text_def parse_format_int)

lemma unflushed_cong:
  assumes "deltas_ok pre w" "\<And>k. r_str (red w') k = r_str (red w) k"
  shows "unflushed pre w' i f = unflushed pre w i f" "deltas_ok pre w'"
proof -
  show ok: "deltas_ok pre w'" using assms by (simp add: deltas_ok_def)
  show "unflushed pre w' i f = unflushed pre w i f"
    by (simp add: unflushed_def deltas_ok_live [OF assms(1)] deltas_ok_live [OF ok] assms(2))
qed

lemma unflushed_after_call [simp]:
  "deltas_ok pre w \<Longrightarrow> unflushed pre (after_call y w) i f = unflushed pre w i f"
  "deltas_ok pre w \<Longrightarrow> deltas_ok pre (after_call y w)"
  by (rule unflushed_cong; simp)+

text \<open>What \<open>INCRBY\<close> does to a delta key.\<close>

lemma incr_str_delta:
  assumes "deltas_ok pre w"
  shows "incr_str (delta_key pre i f) n w = (if int64_ok (unflushed pre w i f + n)
    then (Inr (unflushed pre w i f + n),
          put_str (delta_key pre i f) (Some (format_int (unflushed pre w i f + n), None)) w)
    else (Inl ErrIO, w))"
  using assms
proof (rule deltas_ok_cases [of pre w i f])
  assume "r_str (red w) (delta_key pre i f) = None"
  then show ?thesis
    by (simp add: incr_str_def live_str_def unflushed_def delta_text_def)
next
  fix m assume "r_str (red w) (delta_key pre i f) = Some (format_int m, None)" "int64_ok m"
  then show ?thesis
    by (simp add: incr_str_def live_str_def unflushed_def delta_text_def parse_format_int)
qed

lemma deltas_ok_put:
  "deltas_ok pre w \<Longrightarrow> int64_ok n \<Longrightarrow> deltas_ok pre (put_str k (Some (format_int n, None)) w)"
  "deltas_ok pre w \<Longrightarrow> deltas_ok pre (put_str k None w)"
  "deltas_ok pre (put_set s xs w) = deltas_ok pre w"
  "deltas_ok pre (add_member s m w) = deltas_ok pre w"
  by (auto simp: deltas_ok_def)

lemma unflushed_put:
  assumes "CHR '':'' \<notin> set f" "CHR '':'' \<notin> set g"
  shows "int64_ok n \<Longrightarrow> unflushed pre (put_str (delta_key pre i f) (Some (format_int n, None)) w) j g =
      (if j = i \<and> g = f then n else unflushed pre w j g)"
    and "unflushed pre (put_str (delta_key pre i f) None w) j g =
      (if j = i \<and> g = f then 0 else unflushed pre w j g)"
  using assms by (auto simp: unflushed_def delta_key_inj delta_text_def parse_format_int)

lemma unflushed_put_set [simp]:
  "unflushed pre (put_set s xs w) j g = unflushed pre w j g"
  "unflushed pre (add_member s m w) j g = unflushed pre w j g"
  by (simp_all add: unflushed_def)


lemma unflushed_int64: "deltas_ok pre w \<Longrightarrow> int64_ok (unflushed pre w i f)"
  by (erule deltas_ok_live' [of pre w i f]) (auto simp: int64_ok_def)

abbreviation dirty :: "string \<Rightarrow> world \<Rightarrow> string set" where
  "dirty pre w \<equiv> set (r_set (red w) (dirty_key pre))"

abbreviation plain :: "string \<Rightarrow> bool" where
  "plain f \<equiv> CHR '':'' \<notin> set f"

section \<open>Incr counts exactly\<close>

lemma incr_spec:
  assumes "deltas_ok pre w" "plain f" "no_lost Redis w"
  shows "wp (incr pre i f n) (\<lambda>r w'. redis_only w w' \<and> deltas_ok pre w' \<and>
      (\<forall>j g. plain g \<longrightarrow> unflushed pre w' j g =
         unflushed pre w j g + (if j = i \<and> g = f \<and> r \<noteq> Inl ErrNotRecorded then n else 0)) \<and>
      dirty pre w \<subseteq> dirty pre w' \<and> dirty pre w' \<subseteq> insert (member_of i f) (dirty pre w) \<and>
      (r = Inr () \<longrightarrow> member_of i f \<in> dirty pre w') \<and>
      (reliable Redis w \<longrightarrow> int64_ok (unflushed pre w i f + n) \<longrightarrow> r = Inr ())) w"
proof -
  let ?u = "unflushed pre w i f" and ?k = "delta_key pre i f"
  let ?w1 = "after_call Redis w"
  have nl: "next_out Redis v \<noteq> Lost" if "no_lost Redis v" for v
    using that by (rule no_lost_next)
  have u: "int64_ok ?u" using assms(1) by (rule unflushed_int64)
  have i1: "incr_str ?k n ?w1 = (if int64_ok (?u + n) then (Inr (?u + n), put_str ?k (Some (format_int (?u + n), None)) ?w1)
     else (Inl ErrIO, ?w1))"
    using assms(1) incr_str_delta [of pre ?w1 i f n] by simp
  show ?thesis
  proof (cases "next_out Redis w = Done \<and> int64_ok (?u + n)")
    case False
    then show ?thesis
      using assms nl [OF assms(3)] reliable_next [of w Redis]
      by (auto simp: incr_def wp_simps i1 split: outcome.split)
  next
    case True
    let ?w2 = "put_str ?k (Some (format_int (?u + n), None)) ?w1"
    let ?w3 = "after_call Redis ?w2"
    have w2: "redis_only w ?w2" "deltas_ok pre ?w2" "no_lost Redis ?w2"
      using True assms by (auto simp: deltas_ok_put)
    have u2: "unflushed pre ?w2 j g = (if j = i \<and> g = f then ?u + n else unflushed pre w j g)" if "plain g" for j g
      using assms that True by (simp add: unflushed_put)
    show ?thesis
    proof (cases "next_out Redis ?w2 = Done")
      case done2: True
      let ?w4 = "add_member (dirty_key pre) (member_of i f) ?w3"
      have "redis_only w ?w4" "deltas_ok pre ?w4" using w2 by (auto simp: deltas_ok_put)
      moreover have "unflushed pre ?w4 j g = (if j = i \<and> g = f then ?u + n else unflushed pre w j g)"
        if "plain g" for j g using that w2 u2 assms by (simp add: unflushed_put)
      ultimately show ?thesis
        using True done2 by (simp add: incr_def wp_simps i1) auto
    next
      case ref2: False
      then have ref: "next_out Redis ?w2 = Refused" using nl [OF w2(3)] by (cases "next_out Redis ?w2") auto
      have nrel: "\<not> reliable Redis w"
      proof
        assume "reliable Redis w"
        then have "reliable Redis ?w2" by simp
        with ref2 show False by (blast dest: reliable_next)
      qed
      let ?w4 = "after_call Redis ?w3"
      have w3: "redis_only w ?w3" "deltas_ok pre ?w3" "no_lost Redis ?w3" "deltas_ok pre ?w4" "redis_only w ?w4"
        using w2 by (auto simp: deltas_ok_put)
      have u4: "unflushed pre ?w4 i f = ?u + n" using w2 u2 assms w3(2) by simp
      have i4: "incr_str ?k (- n) ?w4 = (Inr ?u, put_str ?k (Some (format_int ?u, None)) ?w4)"
        using incr_str_delta [OF w3(4), of i f "- n"] u u4 by simp
      let ?w5 = "put_str ?k (Some (format_int ?u, None)) ?w4"
      have w5: "redis_only w ?w5" "deltas_ok pre ?w5" using w3 u by (auto simp: deltas_ok_put)
      have u5: "unflushed pre ?w5 j g = unflushed pre w j g" if "plain g" for j g
        using that w2 w3 u2 u assms by (simp add: unflushed_put)
      have undo: "wp (redis_incr_by ?k (- n)) Q ?w3 =
         (if next_out Redis ?w3 = Done then Q (Inr ?u) ?w5 else Q (Inl ErrIO) ?w4)" for Q
        using nl [OF w3(3)] i4 by (auto simp: wp_simps split: outcome.split)
      have "wp (incr pre i f n) Q w =
         (if next_out Redis ?w3 = Done then Q (Inl ErrNotRecorded) ?w5 else Q (Inl ErrIO) ?w4)" for Q
        using True ref undo by (simp add: incr_def wp_tryE wp_handleE wp_ret redis_sadd_def wp_ext_call
            redis_incr_by_def [of _ n] i1 split: sum.split)
      then show ?thesis
        using nrel w3 w5 u2 u5 w2 by auto
    qed
  qed
qed


section \<open>Flush\<close>

definition pg_only :: "world \<Rightarrow> world \<Rightarrow> bool" where
  "pg_only w w' \<longleftrightarrow> red w' = red w \<and> (\<forall>y. y \<noteq> PG \<longrightarrow> outs w' y = outs w y) \<and>
     outcomes w' PG \<subseteq> outcomes w PG"

text \<open>What the counter relies on: the sink adds the delta exactly once when it says so, not at
  all when it fails, and it does not fail when the database does not.\<close>

locale counter_sink =
  fixes add :: sink
    and stored :: "world \<Rightarrow> string \<Rightarrow> string \<Rightarrow> int"
    and covers :: "world \<Rightarrow> string \<Rightarrow> string \<Rightarrow> bool"
  assumes covers_plain: "covers w i f \<Longrightarrow> plain f \<and> CHR ''|'' \<notin> set f"
    and add_law: "covers w i f \<Longrightarrow> no_lost PG w \<Longrightarrow>
      wp (add i f n) (\<lambda>r w'. pg_only w w' \<and> covers w' = covers w \<and>
        (\<forall>j g. covers w j g \<longrightarrow> stored w' j g = stored w j g + (if r = Inr () \<and> j = i \<and> g = f then n else 0)) \<and>
        (reliable PG w \<longrightarrow> int64_ok (stored w i f + n) \<longrightarrow> r = Inr ())) w"
    and stored_db: "db w' = db w \<Longrightarrow> stored w' = stored w"
    and covers_db: "db w' = db w \<Longrightarrow> covers w' = covers w"
begin

text \<open>What a flush keeps.\<close>

definition fine :: "string \<Rightarrow> world \<Rightarrow> bool" where
  "fine pre w \<longleftrightarrow> deltas_ok pre w \<and> no_lost PG w \<and> no_lost Redis w \<and>
     (\<forall>i f. covers w i f \<longrightarrow> int64_ok (stored w i f + unflushed pre w i f))"

definition entry_ok :: "world \<Rightarrow> string \<Rightarrow> bool" where
  "entry_ok w m \<longleftrightarrow> (\<forall>i f. split_member m = Some (i, f) \<longrightarrow> covers w i f)"

definition kept :: "string \<Rightarrow> world \<Rightarrow> world \<Rightarrow> bool" where
  "kept pre w w' \<longleftrightarrow> deltas_ok pre w' \<and> covers w' = covers w \<and>
     (\<forall>y\<in>{PG, Redis}. outcomes w' y \<subseteq> outcomes w y) \<and>
     (\<forall>i f. covers w i f \<longrightarrow> stored w' i f + unflushed pre w' i f = stored w i f + unflushed pre w i f)"

lemma kept_trans: "kept pre w w1 \<Longrightarrow> kept pre w1 w2 \<Longrightarrow> kept pre w w2"
  unfolding kept_def by (metis order_trans)

lemma kept_fine: "fine pre w \<Longrightarrow> kept pre w w' \<Longrightarrow> fine pre w'"
  unfolding fine_def kept_def by (metis insertCI subset_iff)

lemma kept_redis:
  assumes "redis_only w w'" "deltas_ok pre w'"
    and "\<And>i f. covers w i f \<Longrightarrow> unflushed pre w' i f = unflushed pre w i f"
  shows "kept pre w w'"
  using assms redis_only_outcomes(1) [OF assms(1)] stored_db [of w' w] covers_db [of w' w]
  by (simp add: kept_def redis_only_def)

lemma sadd_kept:
  assumes "deltas_ok pre w"
  shows "wp (redis_sadd k m) (\<lambda>_ w'. redis_only w w' \<and> kept pre w w') w"
proof -
  have w1: "redis_only w (after_call Redis w)" by auto
  show ?thesis
    using assms w1
    by (auto simp: wp_simps deltas_ok_put unflushed_put covers_plain intro!: kept_redis split: outcome.split)
qed

lemma put_back:
  assumes "fine pre w" "reliable PG w \<or> reliable Redis w" "covers w i f"
    and n: "unflushed pre w i f = n" "n \<noteq> 0" "int64_ok n"
    and w2: "w2 = put_str (delta_key pre i f) None (after_call Redis w)"
  shows "wp (add i f n) (\<lambda>r w3. case r of
      Inr _ \<Rightarrow> kept pre w w3
    | Inl _ \<Rightarrow> wp (incr pre i f n) (\<lambda>i w4. kept pre w w4) w3) w2"
proof -
  note fine = assms(1) [unfolded fine_def]
  have pl: "plain f" using covers_plain assms(3) by blast
  have r2: "redis_only w w2" unfolding w2 by auto
  have c2: "covers w2 = covers w" "stored w2 = stored w"
    using r2 by (auto intro: covers_db stored_db simp: redis_only_def)
  have d2: "deltas_ok pre w2" using fine by (simp add: w2 deltas_ok_put)
  have u2: "unflushed pre w2 j g = (if j = i \<and> g = f then 0 else unflushed pre w j g)" if "plain g" for j g
    using that pl fine by (simp add: w2 unflushed_put)
  have "no_lost PG w2" "no_lost Redis w2" using fine by (auto simp: w2)
  from add_law [of w2 i f n, unfolded c2, OF assms(3) this(1)]
  have law: "wp (add i f n) (\<lambda>r w'. pg_only w2 w' \<and> covers w' = covers w \<and>
        (\<forall>j g. covers w j g \<longrightarrow> stored w' j g = stored w j g + (if r = Inr () \<and> j = i \<and> g = f then n else 0)) \<and>
        (reliable PG w2 \<longrightarrow> int64_ok (stored w i f + n) \<longrightarrow> r = Inr ())) w2" .
  have ok: "int64_ok (stored w i f + n)" using fine assms(3) n(1) by blast
  show ?thesis using law
  proof (rule wp_mono, elim conjE)
    fix r w3
    assume p: "pg_only w2 w3" and c3: "covers w3 = covers w"
      and s: "\<forall>j g. covers w j g \<longrightarrow> stored w3 j g = stored w j g + (if r = Inr () \<and> j = i \<and> g = f then n else 0)"
      and rel: "reliable PG w2 \<longrightarrow> int64_ok (stored w i f + n) \<longrightarrow> r = Inr ()"
    have d3: "deltas_ok pre w3" and u3: "unflushed pre w3 j g = unflushed pre w2 j g" for j g
      using p d2 unflushed_cong [of pre w2 w3] by (simp_all add: pg_only_def)
    have o3: "\<forall>y\<in>{PG, Redis}. outcomes w3 y \<subseteq> outcomes w2 y"
      using p by (auto simp: pg_only_def outcomes_def)
    have o2: "\<forall>y\<in>{PG, Redis}. outcomes w2 y \<subseteq> outcomes w y"
      using redis_only_outcomes(1) [OF r2] by blast
    have o23: "outcomes w3 Redis \<subseteq> outcomes w Redis" "outcomes w3 PG \<subseteq> outcomes w PG"
      using o2 o3 by blast+
    show "case r of Inr _ \<Rightarrow> kept pre w w3 | Inl _ \<Rightarrow> wp (incr pre i f n) (\<lambda>i w4. kept pre w w4) w3"
    proof (cases r)
      case (Inr x)
      have "stored w3 j g + unflushed pre w3 j g = stored w j g + unflushed pre w j g" if "covers w j g" for j g
        using that Inr s u2 [of g j] u3 n covers_plain by auto
      then show ?thesis using Inr c3 d3 o23 by (simp add: kept_def)
    next
      case (Inl e)
      have "reliable Redis w" using assms(2) rel ok Inl o2 by auto
      then have relR: "reliable Redis w3" "no_lost Redis w3" using o23 fine by blast+
      have "unflushed pre w3 i f = 0" using u2 u3 pl by simp
      with incr_spec [OF d3 pl relR(2), of i n] relR n(3)
      have "wp (incr pre i f n) (\<lambda>r w'. redis_only w3 w' \<and> deltas_ok pre w' \<and>
        (\<forall>j g. plain g \<longrightarrow> unflushed pre w' j g = unflushed pre w3 j g + (if j = i \<and> g = f then n else 0))) w3"
        by (elim wp_mono) auto
      then have "wp (incr pre i f n) (\<lambda>i w4. kept pre w w4) w3"
      proof (rule wp_mono, elim conjE)
        fix r w4
        assume r4: "redis_only w3 w4" and d4: "deltas_ok pre w4"
          and u4: "\<forall>j g. plain g \<longrightarrow> unflushed pre w4 j g = unflushed pre w3 j g + (if j = i \<and> g = f then n else 0)"
        have "covers w4 = covers w3" "stored w4 = stored w3"
          using r4 by (auto intro: covers_db stored_db simp: redis_only_def)
        moreover have "stored w4 j g + unflushed pre w4 j g = stored w j g + unflushed pre w j g" if "covers w j g" for j g
          using that Inl calculation s u2 [of g j] u3 u4 n covers_plain by auto
        ultimately show "kept pre w w4"
          using c3 d4 order_trans [OF redis_only_outcomes(1) [OF r4] o23(1)]
            order_trans [OF redis_only_outcomes(1) [OF r4] o23(2)] by (simp add: kept_def)
      qed
      with Inl show ?thesis by simp
    qed
  qed
qed

lemma getdel_run:
  "wp (redis_getdel k) Q w = (case next_out Redis w of
      Done \<Rightarrow> Q (Inr (case live_str (after_call Redis w) k of None \<Rightarrow> [] | Some v \<Rightarrow> v))
               (put_str k None (after_call Redis w))
    | Refused \<Rightarrow> Q (Inl ErrIO) (after_call Redis w)
    | Lost \<Rightarrow> Q (Inl ErrIO) (put_str k None (after_call Redis w)))"
  by (simp add: redis_getdel_def wp_ext_call split: outcome.split)

lemma entry_kept:
  assumes "fine pre w" "reliable PG w \<or> reliable Redis w" "entry_ok w m"
  shows "wp (flush_entry pre add m acc) (\<lambda>_ w'. kept pre w w') w"
proof (cases "split_member m")
  case None
  then show ?thesis using assms(1) by (simp add: flush_entry_def wp_ret kept_def fine_def)
next
  case (Some p)
  obtain i f where p: "split_member m = Some (i, f)" using Some by (cases p) auto
  then have c: "covers w i f" using assms(3) by (simp add: entry_ok_def)
  let ?k = "delta_key pre i f" and ?w1 = "after_call Redis w"
  let ?w2 = "put_str ?k None ?w1"
  note fine = assms(1) [unfolded fine_def]
  have pl: "plain f" using covers_plain c by blast
  have k1: "kept pre w ?w1" using fine by (intro kept_redis) auto
  consider "next_out Redis w = Refused" | "next_out Redis w = Done" "unflushed pre w i f = 0"
    | n where "next_out Redis w = Done" "unflushed pre w i f = n" "n \<noteq> 0"
    using no_lost_next [of w Redis] fine by (cases "next_out Redis w") auto
  then show ?thesis
  proof cases
    case 1
    have "wp (redis_sadd (dirty_key pre) m) (\<lambda>_ w'. kept pre w w') ?w1"
    proof (rule wp_mono)
      show "wp (redis_sadd (dirty_key pre) m) (\<lambda>_ w'. redis_only ?w1 w' \<and> kept pre ?w1 w') ?w1"
        using fine by (intro sadd_kept) simp
    qed (blast intro: kept_trans [OF k1])
    then show ?thesis using 1 p by (simp add: flush_entry_def getdel_run wp_bind wp_ret)
  next
    case 2
    have k2: "kept pre w ?w2"
      using fine 2 pl covers_plain by (intro kept_redis) (auto simp: deltas_ok_put unflushed_put)
    from fine have d1: "deltas_ok pre ?w1" by simp
    have "unflushed pre ?w1 i f = 0" using fine 2 by simp
    then have "live_str ?w1 ?k = None \<or> live_str ?w1 ?k = Some (format_int 0)"
      by (cases rule: deltas_ok_live' [OF d1, of i f]) auto
    then show ?thesis using 2 p k2
      by (auto simp: flush_entry_def getdel_run wp_bind wp_ret parse_format_int int64_ok_def)
  next
    case 3
    from fine have d1: "deltas_ok pre ?w1" by simp
    have "unflushed pre ?w1 i f = n" using fine 3 by simp
    then have t: "live_str ?w1 ?k = Some (format_int n)" "int64_ok n"
      using 3(3) by (cases rule: deltas_ok_live' [OF d1, of i f]; auto)+
    have "wp (add i f n) (\<lambda>r w3. case r of
      Inr _ \<Rightarrow> kept pre w w3
    | Inl _ \<Rightarrow> wp (incr pre i f n) (\<lambda>i w4. kept pre w w4) w3) ?w2"
      using put_back [OF assms(1,2) c 3(2,3) t(2) refl] .
    then have "wp (Monad_Syntax.bind (add i f n) (\<lambda>a. case a of
                        Inl x \<Rightarrow> Monad_Syntax.bind (incr pre i f n) (\<lambda>i.
                          State_Monad.return (fst acc, first_err (case i of
                              Inl _ \<Rightarrow> first_err (snd acc) ErrLost | Inr _ \<Rightarrow> snd acc) x))
                      | Inr _ \<Rightarrow> State_Monad.return (fst acc + 1, snd acc))) (\<lambda>_ w'. kept pre w w') ?w2"
      by (rule wp_bindI) (auto simp: wp_ret wp_bind split: sum.splits)
    then show ?thesis using 3 p t
      by (simp add: flush_entry_def getdel_run wp_bind [of "redis_getdel _"] parse_format_int)
  qed
qed

lemma loop_kept:
  assumes "fine pre w" "reliable PG w \<or> reliable Redis w" "\<forall>m\<in>set ms. entry_ok w m"
  shows "wp (flush_loop pre add ms acc) (\<lambda>_ w'. kept pre w w') w"
  using assms
proof (induction ms arbitrary: w acc)
  case Nil
  then show ?case by (simp add: wp_ret kept_def fine_def)
next
  case (Cons m ms)
  have e: "wp (flush_entry pre add m acc) (\<lambda>_ w'. kept pre w w') w"
    using Cons.prems by (intro entry_kept) auto
  show ?case unfolding flush_loop.simps
  proof (rule wp_bindI [OF e])
    fix acc' w1 assume k: "kept pre w w1"
    have "fine pre w1" using kept_fine Cons.prems(1) k by blast
    moreover have "reliable PG w1 \<or> reliable Redis w1"
      using Cons.prems(2) k unfolding kept_def by blast
    moreover have "\<forall>m\<in>set ms. entry_ok w1 m"
      using Cons.prems(3) k by (simp add: kept_def entry_ok_def)
    ultimately have "wp (flush_loop pre add ms acc') (\<lambda>_ w'. kept pre w1 w') w1"
      by (rule Cons.IH)
    then show "wp (flush_loop pre add ms acc') (\<lambda>_ w'. kept pre w w') w1"
      by (rule wp_mono) (rule kept_trans [OF k])
  qed
qed

lemma flush_kept:
  assumes "fine pre w" "reliable PG w \<or> reliable Redis w" "\<forall>m\<in>dirty pre w. entry_ok w m"
  shows "wp (flush pre add mx) (\<lambda>_ w'. kept pre w w') w"
proof -
  let ?w1 = "after_call Redis w"
  note fine = assms(1) [unfolded fine_def]
  have k1: "kept pre w ?w1" using fine by (intro kept_redis) auto
  define ms where "ms = fst (pop_members (dirty_key pre) mx ?w1)"
  define w2 where "w2 = snd (pop_members (dirty_key pre) mx ?w1)"
  have pop: "pop_members (dirty_key pre) mx ?w1 = (ms, w2)" by (simp add: ms_def w2_def)
  have k2: "kept pre w w2"
    using fine by (intro kept_redis) (auto simp: w2_def pop_members_def Let_def deltas_ok_put)
  have "set ms \<subseteq> dirty pre w"
    using set_take_subset by (fastforce simp: ms_def pop_members_def Let_def set_spop_order)
  then have ms: "\<forall>m\<in>set ms. entry_ok w2 m"
    using assms(3) k2 by (auto simp: kept_def entry_ok_def)
  have "wp (flush_loop pre add ms (0, None)) (\<lambda>_ w'. kept pre w2 w') w2"
  proof (rule loop_kept)
    show "fine pre w2" using kept_fine assms(1) k2 by blast
    show "reliable PG w2 \<or> reliable Redis w2" using assms(2) k2 unfolding kept_def by blast
  qed (rule ms)
  then have loop: "wp (flush_loop pre add ms (0, None)) (\<lambda>_ w'. kept pre w w') w2"
    by (rule wp_mono) (rule kept_trans [OF k2])
  have "next_out Redis w \<noteq> Lost" using fine by (simp add: no_lost_next)
  then show ?thesis using k1 loop
    by (simp add: flush_def wp_bind redis_spop_def wp_ext_call pop wp_ret split: outcome.split)
qed

text \<open>With both systems up, a flush drains what it takes.\<close>

definition up :: "world \<Rightarrow> bool" where
  "up w \<longleftrightarrow> reliable PG w \<and> reliable Redis w"

definition drained :: "string \<Rightarrow> string set \<Rightarrow> world \<Rightarrow> world \<Rightarrow> bool" where
  "drained pre ms w w' \<longleftrightarrow> kept pre w w' \<and>
     (\<forall>i f. covers w i f \<longrightarrow> unflushed pre w' i f = (if member_of i f \<in> ms then 0 else unflushed pre w i f))"

lemma entry_drains:
  assumes "fine pre w" "up w" "entry_ok w m" "split_member m \<noteq> None"
  shows "wp (flush_entry pre add m acc) (\<lambda>acc' w'. drained pre {m} w w' \<and> snd acc' = snd acc) w"
proof -
  obtain i f where p: "split_member m = Some (i, f)" using assms(4) by force
  then have m: "m = member_of i f" by (simp add: split_member_Some)
  have c: "covers w i f" using p assms(3) by (simp add: entry_ok_def)
  let ?k = "delta_key pre i f" and ?w1 = "after_call Redis w"
  let ?w2 = "put_str ?k None ?w1"
  note fine = assms(1) [unfolded fine_def]
  have rel: "reliable PG w" "reliable Redis w" using assms(2) by (simp_all add: up_def)
  have pl: "plain f" using covers_plain c by blast
  have mem: "member_of j g = m \<longleftrightarrow> j = i \<and> g = f" if "covers w j g" for j g
    using covers_plain [OF that] covers_plain [OF c] by (auto simp: m member_of_def split_char)
  have out: "next_out Redis w = Done" using rel by (intro reliable_next)
  from fine have d1: "deltas_ok pre ?w1" by simp
  have u2: "unflushed pre ?w2 j g = (if member_of j g = m then 0 else unflushed pre w j g)" if "covers w j g" for j g
    using that fine pl covers_plain mem by (simp add: unflushed_put)
  have "wp (flush_entry pre add m acc) (\<lambda>acc' w'. snd acc' = snd acc \<and>
      (\<forall>i f. covers w i f \<longrightarrow> unflushed pre w' i f = (if member_of i f \<in> {m} then 0 else unflushed pre w i f))) w"
  proof (cases rule: deltas_ok_live' [OF d1, of i f])
    case 1
    then show ?thesis using p out u2 by (simp add: flush_entry_def getdel_run wp_bind wp_ret)
  next
    case (2 n)
    have c2: "covers ?w2 = covers w" "stored ?w2 = stored w" by (auto intro: covers_db stored_db)
    have n: "unflushed pre w i f = n" using 2 fine by simp
    have "no_lost PG ?w2" "reliable PG ?w2" using fine rel by auto
    moreover have "int64_ok (stored w i f + n)" using fine c n by blast
    ultimately have "wp (add i f n) (\<lambda>r w'. pg_only ?w2 w' \<and> r = Inr ()) ?w2"
      using add_law [of ?w2 i f n, unfolded c2, OF c] by (auto elim!: wp_mono)
    then have "wp (add i f n) (\<lambda>r w3. r = Inr () \<and> (\<forall>j g. unflushed pre w3 j g = unflushed pre ?w2 j g)) ?w2"
    proof (rule wp_mono, elim conjE)
      fix r w3 assume "pg_only ?w2 w3" "r = Inr ()"
      moreover have "deltas_ok pre ?w2" using fine by (simp add: deltas_ok_put)
      ultimately show "r = Inr () \<and> (\<forall>j g. unflushed pre w3 j g = unflushed pre ?w2 j g)"
        using unflushed_cong(1) [of pre ?w2 w3] by (simp add: pg_only_def)
    qed
    then have "wp (Monad_Syntax.bind (add i f n) (\<lambda>a. case a of
                        Inl x \<Rightarrow> Monad_Syntax.bind (incr pre i f n) (\<lambda>i.
                          State_Monad.return (fst acc, first_err (case i of
                              Inl _ \<Rightarrow> first_err (snd acc) ErrLost | Inr _ \<Rightarrow> snd acc) x))
                      | Inr _ \<Rightarrow> State_Monad.return (fst acc + 1, snd acc))) (\<lambda>acc' w'. snd acc' = snd acc \<and>
      (\<forall>i f. covers w i f \<longrightarrow> unflushed pre w' i f = (if member_of i f \<in> {m} then 0 else unflushed pre w i f))) ?w2"
      by (rule wp_bindI) (use u2 in \<open>auto simp: wp_ret\<close>)
    then show ?thesis using 2 p out u2
      by (auto simp: flush_entry_def getdel_run wp_bind [of "redis_getdel _"] parse_format_int wp_ret)
  qed
  from wp_conj [OF entry_kept [OF assms(1) _ assms(3), of acc] this] show ?thesis
    using rel by (auto simp: drained_def elim!: wp_mono)
qed

lemma drained_trans:
  assumes "drained pre ms w w1" "drained pre ns w1 w2"
  shows "drained pre (ms \<union> ns) w w2"
proof -
  have "kept pre w w2" using assms kept_trans unfolding drained_def by blast
  moreover have "covers w1 = covers w" using assms(1) by (simp add: drained_def kept_def)
  ultimately show ?thesis using assms by (simp add: drained_def)
qed

lemma kept_up: "up w \<Longrightarrow> kept pre w w' \<Longrightarrow> up w'"
  unfolding up_def kept_def by blast

lemma loop_drains:
  assumes "fine pre w" "up w" "\<forall>m\<in>set ms. entry_ok w m \<and> split_member m \<noteq> None"
  shows "wp (flush_loop pre add ms acc) (\<lambda>acc' w'. drained pre (set ms) w w' \<and> snd acc' = snd acc) w"
  using assms
proof (induction ms arbitrary: w acc)
  case Nil
  then show ?case by (simp add: wp_ret drained_def kept_def fine_def)
next
  case (Cons m ms)
  have e: "wp (flush_entry pre add m acc) (\<lambda>acc' w'. drained pre {m} w w' \<and> snd acc' = snd acc) w"
    using Cons.prems by (intro entry_drains) auto
  show ?case unfolding flush_loop.simps
  proof (rule wp_bindI [OF e], elim conjE)
    fix acc' :: flush_result and w1 assume d: "drained pre {m} w w1" and a: "snd acc' = snd acc"
    then have k: "kept pre w w1" by (simp add: drained_def)
    have "fine pre w1" using kept_fine Cons.prems(1) k by blast
    moreover have "up w1" using kept_up Cons.prems(2) k by blast
    moreover have "\<forall>m\<in>set ms. entry_ok w1 m \<and> split_member m \<noteq> None"
      using Cons.prems(3) k by (simp add: kept_def entry_ok_def)
    ultimately have "wp (flush_loop pre add ms acc') (\<lambda>acc'' w'. drained pre (set ms) w1 w' \<and> snd acc'' = snd acc') w1"
      by (rule Cons.IH)
    then show "wp (flush_loop pre add ms acc') (\<lambda>acc'' w'. drained pre (set (m # ms)) w w' \<and> snd acc'' = snd acc) w1"
      using drained_trans [OF d] a by (auto elim!: wp_mono)
  qed
qed

lemma flush_drains:
  assumes "fine pre w" "up w" "\<forall>m\<in>dirty pre w. entry_ok w m \<and> split_member m \<noteq> None"
    and "int (length (r_set (red w) (dirty_key pre))) \<le> mx"
    and "\<And>i f. covers w i f \<Longrightarrow> unflushed pre w i f \<noteq> 0 \<Longrightarrow> member_of i f \<in> dirty pre w"
    and "distinct (r_set (red w) (dirty_key pre))"
  shows "wp (flush pre add mx) (\<lambda>r w'. snd r = None \<and>
    (\<forall>i f. covers w i f \<longrightarrow> unflushed pre w' i f = 0 \<and> stored w' i f = stored w i f + unflushed pre w i f)) w"
proof -
  let ?w1 = "after_call Redis w" and ?d = "r_set (red w) (dirty_key pre)"
  note fine = assms(1) [unfolded fine_def]
  define ms where "ms = spop_order (r_pick (red w)) ?d"
  have len: "length ms \<le> nat mx"
  proof -
    have "length ms = card (set ms)" unfolding ms_def
      using assms(6) by (metis distinct_card distinct_spop_order)
    also have "\<dots> = length ?d" using assms(6) by (simp add: ms_def set_spop_order distinct_card)
    finally show ?thesis using assms(4) by simp
  qed
  let ?w2 = "put_set (dirty_key pre) [] ?w1"
  have pop: "pop_members (dirty_key pre) mx ?w1 = (ms, ?w2)"
    using len by (simp add: pop_members_def Let_def ms_def)
  have k2: "kept pre w ?w2" using fine by (intro kept_redis) (auto simp: deltas_ok_put)
  have "wp (flush_loop pre add ms (0, None)) (\<lambda>acc' w'. drained pre (set ms) ?w2 w' \<and> snd acc' = snd (0::int, None::err option)) ?w2"
  proof (rule loop_drains)
    show "fine pre ?w2" using kept_fine assms(1) k2 by blast
    show "up ?w2" using kept_up assms(2) k2 by blast
    show "\<forall>m\<in>set ms. entry_ok ?w2 m \<and> split_member m \<noteq> None"
      using assms(3) k2 by (auto simp: ms_def set_spop_order kept_def entry_ok_def)
  qed
  then have "wp (flush_loop pre add ms (0, None)) (\<lambda>r w'. snd r = None \<and>
    (\<forall>i f. covers w i f \<longrightarrow> unflushed pre w' i f = 0 \<and> stored w' i f = stored w i f + unflushed pre w i f)) ?w2"
  proof (rule wp_mono, elim conjE, intro conjI allI impI)
    fix r w' i f
    assume d: "drained pre (set ms) ?w2 w'" and "snd r = snd (0::int, None::err option)" and c: "covers w i f"
    have k: "kept pre w w'" using k2 d kept_trans by (auto simp: drained_def)
    show "unflushed pre w' i f = 0"
      using d c k2 assms(5) fine by (auto simp: drained_def kept_def ms_def set_spop_order)
    moreover have "stored w' i f + unflushed pre w' i f = stored w i f + unflushed pre w i f"
      using k c unfolding kept_def by blast
    ultimately show "stored w' i f = stored w i f + unflushed pre w i f" by simp
  qed simp
  moreover have "next_out Redis w = Done" using assms(2) by (auto simp: up_def intro: reliable_next)
  ultimately show ?thesis
    by (simp add: flush_def wp_bind redis_spop_def wp_ext_call pop wp_ret)
qed

end

end
