(* ===== verification/PostStore.thy ===== *)
theory PostStore
  imports Counter
begin

text \<open>
  \<open>services/post/service/store.go\<close>: the reads every post operation shares and the database sink
  of the like and share counters, and \<open>bumpCounter\<close> of \<open>post.go\<close> that chooses between the
  write-behind counter and the direct write.
\<close>

section \<open>Reading posts\<close>

text \<open>\<open>model.Post\<close> as the services return it.\<close>

record post =
  post_id :: string
  post_user :: string
  post_message :: string
  post_url :: string
  post_type :: string
  post_likes :: int
  post_shares :: int
  post_at :: int
  post_deleted_at :: "int option"

definition scan_post :: "post_row \<Rightarrow> post" where
  "scan_post r = \<lparr>post_id = p_id r, post_user = p_user r, post_message = p_message r, post_url = p_url r,
     post_type = p_type r, post_likes = p_likes r, post_shares = p_shares r, post_at = p_at r,
     post_deleted_at = map_option unix (p_deleted_at r)\<rparr>"

definition live :: "post_row \<Rightarrow> bool" where
  "live r \<longleftrightarrow> p_deleted_at r = None"

text \<open>The loop of \<open>livePostsByID\<close>: the map \<open>byID\<close> as an association list, an id listed twice
  is returned once.\<close>

fun pick_posts :: "(string \<times> post) list \<Rightarrow> string list \<Rightarrow> post list" where
  "pick_posts by_id [] = []"
| "pick_posts by_id (i # ids) =
     (case map_of by_id i of
        None \<Rightarrow> pick_posts by_id ids
      | Some p \<Rightarrow> p # pick_posts (filter (\<lambda>e. fst e \<noteq> i) by_id) ids)"

definition live_posts_by_id :: "string list \<Rightarrow> post list io" where
  "live_posts_by_id ids =
     (if ids = [] then ret []
      else tryE (ext_call PG (\<lambda>w. (Inr (filter (\<lambda>r. p_id r \<in> set ids \<and> live r) (t_posts (db w))), w)))
        (\<lambda>found. ret (pick_posts (rev (map (\<lambda>r. (p_id r, scan_post r)) found)) ids)))"

definition find_post :: "string \<Rightarrow> world \<Rightarrow> post_row option" where
  "find_post i w = find (\<lambda>r. p_id r = i) (t_posts (db w))"

definition post_owner :: "string \<Rightarrow> string io" where
  "post_owner i = ext_call PG (\<lambda>w.
     (case find (\<lambda>r. p_id r = i \<and> live r) (t_posts (db w)) of
        None \<Rightarrow> Inl ErrPostNotFound | Some r \<Rightarrow> Inr (p_user r), w))"

section \<open>The counter sink\<close>

definition counter_columns :: "string list" where
  "counter_columns = [''like_count'', ''shared_count'']"

definition column :: "string \<Rightarrow> post_row \<Rightarrow> int" where
  "column field r = (if field = ''like_count'' then p_likes r else p_shares r)"

definition add_column :: "string \<Rightarrow> int \<Rightarrow> post_row \<Rightarrow> post_row" where
  "add_column field n r =
     (if field = ''like_count'' then r\<lparr>p_likes := p_likes r + n\<rparr> else r\<lparr>p_shares := p_shares r + n\<rparr>)"

definition upd_posts :: "(post_row list \<Rightarrow> post_row list) \<Rightarrow> world \<Rightarrow> world" where
  "upd_posts f = upd_db (\<lambda>d. d\<lparr>t_posts := f (t_posts d)\<rparr>)"

text \<open>A \<open>bigint\<close> column refuses to leave 64 bits.\<close>

definition pg_sink_add :: sink where
  "pg_sink_add i field n =
     (if field \<notin> set counter_columns then ret ()
      else ext_call PG (\<lambda>w.
        if \<exists>r\<in>set (t_posts (db w)). p_id r = i \<and> \<not> int64_ok (column field r + n) then (Inl ErrIO, w)
        else (Inr (), upd_posts (update_where (\<lambda>r. p_id r = i) (add_column field n)) w)))"

definition bump_counter :: "string \<Rightarrow> string \<Rightarrow> int \<Rightarrow> unit io" where
  "bump_counter i field n =
     handleE (incr [] i field n)
       (\<lambda>e. if e = ErrNotRecorded then pg_sink_add i field n else ret ())
       (\<lambda>_. ret ())"

section \<open>The sink keeps the contract of the counter\<close>

definition stored_count :: "world \<Rightarrow> string \<Rightarrow> string \<Rightarrow> int" where
  "stored_count w i field = (case find_post i w of None \<Rightarrow> 0 | Some r \<Rightarrow> column field r)"

definition counted :: "world \<Rightarrow> string \<Rightarrow> string \<Rightarrow> bool" where
  "counted w i field \<longleftrightarrow> distinct (map p_id (t_posts (db w))) \<and> field \<in> set counter_columns \<and>
     i \<in> p_id ` set (t_posts (db w))"

lemma p_id_add_column [simp]: "p_id (add_column f n r) = p_id r"
  by (simp add: add_column_def)

lemma column_add_column:
  "f \<in> set counter_columns \<Longrightarrow> g \<in> set counter_columns \<Longrightarrow>
   column g (add_column f n r) = column g r + (if g = f then n else 0)"
  by (auto simp: column_def add_column_def counter_columns_def)

lemma db_upd_posts [simp]: "t_posts (db (upd_posts f w)) = f (t_posts (db w))"
  by (simp add: upd_posts_def)

lemma upd_posts_simps [simp]:
  "red (upd_posts f w) = red w" "outs (upd_posts f w) = outs w" "outcomes (upd_posts f w) y = outcomes w y"
  "next_out y (upd_posts f w) = next_out y w" "clock (upd_posts f w) = clock w"
  by (simp_all add: upd_posts_def)

lemma stored_upd_posts:
  assumes "f \<in> set counter_columns" "g \<in> set counter_columns" "j \<in> p_id ` set (t_posts (db w))"
  shows "stored_count (upd_posts (update_where (\<lambda>r. p_id r = i) (add_column f n)) w) j g =
    stored_count w j g + (if j = i \<and> g = f then n else 0)"
proof -
  obtain r where "find (\<lambda>r. p_id r = j) (t_posts (db w)) = Some r" "p_id r = j"
    using assms(3) by (rule find_key)
  then show ?thesis
    using assms by (simp add: stored_count_def find_post_def find_update_where column_add_column)
qed

lemma counted_upd_posts [simp]:
  "counted (upd_posts (update_where P (add_column f n)) w) = counted w"
proof -
  have "map p_id (update_where P (add_column f n) rows) = map p_id rows" for rows
    by (simp add: map_update_where)
  then show ?thesis unfolding counted_def db_upd_posts by (metis list.set_map)
qed

lemma column_unique:
  assumes "counted w i f" "r \<in> set (t_posts (db w))" "p_id r = i"
  shows "stored_count w i f = column f r"
proof -
  obtain r' where r': "find (\<lambda>r. p_id r = i) (t_posts (db w)) = Some r'" "r' \<in> set (t_posts (db w))" "p_id r' = i"
    using assms(1) unfolding counted_def by (metis find_key)
  have "r' = r"
    using assms r' unfolding counted_def by (metis inj_on_def distinct_map)
  with r' show ?thesis by (simp add: stored_count_def find_post_def)
qed

interpretation pg_sink: counter_sink pg_sink_add stored_count counted
proof (unfold_locales, goal_cases)
  case (1 w i f)
  then show ?case by (auto simp: counted_def counter_columns_def)
next
  case (2 w i f n)
  have f: "f \<in> set counter_columns" using 2(1) by (simp add: counted_def)
  let ?w1 = "after_call PG w"
  have c1: "counted ?w1 = counted w" "stored_count ?w1 = stored_count w"
    by (auto simp: counted_def stored_count_def find_post_def fun_eq_iff)
  have p1: "pg_only w ?w1" using outcomes_after_call by (auto simp: pg_only_def)
  then have p2: "pg_only w (upd_posts h ?w1)" for h by (simp add: pg_only_def)
  have st: "stored_count (upd_posts (update_where (\<lambda>r. p_id r = i) (add_column f n)) ?w1) j g =
      stored_count w j g + (if j = i \<and> g = f then n else 0)" if "counted w j g" for j g
    using that stored_upd_posts [of f g j ?w1 i n] f c1 by (simp add: counted_def)
  have ok: "\<not> (\<exists>r\<in>set (t_posts (db w)). p_id r = i \<and> \<not> int64_ok (column f r + n))"
    if "int64_ok (stored_count w i f + n)"
    using that column_unique [OF 2(1)] by auto
  show ?case
    using no_lost_next [OF 2(2)] reliable_next [of w PG] f p1 p2 c1 st ok
    by (auto simp: pg_sink_add_def wp_simps split: outcome.split)
next
  case (3 w' w)
  then show ?case by (simp add: stored_count_def find_post_def fun_eq_iff)
next
  case (4 w' w)
  then show ?case by (simp add: counted_def fun_eq_iff)
qed


section \<open>Exact counts\<close>

definition total_count :: "world \<Rightarrow> string \<Rightarrow> string \<Rightarrow> int" where
  "total_count w i field = stored_count w i field + unflushed [] w i field"

lemma counted_db: "db w' = db w \<Longrightarrow> counted w' = counted w"
  by (rule pg_sink.covers_db)

lemma stored_count_db: "db w' = db w \<Longrightarrow> stored_count w' = stored_count w"
  by (rule pg_sink.stored_db)

lemma bump_counter_wp:
  assumes "deltas_ok [] w" "no_lost PG w" "no_lost Redis w" "counted w i field"
  shows "wp (bump_counter i field n) (\<lambda>r w'. \<forall>j g. counted w j g \<longrightarrow>
    total_count w' j g = total_count w j g + (if r = Inr () \<and> j = i \<and> g = field then n else 0)) w"
proof -
  have pl: "plain g" if "counted w j g" for j g using pg_sink.covers_plain that by blast
  have dbs: "db w' = db w" if "redis_only w w'" for w' using that by (simp add: redis_only_def)
  show ?thesis unfolding bump_counter_def
  proof (rule wp_handleI [OF incr_spec [OF assms(1) pl [OF assms(4)] assms(3), of i n]], goal_cases)
    case (1 x w1)
    then show ?case
      using pl stored_count_db [OF dbs] by (auto simp: wp_ret total_count_def)
  next
    case (2 e w1)
    then have r: "redis_only w w1" and d: "deltas_ok [] w1" and
      u: "\<And>j g. plain g \<Longrightarrow> unflushed [] w1 j g =
        unflushed [] w j g + (if j = i \<and> g = field \<and> e \<noteq> ErrNotRecorded then n else 0)" by auto
    note st = stored_count_db [OF dbs [OF r]] and ct = counted_db [OF dbs [OF r]]
    show ?case
    proof (cases "e = ErrNotRecorded")
      case False
      then show ?thesis using pl u st by (auto simp: wp_ret total_count_def)
    next
      case True
      have "no_lost PG w1" using r assms(2) redis_only_outcomes(1) by blast
      from pg_sink.add_law [of w1 i field n, unfolded ct st, OF assms(4) this]
      have "wp (pg_sink_add i field n) (\<lambda>r w'. \<forall>j g. counted w j g \<longrightarrow>
          total_count w' j g = total_count w j g + (if r = Inr () \<and> j = i \<and> g = field then n else 0)) w1"
      proof (rule wp_mono, elim conjE, intro allI impI)
        fix r w2 j g
        assume p: "pg_only w1 w2" and c: "counted w j g"
          and s: "\<forall>j g. counted w j g \<longrightarrow> stored_count w2 j g =
            stored_count w j g + (if r = Inr () \<and> j = i \<and> g = field then n else 0)"
        have "unflushed [] w2 j g = unflushed [] w1 j g"
          by (rule unflushed_cong(1) [OF d]) (use p in \<open>simp add: pg_only_def\<close>)
        then show "total_count w2 j g = total_count w j g + (if r = Inr () \<and> j = i \<and> g = field then n else 0)"
          using s c u [OF pl [OF c]] True by (simp add: total_count_def)
      qed
      with True show ?thesis by simp
    qed
  qed
qed

text \<open>A like, unlike or share changes the count (stored plus on its way) by exactly its amount if
  \<open>bumpCounter\<close> reports success and not at all if it reports an error, for every pattern of
  failed Redis and database calls; no other count changes.\<close>

theorem bump_counter_counts_once:
  assumes "run_state (bump_counter i field n) w = (r, w')"
    and "deltas_ok [] w" "no_lost PG w" "no_lost Redis w" "counted w i field" "counted w j g"
  shows "total_count w' j g = total_count w j g + (if r = Inr () \<and> j = i \<and> g = field then n else 0)"
  using wp_run [OF bump_counter_wp [OF assms(2-5)] assms(1)] assms(6) by blast

text \<open>C5. \<open>Flush\<close> neither loses nor invents a like or share as long as no reply is lost (a call that
  fails did not take effect): if in one flush either the database or Redis, but not both, refuses
  calls, any number of times, every count (stored plus on its way) is what it was.  A lost reply of
  the database makes the flush count twice, as the run at the end of this theory shows.\<close>

theorem flush_conserves_counts:
  assumes "run_state (flush [] pg_sink_add mx) w = (r, w')"
    and "deltas_ok [] w" "no_lost PG w" "no_lost Redis w" "reliable PG w \<or> reliable Redis w"
    and "\<And>m j g. m \<in> set (r_set (red w) (dirty_key [])) \<Longrightarrow> split_member m = Some (j, g) \<Longrightarrow> counted w j g"
    and "\<And>j g. counted w j g \<Longrightarrow> int64_ok (total_count w j g)"
    and "counted w i field"
  shows "total_count w' i field = total_count w i field"
proof -
  have "pg_sink.fine [] w"
    using assms(2-4,7) by (simp add: pg_sink.fine_def total_count_def)
  moreover have "\<forall>m\<in>dirty [] w. pg_sink.entry_ok w m"
    using assms(6) by (simp add: pg_sink.entry_ok_def)
  ultimately have "pg_sink.kept [] w w'"
    using wp_run [OF pg_sink.flush_kept [OF _ assms(5)] assms(1)] by blast
  then show ?thesis using assms(8) by (simp add: pg_sink.kept_def total_count_def)
qed

text \<open>When both systems answer, one \<open>Flush\<close> large enough for the dirty set writes every
  scheduled delta to its row and leaves nothing on its way, without an error.\<close>

theorem flush_settles_counts:
  assumes "run_state (flush [] pg_sink_add mx) w = (r, w')"
    and "deltas_ok [] w" "reliable PG w" "reliable Redis w"
    and "distinct (r_set (red w) (dirty_key []))" "int (length (r_set (red w) (dirty_key []))) \<le> mx"
    and "\<And>m. m \<in> set (r_set (red w) (dirty_key [])) \<Longrightarrow> \<exists>j g. m = member_of j g \<and> counted w j g"
    and "\<And>j g. counted w j g \<Longrightarrow> int64_ok (total_count w j g)"
    and "\<And>j g. counted w j g \<Longrightarrow> unflushed [] w j g \<noteq> 0 \<Longrightarrow> member_of j g \<in> set (r_set (red w) (dirty_key []))"
    and "counted w i field"
  shows "snd r = None \<and> unflushed [] w' i field = 0 \<and> stored_count w' i field = total_count w i field"
proof -
  have "pg_sink.fine [] w"
    using assms(2-4,8) by (auto simp: pg_sink.fine_def total_count_def)
  moreover have "\<forall>m\<in>dirty [] w. pg_sink.entry_ok w m \<and> split_member m \<noteq> None"
  proof
    fix m assume "m \<in> dirty [] w"
    then obtain j g where "m = member_of j g" "counted w j g" using assms(7) by blast
    then show "pg_sink.entry_ok w m \<and> split_member m \<noteq> None"
      using split_member_of [of g j] pg_sink.covers_plain [of w j g] by (simp add: pg_sink.entry_ok_def)
  qed
  ultimately show ?thesis
    using wp_run [OF pg_sink.flush_drains [OF _ _ _ assms(6,9,5)] assms(1)] assms(3,4,10)
    by (simp add: pg_sink.up_def total_count_def)
qed

section \<open>Live posts in the order asked for\<close>

lemma pick_posts_spec:
  assumes "\<And>e. e \<in> set by_id \<Longrightarrow> post_id (snd e) = fst e"
  shows "map post_id (pick_posts by_id ids) = filter (\<lambda>i. i \<in> fst ` set by_id) (rev (remdups (rev ids)))"
  using assms
proof (induction by_id ids rule: pick_posts.induct)
  case (1 by_id)
  then show ?case by simp
next
  case (2 by_id i ids)
  have snoc: "rev (remdups (rev (i # ids))) = i # filter (\<lambda>j. j \<noteq> i) (rev (remdups (rev ids)))"
  proof -
    have "remdups (xs @ [i]) = filter (\<lambda>j. j \<noteq> i) (remdups xs) @ [i]" for xs
      by (induction xs) auto
    then show ?thesis by (simp add: rev_filter)
  qed
  show ?case
  proof (cases "map_of by_id i")
    case None
    then have ni: "i \<notin> fst ` set by_id" by (simp add: map_of_eq_None_iff)
    have "map post_id (pick_posts by_id ids) = filter (\<lambda>i. i \<in> fst ` set by_id) (rev (remdups (rev ids)))"
      using 2(1) [OF None] 2(3) by blast
    moreover have "filter (\<lambda>j. j \<in> fst ` set by_id) (filter (\<lambda>j. j \<noteq> i) xs) = filter (\<lambda>j. j \<in> fst ` set by_id) xs" for xs
      using ni by (auto simp: filter_filter intro!: filter_cong)
    ultimately show ?thesis using None ni snoc by simp
  next
    case (Some p)
    let ?rest = "filter (\<lambda>e. fst e \<noteq> i) by_id"
    have p: "(i, p) \<in> set by_id" using Some by (rule map_of_SomeD)
    have "map post_id (pick_posts ?rest ids) = filter (\<lambda>j. j \<in> fst ` set ?rest) (rev (remdups (rev ids)))"
      using 2(2) [OF Some] 2(3) by auto
    moreover have "filter (\<lambda>j. j \<in> fst ` set ?rest) xs = filter (\<lambda>j. j \<in> fst ` set by_id) (filter (\<lambda>j. j \<noteq> i) xs)" for xs
      by (auto simp: filter_filter intro!: filter_cong)
    moreover have "post_id p = i" "i \<in> fst ` set by_id" using 2(3) p by force+
    ultimately show ?thesis using Some snoc by simp
  qed
qed


lemma pick_posts_scanned:
  "p \<in> set (pick_posts by_id ids) \<Longrightarrow> \<exists>i. (i, p) \<in> set by_id"
proof (induction by_id ids rule: pick_posts.induct)
  case (1 by_id)
  then show ?case by simp
next
  case (2 by_id i ids)
  then show ?case
    by (cases "map_of by_id i") (auto dest: map_of_SomeD)
qed

text \<open>A page of posts loaded by id keeps the order asked for, returns an id listed twice once, and
  returns exactly the ids that are live posts: never a deleted one.\<close>

theorem live_posts_in_order:
  assumes "run_state (live_posts_by_id ids) w = (Inr ps, w')"
  shows "map post_id ps = filter (\<lambda>i. \<exists>r\<in>set (t_posts (db w)). p_id r = i \<and> live r) (rev (remdups (rev ids))) \<and>
    (\<forall>p\<in>set ps. \<exists>r\<in>set (t_posts (db w)). live r \<and> p = scan_post r)"
proof (cases "ids = []")
  case True
  then show ?thesis using assms by (simp add: live_posts_by_id_def)
next
  case False
  let ?found = "filter (\<lambda>r. p_id r \<in> set ids \<and> live r) (t_posts (db w))"
  let ?by = "rev (map (\<lambda>r. (p_id r, scan_post r)) ?found)"
  have ps: "ps = pick_posts ?by ids"
    using assms False
    by (simp add: live_posts_by_id_def run_simps ext_call_def split: outcome.splits)
  have "map post_id ps = filter (\<lambda>i. i \<in> fst ` set ?by) (rev (remdups (rev ids)))"
    unfolding ps by (rule pick_posts_spec) (auto simp: scan_post_def)
  moreover have "i \<in> fst ` set ?by \<longleftrightarrow> (\<exists>r\<in>set (t_posts (db w)). p_id r = i \<and> live r)" if "i \<in> set ids" for i
    using that by force
  ultimately have "map post_id ps = filter (\<lambda>i. \<exists>r\<in>set (t_posts (db w)). p_id r = i \<and> live r) (rev (remdups (rev ids)))"
    by (auto intro!: filter_cong)
  moreover have "\<exists>r\<in>set (t_posts (db w)). live r \<and> p = scan_post r" if "p \<in> set ps" for p
    using pick_posts_scanned that unfolding ps by fastforce
  ultimately show ?thesis by blast
qed

section \<open>A concrete world\<close>

definition demo_row :: "string \<Rightarrow> string \<Rightarrow> int \<Rightarrow> post_row" where
  "demo_row i u t = \<lparr>p_id = i, p_user = u, p_message = ''hi'', p_url = [], p_type = ''image'', p_at = t,
     p_deleted_at = None, p_cleanup = CNone, p_attempts = 0, p_likes = 3, p_shares = 0,
     p_embedding = None, p_version = 1\<rparr>"

definition demo_world :: world where
  "demo_world = quiet_world\<lparr>db := empty_db\<lparr>t_posts := [demo_row ''p1'' ''ann'' 5, demo_row ''p2'' ''bob'' 7]\<rparr>,
     red := empty_redis\<lparr>r_str := (\<lambda>_. None)(delta_key [] ''p1'' ''like_count'' := Some (format_int 2, None)),
       r_set := (\<lambda>_. [])(dirty_key [] := [member_of ''p1'' ''like_count''])\<rparr>\<rparr>"

text \<open>The same world with a database that refuses everything.\<close>

definition demo_db_down :: world where
  "demo_db_down = demo_world\<lparr>outs := (\<lambda>_. sconst (Done, 0))(PG := sconst (Refused, 0))\<rparr>"

lemma demo_outcomes [simp]:
  "outcomes demo_world y = {Done}" "outcomes demo_db_down y = (if y = PG then {Refused} else {Done})"
  by (simp_all add: demo_world_def demo_db_down_def quiet_world_def outcomes_def)

lemma demo_posts [simp]:
  "t_posts (db demo_world) = [demo_row ''p1'' ''ann'' 5, demo_row ''p2'' ''bob'' 7]"
  "db demo_db_down = db demo_world" "red demo_db_down = red demo_world"
  "clock demo_db_down = clock demo_world"
  by (simp_all add: demo_world_def demo_db_down_def)

lemma demo_red:
  "r_str (red demo_world) = (\<lambda>_. None)(delta_key [] ''p1'' ''like_count'' := Some (format_int 2, None))"
  "r_set (red demo_world) (dirty_key []) = [member_of ''p1'' ''like_count'']"
  by (simp_all add: demo_world_def empty_redis_def)

lemma demo_deltas: "deltas_ok [] demo_world" "deltas_ok [] demo_db_down"
  by (auto simp: deltas_ok_def demo_red int64_ok_def intro!: exI [of _ 2])

lemma demo_counted:
  "counted demo_world j g \<longleftrightarrow> (j = ''p1'' \<or> j = ''p2'') \<and> (g = ''like_count'' \<or> g = ''shared_count'')"
  "counted demo_db_down = counted demo_world" "total_count demo_db_down = total_count demo_world"
  by (auto simp: counted_def counter_columns_def demo_row_def total_count_def stored_count_def
      find_post_def unflushed_def live_str_cong [of demo_db_down demo_world] fun_eq_iff)

lemma demo_unflushed:
  "plain g \<Longrightarrow> unflushed [] demo_world j g = (if j = ''p1'' \<and> g = ''like_count'' then 2 else 0)"
  by (auto simp: unflushed_def live_str_def demo_red delta_key_inj delta_text_def parse_format_int int64_ok_def)

lemma demo_int64: "counted demo_world j g \<Longrightarrow> int64_ok (total_count demo_world j g)"
  by (auto simp: demo_counted total_count_def demo_unflushed stored_count_def find_post_def column_def
      demo_row_def int64_ok_def)

lemma demo_split: "split_member (member_of ''p1'' ''like_count'') = Some (''p1'', ''like_count'')"
  by (simp add: split_member_of)

theorem bump_counter_counts_once_witness:
  "total_count (snd (run_state (bump_counter ''p1'' ''like_count'' 1) demo_world)) ''p1'' ''like_count'' =
   total_count demo_world ''p1'' ''like_count'' +
     (if fst (run_state (bump_counter ''p1'' ''like_count'' 1) demo_world) = Inr () \<and> ''p1'' = ''p1'' \<and>
         ''like_count'' = ''like_count'' then 1 else 0)"
  by (rule bump_counter_counts_once [OF surjective_pairing])
    (simp_all add: demo_deltas demo_counted)

theorem flush_conserves_counts_witness:
  "total_count (snd (run_state (flush [] pg_sink_add 500) demo_db_down)) ''p1'' ''like_count'' =
   total_count demo_db_down ''p1'' ''like_count''"
  by (rule flush_conserves_counts [OF surjective_pairing])
    (use demo_int64 in \<open>auto simp: demo_deltas demo_red demo_split demo_counted(2,3)\<close>,
     simp_all add: demo_counted)

theorem flush_settles_counts_witness:
  "snd (fst (run_state (flush [] pg_sink_add 500) demo_world)) = None \<and>
   unflushed [] (snd (run_state (flush [] pg_sink_add 500) demo_world)) ''p1'' ''like_count'' = 0 \<and>
   stored_count (snd (run_state (flush [] pg_sink_add 500) demo_world)) ''p1'' ''like_count'' =
     total_count demo_world ''p1'' ''like_count''"
proof (rule flush_settles_counts [OF surjective_pairing])
  show "member_of j g \<in> set (r_set (red demo_world) (dirty_key []))"
    if "counted demo_world j g" "unflushed [] demo_world j g \<noteq> 0" for j g
  proof -
    have "plain g" using that(1) by (auto simp: demo_counted)
    then show ?thesis using that(2) by (auto simp: demo_unflushed demo_red split: if_splits)
  qed
  show "\<exists>j g. m = member_of j g \<and> counted demo_world j g"
    if "m \<in> set (r_set (red demo_world) (dirty_key []))" for m
    using that by (auto simp: demo_red demo_counted)
qed (simp_all add: demo_deltas demo_red demo_int64, simp add: demo_counted)

theorem live_posts_in_order_witness:
  "map post_id [scan_post (demo_row ''p2'' ''bob'' 7)] =
     filter (\<lambda>i. \<exists>r\<in>set (t_posts (db demo_world)). p_id r = i \<and> live r) (rev (remdups (rev [''p2'', ''gone'', ''p2''])))"
proof -
  have "run_state (live_posts_by_id [''p2'', ''gone'', ''p2'']) demo_world =
      (Inr [scan_post (demo_row ''p2'' ''bob'' 7)], after_call PG demo_world)"
    by (simp add: live_posts_by_id_def run_simps ext_call_def reliable_next demo_row_def live_def scan_post_def)
  from live_posts_in_order [OF this] show ?thesis by blast
qed

definition reply_lost_world :: world where
  "reply_lost_world = demo_world\<lparr>outs := (\<lambda>_. sconst (Done, 0))(Redis := (Lost, 0) ## sconst (Done, 0))\<rparr>"

text \<open>C11. The limit of exactness: \<open>ErrNotRecorded\<close> is documented to mean that nothing is in Redis, but
  an \<open>INCRBY\<close> whose reply is lost did execute.  \<open>bumpCounter\<close> then writes the row as well, so one
  like counts twice.\<close>

theorem lost_reply_counts_twice:
  "total_count (snd (run_state (bump_counter ''p2'' ''like_count'' 1) reply_lost_world)) ''p2'' ''like_count''
     = total_count reply_lost_world ''p2'' ''like_count'' + 2"
proof -
  let ?k = "delta_key [] ''p2'' ''like_count''" and ?w1 = "after_call Redis reply_lost_world"
  have d: "deltas_ok [] reply_lost_world" and u: "unflushed [] reply_lost_world ''p2'' ''like_count'' = 0"
    using demo_deltas(1) demo_unflushed [of "''like_count''" "''p2''"] unflushed_cong [of "[]" demo_world reply_lost_world]
    by (simp_all add: reply_lost_world_def)
  have i1: "incr_str ?k 1 ?w1 = (Inr 1, put_str ?k (Some (format_int 1, None)) ?w1)"
    using incr_str_delta [of "[]" ?w1 "''p2''" "''like_count''" 1] d u by (simp add: int64_ok_def)
  let ?w2 = "put_str ?k (Some (format_int 1, None)) ?w1"
  let ?w3 = "upd_posts (update_where (\<lambda>r. p_id r = ''p2'') (add_column ''like_count'' 1)) (after_call PG ?w2)"
  have posts: "t_posts (db reply_lost_world) = t_posts (db demo_world)" by (simp add: reply_lost_world_def)
  have o1: "next_out Redis reply_lost_world = Lost" "next_out PG ?w2 = Done"
    by (simp_all add: next_out_def reply_lost_world_def)
  have w3: "snd (run_state (bump_counter ''p2'' ''like_count'' 1) reply_lost_world) = ?w3"
    using o1 i1 posts
    by (simp add: bump_counter_def incr_def run_simps redis_incr_by_def ext_call_def pg_sink_add_def
        counter_columns_def column_def demo_row_def int64_ok_def)
  have "stored_count ?w3 ''p2'' ''like_count'' = stored_count reply_lost_world ''p2'' ''like_count'' + 1"
    using posts by (simp add: stored_count_def find_post_def update_where_def demo_row_def add_column_def column_def)
  moreover have "unflushed [] ?w3 ''p2'' ''like_count'' = 1"
    by (simp add: unflushed_def live_str_def delta_text_def parse_format_int int64_ok_def)
  ultimately show ?thesis unfolding w3 by (simp add: total_count_def u)
qed

end
