(* ===== verification/Outbox.thy ===== *)
theory Outbox
  imports RedisStore
begin

text \<open>
  The outbox relay of \<open>shared/outbox/outbox.go\<close>: it moves pending records from a store to the
  broker.  The store is an argument (the field \<open>Store\<close> of the Go struct); what the relay relies
  on is the locale \<open>outbox_store\<close>, which \<open>OutboxPG\<close> interprets with \<open>PGStore\<close>.

  Durations are microseconds, as all times.
\<close>

section \<open>Records and configuration\<close>

record orec =
  q_id :: string
  q_topic :: string
  q_key :: string
  q_payload :: event
  q_attempts :: int

record relay =
  batch_size :: int
  relay_max_attempts :: int
  relay_base :: int
  relay_max :: int

definition relay_defaults :: "relay \<Rightarrow> relay" where
  "relay_defaults r =
     (let r = (if batch_size r \<le> 0 then r\<lparr>batch_size := 100\<rparr> else r);
          r = (if relay_base r \<le> 0 then r\<lparr>relay_base := 1000000\<rparr> else r);
          r = (if relay_max r \<le> 0 then r\<lparr>relay_max := 300000000\<rparr> else r)
      in r)"

text \<open>\<open>Backoff\<close>.  The Go code computes in floating point, which is exact here: a product of a
  whole number of nanoseconds below \<open>2^53\<close> and a power of two.\<close>

definition relay_backoff :: "relay \<Rightarrow> int \<Rightarrow> int" where
  "relay_backoff r0 attempts =
     (let r = relay_defaults r0;
          n = (if attempts < 1 then 1 else attempts);
          d = relay_base r * 2 ^ nat (n - 1)
      in if d > relay_max r then relay_max r else d)"

section \<open>The relay\<close>

type_synonym pend_fn = "int \<Rightarrow> int \<Rightarrow> orec list io"
type_synonym markp_fn = "string \<Rightarrow> unit io"
type_synonym markf_fn = "string \<Rightarrow> int \<Rightarrow> int \<Rightarrow> bool \<Rightarrow> unit io"

definition publish :: "string \<Rightarrow> string \<Rightarrow> event \<Rightarrow> unit io" where
  "publish topic key payload = ext_call Kafka (\<lambda>w. (Inr (), w\<lparr>bus := bus w @ [(topic, key, payload)]\<rparr>))"

definition relay_fail :: "markf_fn \<Rightarrow> relay \<Rightarrow> orec \<Rightarrow> unit io" where
  "relay_fail markf r rec =
     (let attempts = q_attempts rec + 1;
          dead = (relay_max_attempts r > 0 \<and> attempts \<ge> relay_max_attempts r)
      in Monad_Syntax.bind now (\<lambda>t.
         tryE (markf (q_id rec) attempts (t + relay_backoff r attempts) dead) (\<lambda>_. fail ErrPublishFailed)))"

definition publish_now :: "markp_fn \<Rightarrow> markf_fn \<Rightarrow> relay \<Rightarrow> ctx \<Rightarrow> orec \<Rightarrow> unit io" where
  "publish_now markp markf r c rec =
     handleE (publish (q_topic rec) (q_key rec) (q_payload rec))
       (\<lambda>_. Monad_Syntax.bind (ctx_err c) (\<lambda>d. if d then fail ErrIO else relay_fail markf r rec))
       (\<lambda>_. markp (q_id rec))"

text \<open>\<open>RunOnce\<close>: the counts \<open>(Published, Failed, Dead)\<close> and the error it stops with.\<close>

type_synonym pass_result = "(int \<times> int \<times> int) \<times> err option"

definition count_failure :: "relay \<Rightarrow> orec \<Rightarrow> int \<times> int \<times> int \<Rightarrow> int \<times> int \<times> int" where
  "count_failure r rec res = (case res of (p, f, d) \<Rightarrow>
     if relay_max_attempts r > 0 \<and> q_attempts rec + 1 \<ge> relay_max_attempts r
     then (p, f, d + 1) else (p, f + 1, d))"

definition relay_one :: "markp_fn \<Rightarrow> markf_fn \<Rightarrow> relay \<Rightarrow> ctx \<Rightarrow> orec \<Rightarrow> int \<times> int \<times> int
    \<Rightarrow> (int \<times> int \<times> int) io" where
  "relay_one markp markf r c rec res =
     Monad_Syntax.bind (ctx_err c) (\<lambda>stop.
       if stop then fail ErrIO
       else handleE (publish (q_topic rec) (q_key rec) (q_payload rec))
         (\<lambda>_. Monad_Syntax.bind (ctx_err c) (\<lambda>stop2.
            if stop2 then fail ErrIO
            else handleE (relay_fail markf r rec)
              (\<lambda>e. if e \<noteq> ErrPublishFailed then fail e else ret (count_failure r rec res))
              (\<lambda>_. ret (count_failure r rec res))))
         (\<lambda>_. tryE (markp (q_id rec)) (\<lambda>_. ret (fst res + 1, snd res))))"

fun relay_loop :: "markp_fn \<Rightarrow> markf_fn \<Rightarrow> relay \<Rightarrow> ctx \<Rightarrow> orec list \<Rightarrow> int \<times> int \<times> int
    \<Rightarrow> (world, pass_result) state" where
  "relay_loop markp markf r c [] res = State_Monad.return (res, None)"
| "relay_loop markp markf r c (rec # recs) res =
     Monad_Syntax.bind (relay_one markp markf r c rec res) (\<lambda>x. case x of
         Inl e \<Rightarrow> State_Monad.return (res, Some e)
       | Inr res' \<Rightarrow> relay_loop markp markf r c recs res')"

definition run_once :: "pend_fn \<Rightarrow> markp_fn \<Rightarrow> markf_fn \<Rightarrow> relay \<Rightarrow> ctx \<Rightarrow> (world, pass_result) state" where
  "run_once pend markp markf r0 c =
     (let r = relay_defaults r0 in
      Monad_Syntax.bind now (\<lambda>t.
      Monad_Syntax.bind (pend t (batch_size r)) (\<lambda>recs. case recs of
          Inl e \<Rightarrow> State_Monad.return ((0, 0, 0), Some e)
        | Inr rs \<Rightarrow> relay_loop markp markf r c rs (0, 0, 0))))"

section \<open>The retry delay\<close>

lemma relay_backoff_bounds:
  "0 < relay_backoff r n \<and> relay_backoff r n \<le> relay_max (relay_defaults r)"
  by (auto simp: relay_backoff_def Let_def relay_defaults_def)

lemma relay_backoff_mono:
  assumes "m \<le> n"
  shows "relay_backoff r m \<le> relay_backoff r n"
proof -
  let ?r = "relay_defaults r"
  let ?e = "\<lambda>n. if n < 1 then 1 else n :: int"
  have "(2::int) ^ nat (?e m - 1) \<le> 2 ^ nat (?e n - 1)"
    using assms by (intro power_increasing) auto
  moreover have "0 < relay_base ?r" by (auto simp: relay_defaults_def Let_def)
  ultimately have "relay_base ?r * 2 ^ nat (?e m - 1) \<le> relay_base ?r * 2 ^ nat (?e n - 1)"
    by (intro mult_left_mono) auto
  then show ?thesis unfolding relay_backoff_def Let_def by (auto split: if_splits)
qed

section \<open>What the store keeps\<close>

record oentry =
  e_topic :: string
  e_key :: string
  e_payload :: event
  e_status :: ostatus
  e_attempts :: int
  e_next :: int

type_synonym oview = "string \<Rightarrow> oentry option"

definition e_event :: "oentry \<Rightarrow> string \<times> string \<times> event" where
  "e_event e = (e_topic e, e_key e, e_payload e)"

definition set_pending :: "string \<Rightarrow> (oentry \<Rightarrow> oentry) \<Rightarrow> oview \<Rightarrow> oview" where
  "set_pending i f v = (\<lambda>j. if j = i
     then map_option (\<lambda>e. if e_status e = OPending then f e else e) (v j) else v j)"

definition failed_entry :: "int \<Rightarrow> int \<Rightarrow> bool \<Rightarrow> oentry \<Rightarrow> oentry" where
  "failed_entry a nxt dead e =
     e\<lparr>e_attempts := a, e_next := nxt, e_status := (if dead then ODead else OPending)\<rparr>"

text \<open>A claim only moves the due time of pending entries.\<close>

definition claimed :: "oview \<Rightarrow> oview \<Rightarrow> bool" where
  "claimed v v' \<longleftrightarrow> (\<forall>i. v' i = v i \<or>
     (\<exists>e n. v i = Some e \<and> e_status e = OPending \<and> v' i = Some (e\<lparr>e_next := n\<rparr>)))"

definition rec_of :: "string \<Rightarrow> oentry \<Rightarrow> orec" where
  "rec_of i e = \<lparr>q_id = i, q_topic = e_topic e, q_key = e_key e, q_payload = e_payload e,
     q_attempts = e_attempts e\<rparr>"

definition pg_call_only :: "world \<Rightarrow> world \<Rightarrow> bool" where
  "pg_call_only w w' \<longleftrightarrow> bus w' = bus w \<and> red w' = red w \<and> clock w \<le> clock w' \<and>
     (\<forall>y. y \<noteq> PG \<longrightarrow> outs w' y = outs w y) \<and> outcomes w' PG \<subseteq> outcomes w PG"

locale outbox_store =
  fixes pend :: pend_fn and markp :: markp_fn and markf :: markf_fn
    and view :: "world \<Rightarrow> oview"
    and inv :: "world \<Rightarrow> bool"
    and picks :: "int \<Rightarrow> int \<Rightarrow> world \<Rightarrow> string set"
  assumes pend_law: "inv w \<Longrightarrow> wp (pend t n) (\<lambda>r w'. pg_call_only w w' \<and> inv w' \<and> claimed (view w) (view w') \<and>
      (\<forall>recs. r = Inr recs \<longrightarrow> distinct (map q_id recs) \<and>
        (\<forall>rec\<in>set recs. \<exists>e. view w (q_id rec) = Some e \<and> e_status e = OPending \<and> e_next e \<le> t \<and>
           rec = rec_of (q_id rec) e)) \<and>
      (reliable PG w \<longrightarrow> (\<exists>recs. r = Inr recs \<and> q_id ` set recs = picks t n w))) w"
    and markp_law: "inv w \<Longrightarrow> wp (markp i) (\<lambda>r w'. pg_call_only w w' \<and> inv w' \<and>
      view w' \<in> {view w, set_pending i (\<lambda>e. e\<lparr>e_status := OPublished\<rparr>) (view w)} \<and>
      (r = Inr () \<longrightarrow> view w' = set_pending i (\<lambda>e. e\<lparr>e_status := OPublished\<rparr>) (view w)) \<and>
      (reliable PG w \<longrightarrow> r = Inr ())) w"
    and markf_law: "inv w \<Longrightarrow> wp (markf i a nxt dead) (\<lambda>r w'. pg_call_only w w' \<and> inv w' \<and>
      view w' \<in> {view w, set_pending i (failed_entry a nxt dead) (view w)} \<and>
      (r = Inr () \<longrightarrow> view w' = set_pending i (failed_entry a nxt dead) (view w)) \<and> r \<noteq> Inl ErrPublishFailed) w"
    and view_db: "db w' = db w \<Longrightarrow> oseq w' = oseq w \<Longrightarrow> view w' = view w \<and> inv w' = inv w"
begin

text \<open>How the entries evolve under the relay.\<close>

definition evolves :: "relay \<Rightarrow> world \<Rightarrow> world \<Rightarrow> bool" where
  "evolves r w w' \<longleftrightarrow> inv w' \<and> (\<exists>xs. bus w' = bus w @ xs) \<and> (\<forall>i. view w i = None \<longleftrightarrow> view w' i = None) \<and>
     (\<forall>i e e'. view w i = Some e \<longrightarrow> view w' i = Some e' \<longrightarrow>
        e_event e' = e_event e \<and>
        (e_status e \<noteq> OPending \<longrightarrow> e' = e) \<and>
        (e_status e' = OPublished \<longrightarrow> e_status e = OPublished \<or> e_event e \<in> set (bus w')) \<and>
        (e_status e' = ODead \<longrightarrow> e_status e = ODead \<or> 0 < relay_max_attempts r))"

lemma evolves_refl: "inv w \<Longrightarrow> evolves r w w"
  by (simp add: evolves_def)

lemma evolves_trans:
  assumes a: "evolves r w w1" and b: "evolves r w1 w2"
  shows "evolves r w w2"
proof -
  obtain xs ys where bus: "bus w1 = bus w @ xs" "bus w2 = bus w1 @ ys"
    using a b unfolding evolves_def by blast
  have none: "view w i = None \<longleftrightarrow> view w2 i = None" for i using a b by (simp add: evolves_def)
  have some: "e_event e2 = e_event e \<and> (e_status e \<noteq> OPending \<longrightarrow> e2 = e) \<and>
        (e_status e2 = OPublished \<longrightarrow> e_status e = OPublished \<or> e_event e \<in> set (bus w2)) \<and>
        (e_status e2 = ODead \<longrightarrow> e_status e = ODead \<or> 0 < relay_max_attempts r)"
    if "view w i = Some e" "view w2 i = Some e2" for i e e2
  proof -
    have "view w1 i \<noteq> None" using a that(1) unfolding evolves_def by (metis option.distinct(1))
    then obtain e1 where e1: "view w1 i = Some e1" by blast
    have A: "e_event e1 = e_event e" "e_status e \<noteq> OPending \<Longrightarrow> e1 = e"
      "e_status e1 = OPublished \<Longrightarrow> e_status e = OPublished \<or> e_event e \<in> set (bus w1)"
      "e_status e1 = ODead \<Longrightarrow> e_status e = ODead \<or> 0 < relay_max_attempts r"
      using a that(1) e1 unfolding evolves_def by blast+
    have B: "e_event e2 = e_event e1" "e_status e1 \<noteq> OPending \<Longrightarrow> e2 = e1"
      "e_status e2 = OPublished \<Longrightarrow> e_status e1 = OPublished \<or> e_event e1 \<in> set (bus w2)"
      "e_status e2 = ODead \<Longrightarrow> e_status e1 = ODead \<or> 0 < relay_max_attempts r"
      using b that(2) e1 unfolding evolves_def by blast+
    have sub: "set (bus w1) \<subseteq> set (bus w2)" using bus(2) by simp
    show ?thesis
    proof (cases "e_status e = OPending")
      case True
      then have "e_status e1 = OPublished \<Longrightarrow> e_event e \<in> set (bus w2)" using A(3) sub by auto
      then show ?thesis using True A(1,4) B by metis
    next
      case False
      with A(2) B(2) have "e2 = e" by simp
      then show ?thesis by simp
    qed
  qed
  show ?thesis unfolding evolves_def
  proof (intro conjI)
    show "inv w2" using b by (simp add: evolves_def)
    show "\<exists>xs. bus w2 = bus w @ xs" using bus by simp
    show "\<forall>i. (view w i = None) = (view w2 i = None)" using none by blast
  qed (use some in blast)
qed

lemma evolves_same:
  assumes "inv w'" "bus w' = bus w @ xs" "view w' = view w"
  shows "evolves r w w'"
  using assms unfolding evolves_def by auto

lemma evolves_set_pending:
  assumes "inv w'" "bus w' = bus w" "view w' \<in> {view w, set_pending i g (view w)}"
    and g: "\<And>e. view w i = Some e \<Longrightarrow> e_event (g e) = e_event e \<and>
        (e_status (g e) = OPublished \<longrightarrow> e_event e \<in> set (bus w)) \<and>
        (e_status (g e) = ODead \<longrightarrow> 0 < relay_max_attempts r)"
  shows "evolves r w w'"
proof (cases "view w' = view w")
  case True
  then show ?thesis using assms(1,2) by (intro evolves_same [of _ _ "[]"]) auto
next
  case False
  then have v: "view w' = set_pending i g (view w)" using assms(3) by simp
  have "e_event e' = e_event e \<and> (e_status e \<noteq> OPending \<longrightarrow> e' = e) \<and>
        (e_status e' = OPublished \<longrightarrow> e_status e = OPublished \<or> e_event e \<in> set (bus w')) \<and>
        (e_status e' = ODead \<longrightarrow> e_status e = ODead \<or> 0 < relay_max_attempts r)"
    if "view w j = Some e" "view w' j = Some e'" for j e e'
    using that g [of e] assms(2) unfolding v set_pending_def by (cases "j = i"; cases "e_status e"; auto)
  moreover have "view w j = None \<longleftrightarrow> view w' j = None" for j
    unfolding v set_pending_def by simp
  ultimately show ?thesis using assms(1,2) unfolding evolves_def by auto
qed

lemma evolves_claimed:
  assumes "inv w'" "bus w' = bus w" "claimed (view w) (view w')"
  shows "evolves r w w'"
proof -
  have "e_event e' = e_event e \<and> (e_status e \<noteq> OPending \<longrightarrow> e' = e) \<and>
        (e_status e' = OPublished \<longrightarrow> e_status e = OPublished \<or> e_event e \<in> set (bus w')) \<and>
        (e_status e' = ODead \<longrightarrow> e_status e = ODead \<or> 0 < relay_max_attempts r)"
    if "view w j = Some e" "view w' j = Some e'" for j e e'
    using assms(3) [unfolded claimed_def, rule_format, of j] that by (auto simp: e_event_def)
  moreover have "view w j = None \<longleftrightarrow> view w' j = None" for j
    using assms(3) [unfolded claimed_def, rule_format, of j] by auto
  ultimately show ?thesis using assms(1,2) unfolding evolves_def by auto
qed

lemma evolves_event:
  assumes "evolves r w w'" "view w i = Some e"
  shows "\<exists>e'. view w' i = Some e' \<and> e_event e' = e_event e"
  using assms unfolding evolves_def by (metis not_Some_eq)

lemma publish_evolves:
  assumes "inv w"
  shows "wp (publish t k p) (\<lambda>x w'. evolves r w w' \<and> view w' = view w \<and>
    (x = Inr () \<longrightarrow> (t, k, p) \<in> set (bus w')) \<and> outs w' PG = outs w PG \<and>
    outcomes w' Kafka \<subseteq> outcomes w Kafka \<and> (reliable Kafka w \<longrightarrow> x = Inr ())) w"
proof -
  let ?w1 = "after_call Kafka w" and ?w2 = "(after_call Kafka w)\<lparr>bus := bus w @ [(t, k, p)]\<rparr>"
  have v: "view ?w1 = view w" "inv ?w1" "view ?w2 = view w" "inv ?w2"
    using view_db [of ?w1 w] view_db [of ?w2 w] assms by simp_all
  then have "evolves r w ?w1" "evolves r w ?w2" by (auto intro!: evolves_same)
  moreover have "outcomes ?w2 Kafka = outcomes ?w1 Kafka" by (simp add: outcomes_def)
  ultimately show ?thesis
    using v outcomes_after_call [of Kafka w Kafka] reliable_next [of w Kafka]
    by (auto simp: publish_def wp_simps split: outcome.split)
qed

lemma markp_evolves:
  assumes "inv w" "\<And>e. view w i = Some e \<Longrightarrow> e_event e \<in> set (bus w)"
  shows "wp (markp i) (\<lambda>x w'. evolves r w w' \<and> pg_call_only w w' \<and> (reliable PG w \<longrightarrow> x = Inr ()) \<and>
    (x = Inr () \<longrightarrow> view w' = set_pending i (\<lambda>e. e\<lparr>e_status := OPublished\<rparr>) (view w))) w"
  using markp_law [OF assms(1), of i]
proof (rule wp_mono, elim conjE, intro conjI)
  fix x w'
  assume a: "pg_call_only w w'" "inv w'"
    "view w' \<in> {view w, set_pending i (\<lambda>e. e\<lparr>e_status := OPublished\<rparr>) (view w)}"
  show "evolves r w w'"
    using a assms(2) by (intro evolves_set_pending [OF a(2) _ a(3)]) (auto simp: pg_call_only_def e_event_def)
qed auto

lemma markf_evolves:
  assumes "inv w" "dead \<Longrightarrow> 0 < relay_max_attempts r"
  shows "wp (markf i a nxt dead) (\<lambda>x w'. evolves r w w' \<and> x \<noteq> Inl ErrPublishFailed) w"
  using markf_law [OF assms(1), of i a nxt dead]
proof (rule wp_mono, elim conjE, intro conjI)
  fix x w'
  assume a: "pg_call_only w w'" "inv w'" "view w' \<in> {view w, set_pending i (failed_entry a nxt dead) (view w)}"
  show "evolves r w w'"
    using a assms(2)
    by (intro evolves_set_pending [OF a(2) _ a(3)]) (auto simp: pg_call_only_def e_event_def failed_entry_def)
qed auto

lemma relay_fail_evolves:
  assumes "inv w"
  shows "wp (relay_fail markf r rec) (\<lambda>x w'. evolves r w w') w"
proof -
  define dead where "dead \<longleftrightarrow> relay_max_attempts r > 0 \<and> q_attempts rec + 1 \<ge> relay_max_attempts r"
  have "wp (markf (q_id rec) (q_attempts rec + 1) (clock w + relay_backoff r (q_attempts rec + 1)) dead)
      (\<lambda>x w'. evolves r w w' \<and> x \<noteq> Inl ErrPublishFailed) w"
    using assms by (rule markf_evolves) (simp add: dead_def)
  then have "wp (tryE (markf (q_id rec) (q_attempts rec + 1) (clock w + relay_backoff r (q_attempts rec + 1)) dead)
      (\<lambda>_. fail ErrPublishFailed)) (\<lambda>x w'. evolves r w w') w"
    by (rule wp_tryI) (auto simp: wp_ret)
  then show ?thesis by (simp add: relay_fail_def Let_def wp_bind wp_now dead_def)
qed

text \<open>A list of records is backed when each is an entry with the same event.\<close>

definition backed :: "world \<Rightarrow> orec list \<Rightarrow> bool" where
  "backed w recs \<longleftrightarrow> (\<forall>rec\<in>set recs. \<exists>e. view w (q_id rec) = Some e \<and>
     e_event e = (q_topic rec, q_key rec, q_payload rec))"

lemma backed_evolves: "backed w recs \<Longrightarrow> evolves r w w' \<Longrightarrow> backed w' recs"
  unfolding backed_def by (metis evolves_event)

lemma evolves_inv: "evolves r w w' \<Longrightarrow> inv w'"
  by (simp add: evolves_def)

lemma publish_mark_evolves:
  assumes "inv w" "backed w [rec]"
    and that: "\<And>e w1. evolves r w w1 \<Longrightarrow> wp (h e) (\<lambda>_ w'. evolves r w1 w') w1"
  shows "wp (handleE (publish (q_topic rec) (q_key rec) (q_payload rec)) h (\<lambda>_. markp (q_id rec)))
      (\<lambda>_ w'. evolves r w w') w"
proof (rule wp_handleI [OF publish_evolves [OF assms(1), of _ _ _ r]], goal_cases)
  case (1 x w1)
  obtain e where "view w (q_id rec) = Some e" "e_event e = (q_topic rec, q_key rec, q_payload rec)"
    using assms(2) by (auto simp: backed_def)
  with 1 have "wp (markp (q_id rec)) (\<lambda>x w'. evolves r w1 w') w1"
    by (intro wp_mono [OF markp_evolves [of w1 _ r]]) (auto dest: evolves_inv)
  then show ?case by (rule wp_mono) (use 1 evolves_trans in blast)
next
  case (2 e w1)
  then have ev: "evolves r w w1" by blast
  show ?case by (rule wp_mono [OF that [OF ev]]) (rule evolves_trans [OF ev])
qed

lemma relay_one_evolves:
  assumes "inv w" "backed w [rec]"
  shows "wp (relay_one markp markf r c rec res) (\<lambda>_ w'. evolves r w w') w"
proof -
  obtain e where e: "view w (q_id rec) = Some e" "e_event e = (q_topic rec, q_key rec, q_payload rec)"
    using assms(2) by (auto simp: backed_def)
  have "wp (handleE (publish (q_topic rec) (q_key rec) (q_payload rec))
            (\<lambda>_. Monad_Syntax.bind (ctx_err c) (\<lambda>stop2.
               if stop2 then fail ErrIO
               else handleE (relay_fail markf r rec)
                 (\<lambda>e. if e \<noteq> ErrPublishFailed then fail e else ret (count_failure r rec res))
                 (\<lambda>_. ret (count_failure r rec res))))
            (\<lambda>_. tryE (markp (q_id rec)) (\<lambda>_. ret (fst res + 1, snd res)))) (\<lambda>_ w'. evolves r w w') w"
  proof (rule wp_handleI [OF publish_evolves [OF assms(1), of _ _ _ r]], goal_cases)
    case (1 x w1)
    then have "wp (markp (q_id rec)) (\<lambda>x w'. evolves r w1 w') w1"
      by (intro wp_mono [OF markp_evolves [of w1 _ r]]) (use e in \<open>auto dest: evolves_inv\<close>)
    then show ?case by (rule wp_tryI) (use 1 evolves_trans in \<open>auto simp: wp_ret\<close>)
  next
    case (2 e w1)
    then have ev: "evolves r w w1" by blast
    have "wp (handleE (relay_fail markf r rec)
                 (\<lambda>e. if e \<noteq> ErrPublishFailed then fail e else ret (count_failure r rec res))
                 (\<lambda>_. ret (count_failure r rec res))) (\<lambda>_ w'. evolves r w w') w1"
      by (rule wp_handleI [OF relay_fail_evolves [OF evolves_inv [OF ev], of r]])
        (use evolves_trans [OF ev] in \<open>auto simp: wp_ret\<close>)
    then show ?case using ev by (simp add: wp_bind wp_ctx_err wp_ret)
  qed
  then show ?thesis using assms(1)
    by (simp add: relay_one_def wp_bind [of "ctx_err _"] wp_ctx_err wp_ret evolves_refl)
qed

lemma relay_loop_evolves:
  assumes "inv w" "backed w recs"
  shows "wp (relay_loop markp markf r c recs res) (\<lambda>_ w'. evolves r w w') w"
  using assms
proof (induction recs arbitrary: w res)
  case Nil
  then show ?case by (simp add: wp_ret evolves_refl)
next
  case (Cons rec recs)
  have b: "backed w [rec]" "backed w recs" using Cons.prems(2) by (auto simp: backed_def)
  show ?case unfolding relay_loop.simps
  proof (rule wp_bindI [OF relay_one_evolves [OF Cons.prems(1) b(1), of r]])
    fix x w1 assume ev: "evolves r w w1"
    have "wp (relay_loop markp markf r c recs res') (\<lambda>_ w'. evolves r w w') w1" for res'
      using Cons.IH [OF evolves_inv [OF ev] backed_evolves [OF b(2) ev]]
      by (rule wp_mono) (rule evolves_trans [OF ev])
    then show "wp (case x of Inl e \<Rightarrow> State_Monad.return (res, Some e)
       | Inr res' \<Rightarrow> relay_loop markp markf r c recs res') (\<lambda>_ w'. evolves r w w') w1"
      using ev by (auto simp: wp_ret split: sum.split)
  qed
qed

lemma run_once_evolves:
  assumes "inv w"
  shows "wp (run_once pend markp markf r c) (\<lambda>_ w'. evolves (relay_defaults r) w w') w"
proof -
  let ?r = "relay_defaults r"
  have "wp (pend (clock w) (batch_size ?r)) (\<lambda>x w'. evolves ?r w w' \<and>
      (\<forall>recs. x = Inr recs \<longrightarrow> backed w recs)) w"
    using pend_law [OF assms, of "clock w" "batch_size ?r"]
  proof (rule wp_mono, elim conjE, intro conjI)
    fix x w'
    assume a: "pg_call_only w w'" "inv w'" "claimed (view w) (view w')"
      and recs: "\<forall>recs. x = Inr recs \<longrightarrow> distinct (map q_id recs) \<and>
        (\<forall>rec\<in>set recs. \<exists>e. view w (q_id rec) = Some e \<and> e_status e = OPending \<and> e_next e \<le> clock w \<and>
           rec = rec_of (q_id rec) e)"
    show "evolves ?r w w'" using a by (intro evolves_claimed) (auto simp: pg_call_only_def)
    show "\<forall>recs. x = Inr recs \<longrightarrow> backed w recs"
    proof (intro allI impI)
      fix rs assume "x = Inr rs"
      with recs have "\<forall>rec\<in>set rs. \<exists>e. view w (q_id rec) = Some e \<and> rec = rec_of (q_id rec) e" by blast
      then show "backed w rs" unfolding backed_def rec_of_def e_event_def
        by (metis orec.select_convs(2-4))
    qed
  qed
  then have "wp (Monad_Syntax.bind (pend (clock w) (batch_size ?r)) (\<lambda>recs. case recs of
          Inl e \<Rightarrow> State_Monad.return ((0, 0, 0), Some e)
        | Inr rs \<Rightarrow> relay_loop markp markf ?r c rs (0, 0, 0))) (\<lambda>_ w'. evolves ?r w w') w"
  proof (rule wp_bindI, elim conjE)
    fix x :: "err + orec list" and w1 assume ev: "evolves ?r w w1" and b: "\<forall>recs. x = Inr recs \<longrightarrow> backed w recs"
    have "wp (relay_loop markp markf ?r c rs res) (\<lambda>_ w'. evolves ?r w w') w1" if "x = Inr rs" for rs res
      using relay_loop_evolves [OF evolves_inv [OF ev] backed_evolves [OF _ ev]] b that
      by (blast intro: wp_mono evolves_trans [OF ev])
    then show "wp (case x of Inl e \<Rightarrow> State_Monad.return ((0, 0, 0), Some e)
        | Inr rs \<Rightarrow> relay_loop markp markf ?r c rs (0, 0, 0)) (\<lambda>_ w'. evolves ?r w w') w1"
      using ev by (auto simp: wp_ret split: sum.split)
  qed
  then show ?thesis by (simp add: run_once_def Let_def wp_bind wp_now)
qed

lemma publish_now_evolves:
  assumes "inv w" "backed w [rec]"
  shows "wp (publish_now markp markf r c rec) (\<lambda>_ w'. evolves r w w') w"
  unfolding publish_now_def
proof (rule publish_mark_evolves [OF assms])
  fix e w1 assume ev: "evolves r w w1"
  show "wp (Monad_Syntax.bind (ctx_err c) (\<lambda>d. if d then fail ErrIO else relay_fail markf r rec))
      (\<lambda>_ w'. evolves r w1 w') w1"
    using evolves_inv [OF ev] relay_fail_evolves [of w1 r rec]
    by (simp add: wp_bind wp_ctx_err wp_ret evolves_refl)
qed

text \<open>With broker and database up, one pass publishes every record that was due.\<close>

definition sending :: "world \<Rightarrow> bool" where
  "sending w \<longleftrightarrow> reliable PG w \<and> reliable Kafka w"

lemma pg_call_sending:
  assumes "pg_call_only w w'" "sending w"
  shows "sending w'"
proof -
  have "outcomes w' Kafka = outcomes w Kafka" "outcomes w' PG \<subseteq> outcomes w PG"
    using assms(1) by (simp_all add: pg_call_only_def outcomes_def)
  then show ?thesis using assms(2) unfolding sending_def by blast
qed

lemma relay_one_publishes:
  assumes "inv w" "backed w [rec]" "sending w"
  shows "wp (relay_one markp markf r None rec res) (\<lambda>x w'. x = Inr (fst res + 1, snd res) \<and> evolves r w w' \<and>
    sending w' \<and> view w' = set_pending (q_id rec) (\<lambda>e. e\<lparr>e_status := OPublished\<rparr>) (view w)) w"
proof -
  obtain e where e: "view w (q_id rec) = Some e" "e_event e = (q_topic rec, q_key rec, q_payload rec)"
    using assms(2) by (auto simp: backed_def)
  have "wp (publish (q_topic rec) (q_key rec) (q_payload rec)) (\<lambda>x w1. x = Inr () \<and> evolves r w w1 \<and>
      view w1 = view w \<and> e_event e \<in> set (bus w1) \<and> sending w1) w"
    using publish_evolves [OF assms(1), of _ _ _ r]
  proof (rule wp_mono, elim conjE, intro conjI)
    fix x w1
    assume "outs w1 PG = outs w PG" "outcomes w1 Kafka \<subseteq> outcomes w Kafka"
    then show "sending w1" using assms(3) outcomes_cong [of w1 PG w] unfolding sending_def by blast
  qed (use e assms(3) in \<open>auto simp: sending_def\<close>)
  then have "wp (handleE (publish (q_topic rec) (q_key rec) (q_payload rec)) h
      (\<lambda>_. tryE (markp (q_id rec)) (\<lambda>_. ret (fst res + 1, snd res))))
    (\<lambda>x w'. x = Inr (fst res + 1, snd res) \<and> evolves r w w' \<and> sending w' \<and>
      view w' = set_pending (q_id rec) (\<lambda>e. e\<lparr>e_status := OPublished\<rparr>) (view w)) w" for h
  proof (rule wp_handleI, goal_cases)
    case (1 x w1)
    then have ev: "evolves r w w1" and v: "view w1 = view w" and s: "sending w1" by blast+
    have "wp (markp (q_id rec)) (\<lambda>x w'. evolves r w1 w' \<and> pg_call_only w1 w' \<and> (reliable PG w1 \<longrightarrow> x = Inr ()) \<and>
      (x = Inr () \<longrightarrow> view w' = set_pending (q_id rec) (\<lambda>e. e\<lparr>e_status := OPublished\<rparr>) (view w1))) w1"
      using 1 e by (intro markp_evolves) (auto dest: evolves_inv)
    then have "wp (markp (q_id rec)) (\<lambda>x w'. x = Inr () \<and> evolves r w w' \<and> sending w' \<and>
      view w' = set_pending (q_id rec) (\<lambda>e. e\<lparr>e_status := OPublished\<rparr>) (view w)) w1"
    proof (rule wp_mono, elim conjE, intro conjI)
      fix x w' assume "pg_call_only w1 w'"
      then show "sending w'" using s by (rule pg_call_sending)
    qed (use s v evolves_trans [OF ev] in \<open>auto simp: sending_def\<close>)
    then show ?case by (rule wp_tryI) (auto simp: wp_ret)
  qed simp
  then show ?thesis by (simp add: relay_one_def wp_bind [of "ctx_err _"] wp_ctx_err)
qed

lemma relay_loop_publishes:
  assumes "inv w" "backed w recs" "sending w"
  shows "wp (relay_loop markp markf r None recs res) (\<lambda>x w'. x = ((fst res + int (length recs), snd res), None) \<and>
    evolves r w w' \<and> (\<forall>i e. view w i = Some e \<longrightarrow> e_status e = OPending \<longrightarrow> i \<in> q_id ` set recs \<longrightarrow>
      (\<exists>e'. view w' i = Some e' \<and> e_status e' = OPublished))) w"
  using assms
proof (induction recs arbitrary: w res)
  case Nil
  then show ?case by (simp add: wp_ret evolves_refl)
next
  case (Cons rec recs)
  have b: "backed w [rec]" "backed w recs" using Cons.prems(2) by (auto simp: backed_def)
  show ?case unfolding relay_loop.simps
  proof (rule wp_bindI [OF relay_one_publishes [OF Cons.prems(1) b(1) Cons.prems(3), of r]], elim conjE)
    fix x :: "err + int \<times> int \<times> int" and w1
    assume x: "x = Inr (fst res + 1, snd res)" and ev: "evolves r w w1" and s: "sending w1"
      and v: "view w1 = set_pending (q_id rec) (\<lambda>e. e\<lparr>e_status := OPublished\<rparr>) (view w)"
    let ?res = "(fst res + 1, snd res)"
    have "wp (relay_loop markp markf r None recs ?res)
       (\<lambda>x w'. x = ((fst res + int (length (rec # recs)), snd res), None) \<and>
          evolves r w w' \<and> (\<forall>i e. view w i = Some e \<longrightarrow> e_status e = OPending \<longrightarrow> i \<in> q_id ` set (rec # recs) \<longrightarrow>
          (\<exists>e'. view w' i = Some e' \<and> e_status e' = OPublished))) w1"
      using Cons.IH [OF evolves_inv [OF ev] backed_evolves [OF b(2) ev] s, of ?res]
    proof (rule wp_mono, elim conjE, intro conjI allI impI)
      fix y w' i e
      assume ev': "evolves r w1 w'" and i: "view w i = Some e" "e_status e = OPending" "i \<in> q_id ` set (rec # recs)"
        and rest: "\<forall>i e. view w1 i = Some e \<longrightarrow> e_status e = OPending \<longrightarrow> i \<in> q_id ` set recs \<longrightarrow>
          (\<exists>e'. view w' i = Some e' \<and> e_status e' = OPublished)"
      show "\<exists>e'. view w' i = Some e' \<and> e_status e' = OPublished"
      proof (cases "i = q_id rec")
        case True
        let ?e1 = "e\<lparr>e_status := OPublished\<rparr>"
        have e1: "view w1 i = Some ?e1" using v i(1,2) True by (simp add: set_pending_def)
        obtain e' where e': "view w' i = Some e'" using evolves_event [OF ev' e1] by blast
        have "e' = ?e1" using ev' e1 e' unfolding evolves_def
          by (metis oentry.select_convs(4) oentry.surjective oentry.update_convs(4) ostatus.distinct(1))
        then show ?thesis using e' by simp
      next
        case False
        then have "view w1 i = Some e" using v i(1) by (simp add: set_pending_def)
        then show ?thesis using rest i False by auto
      qed
    qed (use evolves_trans [OF ev] in auto)
    then show "wp (case x of Inl e \<Rightarrow> State_Monad.return (res, Some e)
       | Inr res' \<Rightarrow> relay_loop markp markf r None recs res')
       (\<lambda>x w'. x = ((fst res + int (length (rec # recs)), snd res), None) \<and>
          evolves r w w' \<and> (\<forall>i e. view w i = Some e \<longrightarrow> e_status e = OPending \<longrightarrow> i \<in> q_id ` set (rec # recs) \<longrightarrow>
          (\<exists>e'. view w' i = Some e' \<and> e_status e' = OPublished))) w1"
      by (simp add: x)
  qed
qed

text \<open>\<open>picks t n w\<close>: the records that \<open>Pending t n\<close> selects in the world \<open>w\<close>.\<close>

lemma run_once_publishes:
  fixes r :: relay
  defines "\<And>w. chosen w \<equiv> picks (clock w) (batch_size (relay_defaults r)) w"
  assumes "inv w" "sending w"
  shows "wp (run_once pend markp markf r None) (\<lambda>x w'. x = ((int (card (chosen w)), 0, 0), None) \<and>
    (\<forall>i\<in>chosen w. \<exists>e'. view w' i = Some e' \<and> e_status e' = OPublished)) w"
proof -
  let ?r = "relay_defaults r"
  have "wp (pend (clock w) (batch_size ?r)) (\<lambda>x w'. evolves ?r w w' \<and> sending w' \<and> claimed (view w) (view w') \<and>
      (\<exists>recs. x = Inr recs \<and> backed w recs \<and> chosen w = q_id ` set recs \<and> card (chosen w) = length recs \<and>
        (\<forall>i\<in>chosen w. \<exists>e. view w i = Some e \<and> e_status e = OPending))) w"
    using pend_law [OF assms(2), of "clock w" "batch_size ?r"]
  proof (rule wp_mono, elim conjE, intro conjI)
    fix x w'
    assume a: "pg_call_only w w'" "inv w'" "claimed (view w) (view w')"
      and recs: "\<forall>recs. x = Inr recs \<longrightarrow> distinct (map q_id recs) \<and>
        (\<forall>rec\<in>set recs. \<exists>e. view w (q_id rec) = Some e \<and> e_status e = OPending \<and> e_next e \<le> clock w \<and>
           rec = rec_of (q_id rec) e)"
      and all: "reliable PG w \<longrightarrow> (\<exists>recs. x = Inr recs \<and> q_id ` set recs = picks (clock w) (batch_size ?r) w)"
    show "evolves ?r w w'" using a by (intro evolves_claimed) (auto simp: pg_call_only_def)
    show "sending w'" using a(1) assms(3) by (rule pg_call_sending)
    obtain rs where x: "x = Inr rs" and cov: "chosen w = q_id ` set rs"
      using all assms(3) unfolding sending_def chosen_def by blast
    from recs x have rs: "\<forall>rec\<in>set rs. \<exists>e. view w (q_id rec) = Some e \<and> e_status e = OPending \<and> e_next e \<le> clock w \<and>
           rec = rec_of (q_id rec) e" and dist: "distinct (map q_id rs)" by blast+
    have "card (chosen w) = length rs" using distinct_card [OF dist] cov by simp
    moreover have "backed w rs" unfolding backed_def
    proof
      fix rec assume "rec \<in> set rs"
      with rs obtain e where "view w (q_id rec) = Some e" "rec = rec_of (q_id rec) e" by blast
      then show "\<exists>e. view w (q_id rec) = Some e \<and> e_event e = (q_topic rec, q_key rec, q_payload rec)"
        by (metis e_event_def orec.select_convs(2-4) rec_of_def)
    qed
    moreover have "\<forall>i\<in>chosen w. \<exists>e. view w i = Some e \<and> e_status e = OPending" unfolding cov using rs by blast
    ultimately show "\<exists>recs. x = Inr recs \<and> backed w recs \<and> chosen w = q_id ` set recs \<and> card (chosen w) = length recs \<and>
        (\<forall>i\<in>chosen w. \<exists>e. view w i = Some e \<and> e_status e = OPending)" using x cov by blast
  qed (assumption)
  then have "wp (Monad_Syntax.bind (pend (clock w) (batch_size ?r)) (\<lambda>recs. case recs of
          Inl e \<Rightarrow> State_Monad.return ((0, 0, 0), Some e)
        | Inr rs \<Rightarrow> relay_loop markp markf ?r None rs (0, 0, 0)))
     (\<lambda>x w'. x = ((int (card (chosen w)), 0, 0), None) \<and>
       (\<forall>i\<in>chosen w. \<exists>e'. view w' i = Some e' \<and> e_status e' = OPublished)) w"
  proof (rule wp_bindI, elim conjE exE)
    fix x :: "err + orec list" and w1 recs
    assume ev: "evolves ?r w w1" and s: "sending w1" and c: "claimed (view w) (view w1)"
      and x: "x = Inr recs" and b: "backed w recs" and cov: "chosen w = q_id ` set recs"
      and len: "card (chosen w) = length recs"
      and pend: "\<forall>i\<in>chosen w. \<exists>e. view w i = Some e \<and> e_status e = OPending"
    have pend1: "\<exists>e1. view w1 i = Some e1 \<and> e_status e1 = OPending" if "i \<in> chosen w" for i
      using that pend c [unfolded claimed_def, rule_format, of i] by auto
    have "wp (relay_loop markp markf ?r None recs (0, 0, 0)) (\<lambda>x w'. x = ((int (card (chosen w)), 0, 0), None) \<and>
       (\<forall>i\<in>chosen w. \<exists>e'. view w' i = Some e' \<and> e_status e' = OPublished)) w1"
      using relay_loop_publishes [OF evolves_inv [OF ev] backed_evolves [OF b ev] s, of ?r "(0, 0, 0)"]
    proof (rule wp_mono, elim conjE, intro conjI ballI)
      fix y w' i
      assume i: "i \<in> chosen w" and all: "\<forall>i e. view w1 i = Some e \<longrightarrow> e_status e = OPending \<longrightarrow> i \<in> q_id ` set recs \<longrightarrow>
        (\<exists>e'. view w' i = Some e' \<and> e_status e' = OPublished)"
      with pend1 [OF i] cov show "\<exists>e'. view w' i = Some e' \<and> e_status e' = OPublished" by blast
    qed (simp add: len)
    then show "wp (case x of Inl e \<Rightarrow> State_Monad.return ((0, 0, 0), Some e)
        | Inr rs \<Rightarrow> relay_loop markp markf ?r None rs (0, 0, 0))
       (\<lambda>x w'. x = ((int (card (chosen w)), 0, 0), None) \<and>
         (\<forall>i\<in>chosen w. \<exists>e'. view w' i = Some e' \<and> e_status e' = OPublished)) w1"
      by (simp add: x)
  qed
  then show ?thesis by (simp add: run_once_def Let_def wp_bind wp_now)
qed

end

end
