(* ===== verification/OutboxPG.thy ===== *)
theory OutboxPG
  imports Outbox
begin

text \<open>
  \<open>shared/outbox/pgstore.go\<close>: the outbox table.  \<open>Enqueue\<close> runs in the caller's transaction;
  \<open>Pending\<close> claims rows by moving their due time to the end of a lease.  Row ids are decimal
  text in a \<open>Record\<close>, as in the code.
\<close>

definition upd_outbox :: "(outbox_row list \<Rightarrow> outbox_row list) \<Rightarrow> world \<Rightarrow> world" where
  "upd_outbox f = upd_db (\<lambda>d. d\<lparr>t_outbox := f (t_outbox d)\<rparr>)"

definition outbox_rec :: "outbox_row \<Rightarrow> orec" where
  "outbox_rec r = \<lparr>q_id = format_int (o_id r), q_topic = o_topic r, q_key = o_key r,
     q_payload = o_payload r, q_attempts = o_attempts r\<rparr>"

definition enqueue :: "string \<Rightarrow> string \<Rightarrow> string \<Rightarrow> string \<Rightarrow> event \<Rightarrow> int \<Rightarrow> orec io" where
  "enqueue agg_type agg topic key payload not_before = ext_call PG (\<lambda>w.
     let row = \<lparr>o_id = oseq w + 1, o_agg_type = agg_type, o_agg = agg, o_topic = topic, o_key = key,
           o_payload = payload, o_at = clock w, o_status = OPending, o_attempts = 0,
           o_next = not_before, o_published_at = None\<rparr>
     in (Inr (outbox_rec row), upd_outbox (\<lambda>rows. rows @ [row]) (w\<lparr>oseq := oseq w + 1\<rparr>)))"

definition lease_of :: "int \<Rightarrow> int" where
  "lease_of l = (if l \<le> 0 then 120000000 else l)"

definition row_due :: "int \<Rightarrow> outbox_row \<Rightarrow> bool" where
  "row_due t r \<longleftrightarrow> o_status r = OPending \<and> o_next r \<le> t"

definition due_ids :: "int \<Rightarrow> int \<Rightarrow> outbox_row list \<Rightarrow> int set" where
  "due_ids t limit rows = o_id ` set (take (nat limit) (sort_key o_id (filter (row_due t) rows)))"

definition pg_pending :: "int \<Rightarrow> pend_fn" where
  "pg_pending lease t limit = ext_call PG (\<lambda>w.
     let ids = due_ids t limit (t_outbox (db w));
         rows = update_where (\<lambda>r. o_id r \<in> ids) (\<lambda>r. r\<lparr>o_next := t + lease_of lease\<rparr>) (t_outbox (db w))
     in (Inr (map outbox_rec (sort_key o_id (filter (\<lambda>r. o_id r \<in> ids) rows))), upd_outbox (\<lambda>_. rows) w))"

definition pending_with_id :: "string \<Rightarrow> outbox_row \<Rightarrow> bool" where
  "pending_with_id i r \<longleftrightarrow> format_int (o_id r) = i \<and> o_status r = OPending"

definition pg_mark_published :: markp_fn where
  "pg_mark_published i = ext_call PG (\<lambda>w. (Inr (), upd_outbox (update_where (pending_with_id i)
     (\<lambda>r. r\<lparr>o_status := OPublished, o_published_at := Some (clock w)\<rparr>)) w))"

definition pg_mark_failed :: markf_fn where
  "pg_mark_failed i attempts nxt dead = ext_call PG (\<lambda>w. (Inr (), upd_outbox (update_where (pending_with_id i)
     (\<lambda>r. r\<lparr>o_attempts := attempts, o_next := nxt, o_status := (if dead then ODead else OPending)\<rparr>)) w))"

text \<open>\<open>Prune\<close>; SQL leaves open which rows a \<open>LIMIT\<close> without an order picks: here the first.\<close>

definition prunable :: "int \<Rightarrow> outbox_row \<Rightarrow> bool" where
  "prunable t r \<longleftrightarrow> o_status r = OPublished \<and> (case o_published_at r of None \<Rightarrow> False | Some at1 \<Rightarrow> at1 < t)"

definition pg_prune :: "int \<Rightarrow> int \<Rightarrow> int io" where
  "pg_prune retention batch = ext_call PG (\<lambda>w.
     let ids = o_id ` set (take (nat batch) (filter (prunable (clock w - retention)) (t_outbox (db w))))
     in (Inr (int (count_where (\<lambda>r. o_id r \<in> ids) (t_outbox (db w)))),
         upd_outbox (filter (\<lambda>r. o_id r \<notin> ids)) w))"

text \<open>\<open>Backlog\<close>: pending rows, dead rows and the age of the oldest pending one.\<close>

definition pg_backlog :: "(int \<times> int \<times> int) io" where
  "pg_backlog = ext_call PG (\<lambda>w.
     let rows = t_outbox (db w); pend = filter (\<lambda>r. o_status r = OPending) rows
     in (Inr (int (length pend), int (count_where (\<lambda>r. o_status r = ODead) rows),
              if pend = [] then 0 else clock w - foldl min (o_at (hd pend)) (map o_at pend)), w))"

section \<open>The table keeps the contract of the relay\<close>

definition outbox_entry :: "outbox_row \<Rightarrow> oentry" where
  "outbox_entry r = \<lparr>e_topic = o_topic r, e_key = o_key r, e_payload = o_payload r,
     e_status = o_status r, e_attempts = o_attempts r, e_next = o_next r\<rparr>"

definition row_text :: "outbox_row \<Rightarrow> string" where
  "row_text r = format_int (o_id r)"

definition outbox_view :: "world \<Rightarrow> oview" where
  "outbox_view w i = map_option outbox_entry (find (\<lambda>r. row_text r = i) (t_outbox (db w)))"

definition outbox_wf :: "world \<Rightarrow> bool" where
  "outbox_wf w \<longleftrightarrow> distinct (map o_id (t_outbox (db w))) \<and> (\<forall>r\<in>set (t_outbox (db w)). o_id r \<le> oseq w)"

lemma outbox_upd [simp]:
  "t_outbox (db (upd_outbox f w)) = f (t_outbox (db w))" "bus (upd_outbox f w) = bus w"
  "red (upd_outbox f w) = red w" "outs (upd_outbox f w) = outs w" "clock (upd_outbox f w) = clock w"
  "oseq (upd_outbox f w) = oseq w" "next_out y (upd_outbox f w) = next_out y w"
  "outcomes (upd_outbox f w) y = outcomes w y"
  by (simp_all add: upd_outbox_def)

lemma pg_call_only_steps:
  "pg_call_only w (after_call PG w)" "pg_call_only w (upd_outbox f (after_call PG w))"
  using outcomes_after_call [of PG w PG] by (auto simp: pg_call_only_def clock_after_call)

lemma row_text_inj: "row_text r = row_text r' \<longleftrightarrow> o_id r = o_id r'"
  by (simp add: row_text_def format_int_inj)

lemma view_row:
  assumes "outbox_wf w" "r \<in> set (t_outbox (db w))"
  shows "outbox_view w (row_text r) = Some (outbox_entry r)"
proof -
  obtain r' where r': "find (\<lambda>x. row_text x = row_text r) (t_outbox (db w)) = Some r'"
    "r' \<in> set (t_outbox (db w))" "row_text r' = row_text r"
    using find_key [of "row_text r" row_text "t_outbox (db w)"] assms(2) by blast
  have "inj_on o_id (set (t_outbox (db w)))" using assms(1) by (simp add: outbox_wf_def distinct_map)
  then have "r' = r" by (rule inj_onD) (use r'(2,3) assms(2) in \<open>simp_all add: row_text_inj\<close>)
  with r' show ?thesis by (simp add: outbox_view_def)
qed

lemma view_SomeD:
  assumes "outbox_view w i = Some e"
  obtains r where "r \<in> set (t_outbox (db w))" "row_text r = i" "e = outbox_entry r"
proof -
  from assms obtain r where r: "find (\<lambda>r. row_text r = i) (t_outbox (db w)) = Some r" "e = outbox_entry r"
    by (auto simp: outbox_view_def)
  from find_in_set [OF r(1)] r(2) show ?thesis by (intro that) auto
qed

lemma outbox_wf_update:
  assumes "outbox_wf w" "\<And>r. o_id (f r) = o_id r"
  shows "outbox_wf (upd_outbox (update_where P f) w)"
  using assms by (auto simp: outbox_wf_def map_update_where set_update_where)

lemma find_update_rows:
  assumes "\<And>r. key (f r) = key r"
  shows "find (\<lambda>r. key r = i) (update_where P f rows) =
    map_option (\<lambda>r. if P r then f r else r) (find (\<lambda>r. key r = i) rows)"
  using assms by (induction rows) (auto simp: update_where_def)

lemma view_update:
  assumes "\<And>r. o_id (f r) = o_id r"
  shows "outbox_view (upd_outbox (update_where P f) w) i =
    map_option (\<lambda>r. outbox_entry (if P r then f r else r)) (find (\<lambda>r. row_text r = i) (t_outbox (db w)))"
  using assms find_update_rows [of row_text f i P]
  by (simp add: outbox_view_def row_text_def option.map_comp comp_def)

lemma view_mark:
  assumes "\<And>r. o_id (f r) = o_id r" "\<And>r. o_status r = OPending \<Longrightarrow> outbox_entry (f r) = g (outbox_entry r)"
  shows "outbox_view (upd_outbox (update_where (pending_with_id i) f) w) = set_pending i g (outbox_view w)"
proof
  fix j
  have lhs: "outbox_view (upd_outbox (update_where (pending_with_id i) f) w) j =
      map_option (\<lambda>r. outbox_entry (if pending_with_id i r then f r else r)) (find (\<lambda>r. row_text r = j) (t_outbox (db w)))"
    using assms(1) by (rule view_update)
  show "outbox_view (upd_outbox (update_where (pending_with_id i) f) w) j = set_pending i g (outbox_view w) j"
  proof (cases "find (\<lambda>r. row_text r = j) (t_outbox (db w))")
    case None
    then show ?thesis unfolding lhs by (auto simp: set_pending_def outbox_view_def)
  next
    case (Some r)
    have "row_text r = j" using find_in_set [OF Some] by simp
    with Some show ?thesis using assms(2) unfolding lhs
      by (auto simp: set_pending_def outbox_view_def pending_with_id_def row_text_def outbox_entry_def)
  qed
qed

lemma due_ids_due:
  assumes "i \<in> due_ids t n rows"
  shows "\<exists>r\<in>set rows. o_id r = i \<and> row_due t r"
proof -
  obtain r where r: "r \<in> set (take (nat n) (sort_key o_id (filter (row_due t) rows)))" "o_id r = i"
    using assms unfolding due_ids_def by blast
  from in_set_takeD [OF r(1)] have "r \<in> set rows" "row_due t r" by simp_all
  with r(2) show ?thesis by blast
qed

lemma length_filter_take: "length (filter P (take k xs)) \<le> length (filter P xs)"
  by (metis append_take_drop_id filter_append le_add1 length_append)

lemma due_ids_first:
  assumes "distinct (map o_id rows)" "r \<in> set rows" "row_due t r"
    and "count_where (\<lambda>x. row_due t x \<and> o_id x < o_id r) rows < nat n"
  shows "o_id r \<in> due_ids t n rows"
proof -
  let ?s = "sort_key o_id (filter (row_due t) rows)"
  have ms: "mset (map o_id ?s) = mset (map o_id (filter (row_due t) rows))" by simp
  have d: "distinct (map o_id ?s)"
    using assms(1) distinct_map_filter mset_eq_imp_distinct_iff [OF ms] by blast
  have "r \<in> set ?s" using assms(2,3) by simp
  then obtain k where k: "k < length ?s" "?s ! k = r" unfolding in_set_conv_nth [of r ?s] by blast
  have less: "o_id x < o_id r" if x: "x \<in> set (take k ?s)" for x
  proof -
    obtain j where j: "j < k" "x = ?s ! j"
      using x k(1) unfolding in_set_conv_nth [of x "take k ?s"] by fastforce
    have "o_id (?s ! j) \<le> o_id (?s ! k)"
      using sorted_nth_mono [OF sorted_sort_key, of j k o_id "filter (row_due t) rows"] j(1) k(1) by simp
    moreover have "map o_id ?s ! j \<noteq> map o_id ?s ! k"
      using nth_eq_iff_index_eq [OF d, of j k] j(1) k(1) by simp
    ultimately show ?thesis using j k by simp
  qed
  let ?lt = "\<lambda>x. o_id x < o_id r"
  have "k = length (filter ?lt (take k ?s))" using less k(1) by (simp add: filter_True)
  also have "\<dots> \<le> length (filter ?lt ?s)"
    by (rule length_filter_take)
  also have "length (filter ?lt ?s) = length (filter ?lt (filter (row_due t) rows))"
    by (metis mset_filter mset_sort size_mset)
  also have "\<dots> = count_where (\<lambda>x. row_due t x \<and> o_id x < o_id r) rows" by (simp add: count_where_def)
  finally have "k < nat n" using assms(4) by simp
  then have "r \<in> set (take (nat n) ?s)" using k by (metis in_set_conv_nth length_take min_less_iff_conj nth_take)
  then show ?thesis unfolding due_ids_def by blast
qed

lemma due_ids_card:
  assumes "distinct (map o_id rows)"
  shows "card (due_ids t n rows) = min (nat n) (count_where (row_due t) rows)"
proof -
  let ?s = "sort_key o_id (filter (row_due t) rows)"
  have ms: "mset (map o_id ?s) = mset (map o_id (filter (row_due t) rows))" by simp
  have "distinct (map o_id ?s)"
    using assms distinct_map_filter mset_eq_imp_distinct_iff [OF ms] by blast
  then have d: "distinct (map o_id (take (nat n) ?s))" by (simp add: take_map [symmetric])
  show ?thesis using distinct_card [OF d] by (simp add: due_ids_def count_where_def min.commute)
qed

definition claim_rows :: "int \<Rightarrow> int \<Rightarrow> int \<Rightarrow> outbox_row list \<Rightarrow> outbox_row list" where
  "claim_rows lease t n rows =
     update_where (\<lambda>r. o_id r \<in> due_ids t n rows) (\<lambda>r. r\<lparr>o_next := t + lease_of lease\<rparr>) rows"

definition claim_recs :: "int \<Rightarrow> int \<Rightarrow> int \<Rightarrow> outbox_row list \<Rightarrow> orec list" where
  "claim_recs lease t n rows = map outbox_rec
     (sort_key o_id (filter (\<lambda>r. o_id r \<in> due_ids t n rows) (claim_rows lease t n rows)))"

lemma pg_pending_run:
  "pg_pending lease t n = ext_call PG (\<lambda>w. (Inr (claim_recs lease t n (t_outbox (db w))),
     upd_outbox (\<lambda>_. claim_rows lease t n (t_outbox (db w))) w))"
  by (simp add: pg_pending_def claim_rows_def claim_recs_def Let_def)

lemma claim_ids: "map o_id (claim_rows lease t n rows) = map o_id rows"
  by (simp add: claim_rows_def map_update_where)

lemma claim_recs_rows:
  "q \<in> set (claim_recs lease t n rows) \<longleftrightarrow> (\<exists>r\<in>set rows. o_id r \<in> due_ids t n rows \<and> q = outbox_rec r)"
proof -
  have "filter (\<lambda>r. o_id r \<in> due_ids t n rows) (claim_rows lease t n rows) =
      map (\<lambda>r. r\<lparr>o_next := t + lease_of lease\<rparr>) (filter (\<lambda>r. o_id r \<in> due_ids t n rows) rows)"
    unfolding claim_rows_def by (rule filter_update_where) simp
  moreover have "outbox_rec (r\<lparr>o_next := m\<rparr>) = outbox_rec r" for r m by (simp add: outbox_rec_def)
  ultimately show ?thesis by (auto simp: claim_recs_def image_iff)
qed

lemma claim_recs_ids: "q_id ` set (claim_recs lease t n rows) = format_int ` due_ids t n rows"
proof
  show "q_id ` set (claim_recs lease t n rows) \<subseteq> format_int ` due_ids t n rows"
    by (auto simp: claim_recs_rows outbox_rec_def)
  show "format_int ` due_ids t n rows \<subseteq> q_id ` set (claim_recs lease t n rows)"
  proof
    fix x assume "x \<in> format_int ` due_ids t n rows"
    then obtain i where i: "i \<in> due_ids t n rows" "x = format_int i" by blast
    then obtain r where r: "r \<in> set rows" "o_id r = i" using due_ids_due by blast
    then have "outbox_rec r \<in> set (claim_recs lease t n rows)" using i(1) claim_recs_rows by blast
    moreover have "x = q_id (outbox_rec r)" using i(2) r(2) by (simp add: outbox_rec_def)
    ultimately show "x \<in> q_id ` set (claim_recs lease t n rows)" by blast
  qed
qed

lemma claim_recs_distinct:
  assumes "distinct (map o_id rows)"
  shows "distinct (map q_id (claim_recs lease t n rows))"
proof -
  let ?f = "filter (\<lambda>r. o_id r \<in> due_ids t n rows) (claim_rows lease t n rows)"
  have "distinct (map o_id (claim_rows lease t n rows))" using assms by (simp add: claim_ids)
  then have "distinct (map o_id ?f)" by (rule distinct_map_filter)
  moreover have "mset (map o_id (sort_key o_id ?f)) = mset (map o_id ?f)" by simp
  ultimately have "distinct (map o_id (sort_key o_id ?f))" using mset_eq_imp_distinct_iff by blast
  then have "distinct (map format_int (map o_id (sort_key o_id ?f)))"
    unfolding distinct_map [of format_int] by (simp add: inj_on_def format_int_inj)
  then show ?thesis by (simp add: claim_recs_def comp_def outbox_rec_def)
qed

lemma view_claim:
  "outbox_view (upd_outbox (\<lambda>_. claim_rows lease t n (t_outbox (db w))) w) i =
    map_option (\<lambda>r. outbox_entry (if o_id r \<in> due_ids t n (t_outbox (db w)) then r\<lparr>o_next := t + lease_of lease\<rparr> else r))
      (find (\<lambda>r. row_text r = i) (t_outbox (db w)))"
  using find_update_rows [of row_text "\<lambda>r. r\<lparr>o_next := t + lease_of lease\<rparr>" i
      "\<lambda>r. o_id r \<in> due_ids t n (t_outbox (db w))" "t_outbox (db w)"]
  by (simp add: outbox_view_def claim_rows_def row_text_def option.map_comp comp_def)

lemma due_row:
  assumes "outbox_wf w" "r \<in> set (t_outbox (db w))" "o_id r \<in> due_ids t n (t_outbox (db w))"
  shows "row_due t r"
proof -
  obtain r' where r': "r' \<in> set (t_outbox (db w))" "o_id r' = o_id r" "row_due t r'"
    using due_ids_due [OF assms(3)] by blast
  have "inj_on o_id (set (t_outbox (db w)))" using assms(1) by (simp add: outbox_wf_def distinct_map)
  then have "r' = r" by (rule inj_onD) (use r' assms(2) in simp_all)
  with r' show ?thesis by simp
qed

lemma claimed_claim:
  assumes "outbox_wf w"
  shows "claimed (outbox_view w) (outbox_view (upd_outbox (\<lambda>_. claim_rows lease t n (t_outbox (db w))) w))"
  unfolding claimed_def
proof
  fix i
  let ?w' = "upd_outbox (\<lambda>_. claim_rows lease t n (t_outbox (db w))) w"
  show "outbox_view ?w' i = outbox_view w i \<or> (\<exists>e n. outbox_view w i = Some e \<and> e_status e = OPending \<and>
      outbox_view ?w' i = Some (e\<lparr>e_next := n\<rparr>))"
  proof (cases "find (\<lambda>r. row_text r = i) (t_outbox (db w))")
    case None
    then show ?thesis unfolding view_claim by (simp add: outbox_view_def)
  next
    case (Some r)
    have r: "r \<in> set (t_outbox (db w))" using find_in_set [OF Some] by simp
    show ?thesis
    proof (cases "o_id r \<in> due_ids t n (t_outbox (db w))")
      case True
      with due_row [OF assms r] Some show ?thesis unfolding view_claim
        by (auto simp: outbox_view_def outbox_entry_def row_due_def)
    next
      case False
      with Some show ?thesis unfolding view_claim by (simp add: outbox_view_def)
    qed
  qed
qed

lemma view_cong: "t_outbox (db w') = t_outbox (db w) \<Longrightarrow> outbox_view w' = outbox_view w"
  by (simp add: outbox_view_def fun_eq_iff)

lemma wf_cong: "t_outbox (db w') = t_outbox (db w) \<Longrightarrow> oseq w' = oseq w \<Longrightarrow> outbox_wf w' = outbox_wf w"
  by (simp add: outbox_wf_def)

lemma rec_of_outbox: "rec_of (row_text r) (outbox_entry r) = outbox_rec r"
  by (simp add: rec_of_def outbox_entry_def outbox_rec_def row_text_def)

lemma pending_recs:
  assumes "outbox_wf w" "q \<in> set (claim_recs lease t n (t_outbox (db w)))"
  shows "\<exists>e. outbox_view w (q_id q) = Some e \<and> e_status e = OPending \<and> e_next e \<le> t \<and> q = rec_of (q_id q) e"
proof -
  obtain r where r: "r \<in> set (t_outbox (db w))" "o_id r \<in> due_ids t n (t_outbox (db w))" "q = outbox_rec r"
    using assms(2) claim_recs_rows by blast
  have "row_due t r" using due_row assms(1) r by blast
  then show ?thesis using view_row [OF assms(1) r(1)] rec_of_outbox [of r] r(3)
    by (simp add: outbox_rec_def row_text_def row_due_def outbox_entry_def)
qed

definition picked :: "int \<Rightarrow> int \<Rightarrow> world \<Rightarrow> string set" where
  "picked t n w = format_int ` due_ids t n (t_outbox (db w))"

interpretation pg_outbox: outbox_store "pg_pending lease" pg_mark_published pg_mark_failed outbox_view outbox_wf picked
proof (unfold_locales, goal_cases)
  case (1 w t n)
  let ?w1 = "after_call PG w" and ?rows = "t_outbox (db w)"
  let ?w2 = "upd_outbox (\<lambda>_. claim_rows lease t n ?rows) ?w1"
  have v1: "outbox_view ?w1 = outbox_view w" "outbox_wf ?w1" using 1 view_cong [of ?w1 w] wf_cong [of ?w1 w] by simp_all
  have c2: "claimed (outbox_view w) (outbox_view ?w2)" using claimed_claim [OF v1(2), of lease t n] v1(1) by simp
  have w2: "outbox_wf ?w2"
  proof -
    have "\<forall>r\<in>set (claim_rows lease t n ?rows). o_id r \<in> o_id ` set ?rows"
      using claim_ids [of lease t n ?rows] by (metis image_eqI list.set_map)
    then show ?thesis using 1 by (force simp: outbox_wf_def claim_ids)
  qed
  have d: "distinct (map o_id ?rows)" using 1 by (simp add: outbox_wf_def)
  have c1: "claimed (outbox_view w) (outbox_view w)" by (simp add: claimed_def)
  note recs = claim_recs_distinct [OF d, of lease t n] pending_recs [OF 1, of _ lease t n]
  have cov: "q_id ` set (claim_recs lease t n ?rows) = picked t n w"
    by (simp add: claim_recs_ids picked_def)
  show ?case
  proof (cases "next_out PG w")
    case Done
    have "wp (pg_pending lease t n) Q w = Q (Inr (claim_recs lease t n ?rows)) ?w2" for Q
      using Done by (simp add: pg_pending_run wp_ext_call)
    then show ?thesis using c2 w2 pg_call_only_steps(2) recs cov by blast
  next
    case Refused
    have "wp (pg_pending lease t n) Q w = Q (Inl ErrIO) ?w1" for Q
      using Refused by (simp add: pg_pending_run wp_ext_call)
    then show ?thesis using c1 v1 pg_call_only_steps(1) Refused reliable_next [of w PG] by auto
  next
    case Lost
    have "wp (pg_pending lease t n) Q w = Q (Inl ErrIO) ?w2" for Q
      using Lost by (simp add: pg_pending_run wp_ext_call)
    then show ?thesis using c2 w2 pg_call_only_steps(2) Lost reliable_next [of w PG] by auto
  qed
next
  case (2 w i)
  let ?w1 = "after_call PG w"
  let ?f = "\<lambda>t. update_where (pending_with_id i) (\<lambda>r. r\<lparr>o_status := OPublished, o_published_at := Some t\<rparr>)"
  have v1: "outbox_view ?w1 = outbox_view w" "outbox_wf ?w1" using 2 view_cong [of ?w1 w] wf_cong [of ?w1 w] by simp_all
  have "outbox_view (upd_outbox (?f t) ?w1) = set_pending i (\<lambda>e. e\<lparr>e_status := OPublished\<rparr>) (outbox_view w)" for t
    using view_mark [of _ "\<lambda>e. e\<lparr>e_status := OPublished\<rparr>" i ?w1] v1(1) by (simp add: outbox_entry_def)
  moreover have "outbox_wf (upd_outbox (?f t) ?w1)" for t
    using v1(2) by (intro outbox_wf_update) auto
  ultimately show ?case
    using v1 pg_call_only_steps reliable_next [of w PG]
    by (auto simp: pg_mark_published_def wp_ext_call split: outcome.split)
next
  case (3 w i a nxt dead)
  let ?w1 = "after_call PG w"
  let ?f = "update_where (pending_with_id i)
     (\<lambda>r. r\<lparr>o_attempts := a, o_next := nxt, o_status := (if dead then ODead else OPending)\<rparr>)"
  have v1: "outbox_view ?w1 = outbox_view w" "outbox_wf ?w1" using 3 view_cong [of ?w1 w] wf_cong [of ?w1 w] by simp_all
  have "outbox_view (upd_outbox ?f ?w1) = set_pending i (failed_entry a nxt dead) (outbox_view w)"
    using view_mark [of _ "failed_entry a nxt dead" i ?w1] v1(1) by (simp add: outbox_entry_def failed_entry_def)
  moreover have "outbox_wf (upd_outbox ?f ?w1)"
    using v1(2) by (intro outbox_wf_update) auto
  ultimately show ?case
    using v1 pg_call_only_steps
    by (auto simp: pg_mark_failed_def wp_ext_call split: outcome.split)
next
  case (4 w' w)
  then show ?case using view_cong [of w' w] wf_cong [of w' w] by simp
qed


section \<open>What the relay guarantees\<close>

abbreviation relay_pass :: "int \<Rightarrow> relay \<Rightarrow> ctx \<Rightarrow> (world, pass_result) state" where
  "relay_pass lease r c \<equiv> run_once (pg_pending lease) pg_mark_published pg_mark_failed r c"

lemma relay_max_attempts_defaults [simp]:
  "relay_max_attempts (relay_defaults r) = relay_max_attempts r"
  by (simp add: relay_defaults_def Let_def)

definition row_event :: "outbox_row \<Rightarrow> string \<times> string \<times> event" where
  "row_event r = (o_topic r, o_key r, o_payload r)"

lemma evolves_rows:
  assumes "pg_outbox.evolves r w w'" "outbox_wf w" "r0 \<in> set (t_outbox (db w))"
  shows "\<exists>r1\<in>set (t_outbox (db w')). o_id r1 = o_id r0 \<and> row_event r1 = row_event r0 \<and>
    (o_status r0 \<noteq> OPending \<longrightarrow> o_status r1 = o_status r0) \<and>
    (o_status r1 = OPublished \<longrightarrow> o_status r0 = OPublished \<or> row_event r0 \<in> set (bus w')) \<and>
    (o_status r1 = ODead \<longrightarrow> o_status r0 = ODead \<or> 0 < relay_max_attempts r)"
proof -
  have v: "outbox_view w (row_text r0) = Some (outbox_entry r0)" using assms(2,3) by (rule view_row)
  obtain e1 where e1: "outbox_view w' (row_text r0) = Some e1"
    using pg_outbox.evolves_event [OF assms(1) v] by blast
  then obtain r1 where r1: "r1 \<in> set (t_outbox (db w'))" "row_text r1 = row_text r0" "e1 = outbox_entry r1"
    by (rule view_SomeD)
  have "e_event e1 = e_event (outbox_entry r0) \<and> (e_status (outbox_entry r0) \<noteq> OPending \<longrightarrow> e1 = outbox_entry r0) \<and>
      (e_status e1 = OPublished \<longrightarrow> e_status (outbox_entry r0) = OPublished \<or> e_event (outbox_entry r0) \<in> set (bus w')) \<and>
      (e_status e1 = ODead \<longrightarrow> e_status (outbox_entry r0) = ODead \<or> 0 < relay_max_attempts r)"
    using assms(1) v e1 unfolding pg_outbox.evolves_def by blast
  then show ?thesis using r1
    by (intro bexI [OF _ r1(1)]) (auto simp: outbox_entry_def e_event_def row_event_def row_text_inj)
qed

text \<open>C3. The relay never loses or forges an event: whatever fails during a pass (broker, database,
  lost replies, cancellation), every outbox row survives with its event unchanged, only pending rows
  change status, a row becomes published only if the broker accepted its event, and dead only if a
  maximum number of attempts is configured.\<close>

theorem relay_pass_is_safe:
  assumes "run_state (relay_pass lease r c) w = (res, w')" "outbox_wf w" "r0 \<in> set (t_outbox (db w))"
  shows "\<exists>r1\<in>set (t_outbox (db w')). o_id r1 = o_id r0 \<and> row_event r1 = row_event r0 \<and>
    (o_status r0 \<noteq> OPending \<longrightarrow> o_status r1 = o_status r0) \<and>
    (o_status r1 = OPublished \<longrightarrow> o_status r0 = OPublished \<or> row_event r0 \<in> set (bus w')) \<and>
    (o_status r1 = ODead \<longrightarrow> o_status r0 = ODead \<or> 0 < relay_max_attempts r)"
  using evolves_rows [OF wp_run [OF pg_outbox.run_once_evolves [OF assms(2)] assms(1)] assms(2,3)] by simp

text \<open>C4. The relay catches up, oldest rows first: when broker and database answer and the pass is not
  cancelled, one pass publishes as many rows as were due, up to the batch size, and reports exactly
  that number, without an error or a failed record; every due row that has fewer than a batch of due
  rows with a smaller id before it is published, its event on the broker.  A backlog larger than the
  batch is drained by the following passes.\<close>

theorem relay_pass_publishes_due:
  assumes "run_state (relay_pass lease r None) w = (res, w')" "outbox_wf w"
    and "reliable PG w" "reliable Kafka w"
  shows "res = ((min (batch_size (relay_defaults r)) (int (count_where (row_due (clock w)) (t_outbox (db w)))), 0, 0), None) \<and>
    (\<forall>r0\<in>set (t_outbox (db w)). row_due (clock w) r0 \<longrightarrow>
      int (count_where (\<lambda>x. row_due (clock w) x \<and> o_id x < o_id r0) (t_outbox (db w))) < batch_size (relay_defaults r) \<longrightarrow>
      (\<exists>r1\<in>set (t_outbox (db w')). o_id r1 = o_id r0 \<and> o_status r1 = OPublished) \<and> row_event r0 \<in> set (bus w'))"
proof (intro conjI ballI impI)
  let ?n = "batch_size (relay_defaults r)" and ?rows = "t_outbox (db w)"
  have n: "0 \<le> ?n" by (simp add: relay_defaults_def Let_def)
  have d: "distinct (map o_id ?rows)" using assms(2) by (simp add: outbox_wf_def)
  have send: "pg_outbox.sending w" using assms(3,4) by (simp add: pg_outbox.sending_def)
  note pub = wp_run [OF pg_outbox.run_once_publishes [OF assms(2) send] assms(1)]
  have "card (picked (clock w) ?n w) = card (due_ids (clock w) ?n ?rows)"
    unfolding picked_def by (rule card_image) (simp add: inj_on_def format_int_inj)
  then show "res = ((min ?n (int (count_where (row_due (clock w)) ?rows)), 0, 0), None)"
    using pub due_ids_card [OF d, of "clock w" ?n] n by simp
  fix r0
  assume r0: "r0 \<in> set ?rows" "row_due (clock w) r0"
    and few: "int (count_where (\<lambda>x. row_due (clock w) x \<and> o_id x < o_id r0) ?rows) < ?n"
  have "o_id r0 \<in> due_ids (clock w) ?n ?rows"
    using few by (intro due_ids_first [OF d r0]) simp
  then have "row_text r0 \<in> picked (clock w) ?n w" by (simp add: picked_def row_text_def)
  then obtain e1 where e1: "outbox_view w' (row_text r0) = Some e1" "e_status e1 = OPublished"
    using pub by blast
  from e1(1) obtain r1 where r1: "r1 \<in> set (t_outbox (db w'))" "row_text r1 = row_text r0" "e1 = outbox_entry r1"
    by (rule view_SomeD)
  then have "o_id r1 = o_id r0" "o_status r1 = OPublished"
    using e1(2) by (simp_all add: row_text_inj outbox_entry_def)
  with r1(1) show "\<exists>r1\<in>set (t_outbox (db w')). o_id r1 = o_id r0 \<and> o_status r1 = OPublished" by blast
  have ev: "pg_outbox.evolves (relay_defaults r) w w'"
    using wp_run [OF pg_outbox.run_once_evolves [OF assms(2)] assms(1)] .
  have "e_status (outbox_entry r0) = OPending" using r0(2) by (simp add: row_due_def outbox_entry_def)
  then show "row_event r0 \<in> set (bus w')"
    using ev view_row [OF assms(2) r0(1)] e1 unfolding pg_outbox.evolves_def
    by (metis e_event_def oentry.select_convs(1-3) ostatus.distinct(1) outbox_entry_def row_event_def)
qed

text \<open>What may happen to the outbox while a relay holds the records \<open>held\<close> until \<open>til\<close>: any operation of
  any instance, whatever its answer, in any order and at any time, except that nobody marks a held
  record as failed with a retry time before \<open>til\<close> (only the holder itself could).\<close>

inductive meanwhile :: "string set \<Rightarrow> int \<Rightarrow> world \<Rightarrow> world \<Rightarrow> bool" for held til where
  meanwhile_none: "meanwhile held til w w"
| meanwhile_pending: "meanwhile held til w w1 \<Longrightarrow> run_state (pg_pending lease t n) w1 = (x, w2) \<Longrightarrow> meanwhile held til w w2"
| meanwhile_published: "meanwhile held til w w1 \<Longrightarrow> run_state (pg_mark_published i) w1 = (y, w2) \<Longrightarrow> meanwhile held til w w2"
| meanwhile_failed: "meanwhile held til w w1 \<Longrightarrow> run_state (pg_mark_failed i a nxt dead) w1 = (y, w2) \<Longrightarrow>
    i \<notin> held \<or> til \<le> nxt \<Longrightarrow> meanwhile held til w w2"
| meanwhile_enqueue: "meanwhile held til w w1 \<Longrightarrow> run_state (enqueue ag agid topic key ev nb) w1 = (z, w2) \<Longrightarrow>
    meanwhile held til w w2"
| meanwhile_prune: "meanwhile held til w w1 \<Longrightarrow> run_state (pg_prune retention batch) w1 = (u, w2) \<Longrightarrow> meanwhile held til w w2"
| meanwhile_other: "meanwhile held til w w1 \<Longrightarrow> t_outbox (db w2) = t_outbox (db w1) \<Longrightarrow> oseq w1 \<le> oseq w2 \<Longrightarrow>
    meanwhile held til w w2"

definition holds_rows :: "string set \<Rightarrow> int \<Rightarrow> world \<Rightarrow> bool" where
  "holds_rows held til w \<longleftrightarrow> held \<subseteq> format_int ` {i. i \<le> oseq w} \<and>
     (\<forall>r\<in>set (t_outbox (db w)). row_text r \<in> held \<longrightarrow> o_status r = OPending \<longrightarrow> til \<le> o_next r)"

lemma ext_call_world:
  assumes "run_state (ext_call y f) w = (x, w')"
  shows "w' = after_call y w \<or> w' = snd (f (after_call y w))"
  using assms by (auto simp: ext_call_def split: outcome.splits)

lemma holds_rows_cong:
  "t_outbox (db w') = t_outbox (db w) \<Longrightarrow> oseq w \<le> oseq w' \<Longrightarrow> holds_rows held til w \<Longrightarrow> holds_rows held til w'"
  by (force simp: holds_rows_def)

lemma holds_rows_update:
  assumes "holds_rows held til w"
    and "\<And>r. o_id (f r) = o_id r"
    and "\<And>r. P r \<Longrightarrow> row_text r \<in> held \<Longrightarrow> o_status (f r) = OPending \<Longrightarrow> til \<le> o_next (f r)"
  shows "holds_rows held til (upd_outbox (update_where P f) (after_call PG w))"
  using assms by (auto simp: holds_rows_def set_update_where row_text_def split: if_splits)

lemma holds_rows_claim:
  assumes "holds_rows held til w"
  shows "holds_rows held til (upd_outbox (\<lambda>_. claim_rows lease t n (t_outbox (db w))) (after_call PG w))"
proof -
  have til: "til \<le> t + lease_of lease"
    if due: "o_id r \<in> due_ids t n (t_outbox (db w))" and r: "row_text r \<in> held" for r
  proof -
    obtain r' where r': "r' \<in> set (t_outbox (db w))" "o_id r' = o_id r" "row_due t r'"
      using due_ids_due [OF due] by blast
    then have "row_text r' \<in> held" using r by (simp add: row_text_def)
    with assms r' have "til \<le> t" unfolding holds_rows_def row_due_def by fastforce
    then show ?thesis by (simp add: lease_of_def)
  qed
  show ?thesis using assms til
    by (auto simp: holds_rows_def claim_rows_def set_update_where row_text_def split: if_splits)
qed

lemma meanwhile_holds:
  assumes "meanwhile held til w w'" "holds_rows held til w"
  shows "holds_rows held til w'"
  using assms
proof (induction rule: meanwhile.induct)
  case (meanwhile_pending w w1 lease t n x w2)
  then have h: "holds_rows held til w1" by blast
  show ?case using ext_call_world [OF meanwhile_pending.hyps(2) [unfolded pg_pending_run]]
      holds_rows_cong [OF _ _ h, of "after_call PG w1"] holds_rows_claim [OF h, of lease t n] by auto
next
  case (meanwhile_published w w1 i y w2)
  then have h: "holds_rows held til w1" by blast
  have "holds_rows held til (upd_outbox (update_where (pending_with_id i)
     (\<lambda>r. r\<lparr>o_status := OPublished, o_published_at := Some (clock (after_call PG w1))\<rparr>)) (after_call PG w1))"
    by (rule holds_rows_update [OF h]) simp_all
  then show ?case using ext_call_world [OF meanwhile_published.hyps(2) [unfolded pg_mark_published_def]]
      holds_rows_cong [OF _ _ h, of "after_call PG w1"] by auto
next
  case (meanwhile_failed w w1 i a nxt dead y w2)
  then have h: "holds_rows held til w1" by blast
  have "holds_rows held til (upd_outbox (update_where (pending_with_id i)
     (\<lambda>r. r\<lparr>o_attempts := a, o_next := nxt, o_status := (if dead then ODead else OPending)\<rparr>)) (after_call PG w1))"
    using meanwhile_failed.hyps(3)
    by (intro holds_rows_update [OF h]) (auto simp: pending_with_id_def row_text_def)
  then show ?case using ext_call_world [OF meanwhile_failed.hyps(2) [unfolded pg_mark_failed_def]]
      holds_rows_cong [OF _ _ h, of "after_call PG w1"] by auto
next
  case (meanwhile_enqueue w w1 ag agid topic key ev nb z w2)
  then have h: "holds_rows held til w1" by blast
  have fresh: "format_int (oseq w1 + 1) \<notin> held" using h by (auto simp: holds_rows_def format_int_inj)
  show ?case using ext_call_world [OF meanwhile_enqueue.hyps(2) [unfolded enqueue_def]]
      holds_rows_cong [OF _ _ h, of "after_call PG w1"] h fresh
    by (auto simp: holds_rows_def row_text_def Let_def intro: order_trans)
next
  case (meanwhile_prune w w1 retention batch u w2)
  then have h: "holds_rows held til w1" by blast
  show ?case using ext_call_world [OF meanwhile_prune.hyps(2) [unfolded pg_prune_def]]
      holds_rows_cong [OF _ _ h, of "after_call PG w1"] h
    by (auto simp: holds_rows_def Let_def)
next
  case (meanwhile_other w w1 w2)
  then show ?case using holds_rows_cong by blast
qed


text \<open>\<open>Prune\<close> deletes only rows that were published before the retention period, at most a
  batch of them, reports their number, and keeps every other row.\<close>

theorem prune_keeps_unpublished:
  assumes "run_state (pg_prune retention batch) w = (Inr n, w')" "outbox_wf w" "0 \<le> batch"
  shows "n \<le> batch \<and> int (length (t_outbox (db w'))) = int (length (t_outbox (db w))) - n \<and>
    set (t_outbox (db w')) \<subseteq> set (t_outbox (db w)) \<and>
    (\<forall>r\<in>set (t_outbox (db w)) - set (t_outbox (db w')). o_status r = OPublished \<and>
      (\<exists>t. o_published_at r = Some t \<and> t < clock w' - retention))"
proof -
  let ?rows = "t_outbox (db w)"
  have out: "next_out PG w = Done"
    using assms(1) by (cases "next_out PG w") (simp_all add: pg_prune_def ext_call_def Let_def)
  define old where "old = take (nat batch) (filter (prunable (clock w' - retention)) ?rows)"
  have w': "t_outbox (db w') = filter (\<lambda>r. o_id r \<notin> o_id ` set old) ?rows"
    "n = int (count_where (\<lambda>r. o_id r \<in> o_id ` set old) ?rows)"
    using assms(1) out by (auto simp: pg_prune_def ext_call_def Let_def old_def)
  have d: "distinct (map o_id ?rows)" using assms(2) by (simp add: outbox_wf_def)
  have inj: "inj_on o_id (set ?rows)" using d by (simp add: distinct_map)
  have sub: "set old \<subseteq> set ?rows" unfolding old_def by (meson filter_is_subset order_trans set_take_subset)
  have same: "o_id r \<in> o_id ` set old \<longleftrightarrow> r \<in> set old" if "r \<in> set ?rows" for r
    using inj_on_image_mem_iff [OF inj that sub] .
  have "count_where (\<lambda>r. o_id r \<in> o_id ` set old) ?rows = card (set old)"
  proof -
    have "distinct ?rows" using d by (simp add: distinct_map)
    then have "count_where (\<lambda>r. o_id r \<in> o_id ` set old) ?rows = card {r \<in> set ?rows. o_id r \<in> o_id ` set old}"
      unfolding count_where_def by (metis distinct_card distinct_filter set_filter)
    also have "{r \<in> set ?rows. o_id r \<in> o_id ` set old} = set old" using same sub by blast
    finally show ?thesis .
  qed
  moreover have "card (set old) \<le> nat batch"
    using card_length [of old] by (simp add: old_def)
  moreover have "int (length (filter (\<lambda>r. o_id r \<notin> o_id ` set old) ?rows)) =
      int (length ?rows) - int (count_where (\<lambda>r. o_id r \<in> o_id ` set old) ?rows)"
    unfolding count_where_def using sum_length_filter_compl [of "\<lambda>r. o_id r \<in> o_id ` set old" ?rows] by linarith
  moreover have "o_status r = OPublished \<and> (\<exists>t. o_published_at r = Some t \<and> t < clock w' - retention)"
    if "r \<in> set ?rows - set (t_outbox (db w'))" for r
  proof -
    have "r \<in> set old" using that w'(1) same by auto
    then have "prunable (clock w' - retention) r" unfolding old_def using in_set_takeD by fastforce
    then show ?thesis by (auto simp: prunable_def split: option.splits)
  qed
  ultimately show ?thesis using w' assms(3) by auto
qed

section \<open>A concrete outbox\<close>

definition demo_outbox_row :: "int \<Rightarrow> outbox_row" where
  "demo_outbox_row i = \<lparr>o_id = i, o_agg_type = ''post'', o_agg = ''p1'', o_topic = ''post.created'', o_key = ''ann'',
     o_payload = PostCreated ''p1'' ''ann'' ''hi'' [] ''image'' 5, o_at = 0, o_status = OPending, o_attempts = 0,
     o_next = 0, o_published_at = None\<rparr>"

definition outbox_world :: world where
  "outbox_world = quiet_world\<lparr>oseq := 7, db := empty_db\<lparr>t_outbox := [demo_outbox_row 7, demo_outbox_row 6]\<rparr>\<rparr>"

abbreviation zero_relay :: relay where
  "zero_relay \<equiv> \<lparr>batch_size = 0, relay_max_attempts = 0, relay_base = 0, relay_max = 0\<rparr>"

lemma outbox_world_simps [simp]:
  "t_outbox (db outbox_world) = [demo_outbox_row 7, demo_outbox_row 6]" "outcomes outbox_world y = {Done}"
  "oseq outbox_world = 7" "clock outbox_world = 0" "next_out y outbox_world = Done"
  by (simp_all add: outbox_world_def quiet_world_def outcomes_def next_out_def)

lemma outbox_world_wf: "outbox_wf outbox_world"
  by (simp add: outbox_wf_def demo_outbox_row_def)

theorem relay_pass_is_safe_witness:
  "\<exists>r1\<in>set (t_outbox (db (snd (run_state (relay_pass 0 zero_relay None) outbox_world)))).
    o_id r1 = o_id (demo_outbox_row 6) \<and> row_event r1 = row_event (demo_outbox_row 6) \<and>
    (o_status (demo_outbox_row 6) \<noteq> OPending \<longrightarrow> o_status r1 = o_status (demo_outbox_row 6)) \<and>
    (o_status r1 = OPublished \<longrightarrow> o_status (demo_outbox_row 6) = OPublished \<or>
       row_event (demo_outbox_row 6) \<in> set (bus (snd (run_state (relay_pass 0 zero_relay None) outbox_world)))) \<and>
    (o_status r1 = ODead \<longrightarrow> o_status (demo_outbox_row 6) = ODead \<or> 0 < relay_max_attempts zero_relay)"
  by (rule relay_pass_is_safe [OF surjective_pairing outbox_world_wf]) simp

text \<open>Two rows are due and the batch has one place: the older row goes out.\<close>

abbreviation one_relay :: relay where
  "one_relay \<equiv> \<lparr>batch_size = 1, relay_max_attempts = 0, relay_base = 0, relay_max = 0\<rparr>"

theorem relay_pass_publishes_due_witness:
  "fst (run_state (relay_pass 0 one_relay None) outbox_world) = ((1, 0, 0), None) \<and>
   row_event (demo_outbox_row 6) \<in> set (bus (snd (run_state (relay_pass 0 one_relay None) outbox_world)))"
proof -
  have "batch_size (relay_defaults one_relay) = 1" by (simp add: relay_defaults_def Let_def)
  moreover have "count_where (row_due 0) (t_outbox (db outbox_world)) = 2"
    "count_where (\<lambda>x. row_due 0 x \<and> o_id x < o_id (demo_outbox_row 6)) (t_outbox (db outbox_world)) = 0"
    "row_due 0 (demo_outbox_row 6)"
    by (simp_all add: count_where_def row_due_def demo_outbox_row_def)
  ultimately show ?thesis
    using relay_pass_publishes_due [OF surjective_pairing [of "run_state (relay_pass 0 one_relay None) outbox_world"]
        outbox_world_wf] by simp
qed

text \<open>One relay holds row 6; another claims row 7, fails to publish it and gets it again.\<close>

definition outbox_of :: "outbox_row list \<Rightarrow> world" where
  "outbox_of rows = upd_outbox (\<lambda>_. rows) outbox_world"

lemma outbox_of_calls:
  "run_state (ext_call PG f) (outbox_of rows) = f (outbox_of rows)"
  "t_outbox (db (outbox_of rows)) = rows" "upd_outbox f' (outbox_of rows) = outbox_of (f' rows)"
  by (simp_all add: outbox_of_def upd_outbox_def upd_db_def outbox_world_def quiet_world_def instant_calls)


definition prune_world :: world where
  "prune_world = outbox_world\<lparr>clock := 100, db := empty_db\<lparr>t_outbox := [demo_outbox_row 7,
     (demo_outbox_row 6)\<lparr>o_status := OPublished, o_published_at := Some 20\<rparr>]\<rparr>\<rparr>"

theorem prune_keeps_unpublished_witness:
  "int (length (t_outbox (db (snd (run_state (pg_prune 10 500) prune_world))))) =
     int (length (t_outbox (db prune_world))) - 1"
proof -
  have "run_state (pg_prune 10 500) prune_world = (Inr 1, snd (run_state (pg_prune 10 500) prune_world))"
    by (simp add: pg_prune_def ext_call_def next_out_def prune_world_def outbox_world_def quiet_world_def
        after_call_def demo_outbox_row_def prunable_def count_where_def Let_def)
  moreover have "outbox_wf prune_world"
    by (simp add: prune_world_def outbox_wf_def demo_outbox_row_def)
  ultimately show ?thesis using prune_keeps_unpublished by (metis zero_le_numeral)
qed

end
