(* ===== verification/Paging.thy ===== *)
theory Paging
  imports World
begin

text \<open>
  Keyset pagination: \<open>shared/pagecursor\<close> and the pattern every list endpoint follows (fetch one row
  more than the page, in key order, strictly after the cursor; the extra row decides whether there
  is a next page).  The locale \<open>keyset_pager\<close> states the pattern once; the list operations of the
  services interpret it.
\<close>

section \<open>Page sizes and cursors\<close>

text \<open>\<open>pagecursor.Limit\<close>.\<close>

definition page_limit :: "int \<Rightarrow> int \<Rightarrow> int \<Rightarrow> int" where
  "page_limit requested def1 mx = (if requested \<le> 0 then def1 else if requested > mx then mx else requested)"

lemma page_limit_bounds: "0 < d \<Longrightarrow> d \<le> mx \<Longrightarrow> 0 < page_limit n d mx \<and> page_limit n d mx \<le> mx"
  by (simp add: page_limit_def)

text \<open>The cursor structs of the list endpoints: a time and an id; unset when the id is empty.\<close>

type_synonym cursor = "int \<times> string"

definition cursor_opt :: "cursor \<Rightarrow> cursor option" where
  "cursor_opt c = (if snd c = [] then None else Some c)"

subsection \<open>Unpadded URL-safe base64\<close>

definition b64_alphabet :: string where
  "b64_alphabet = ''ABCDEFGHIJKLMNOPQRSTUVWXYZabcdefghijklmnopqrstuvwxyz0123456789-_''"

definition b64_char :: "nat \<Rightarrow> char" where
  "b64_char n = b64_alphabet ! n"

definition b64_val :: "char \<Rightarrow> nat option" where
  "b64_val c = map_of (zip b64_alphabet [0..<64]) c"

abbreviation byte :: "char \<Rightarrow> nat" where
  "byte c \<equiv> of_char c"

fun b64_encode :: "string \<Rightarrow> string" where
  "b64_encode (a # b # c # rest) =
     (let n = byte a * 65536 + byte b * 256 + byte c
      in [b64_char (n div 262144), b64_char (n div 4096 mod 64), b64_char (n div 64 mod 64), b64_char (n mod 64)])
     @ b64_encode rest"
| "b64_encode [a, b] =
     (let n = byte a * 256 + byte b
      in [b64_char (n div 1024), b64_char (n div 16 mod 64), b64_char (n mod 16 * 4)])"
| "b64_encode [a] = [b64_char (byte a div 4), b64_char (byte a mod 4 * 16)]"
| "b64_encode [] = []"

text \<open>The decoder of the standard library is not strict: it ignores the unused low bits of the last
  character.\<close>

fun b64_bytes :: "nat list \<Rightarrow> string option" where
  "b64_bytes (a # b # c # d # rest) =
     map_option (\<lambda>s. [char_of (a * 4 + b div 16), char_of (b mod 16 * 16 + c div 4), char_of (c mod 4 * 64 + d)] @ s)
       (b64_bytes rest)"
| "b64_bytes [a, b, c] = Some [char_of (a * 4 + b div 16), char_of (b mod 16 * 16 + c div 4)]"
| "b64_bytes [a, b] = Some [char_of (a * 4 + b div 16)]"
| "b64_bytes [a] = None"
| "b64_bytes [] = Some []"

text \<open>Go's decoder skips line breaks.\<close>

definition b64_decode :: "string \<Rightarrow> string option" where
  "b64_decode s =
     (let t = filter (\<lambda>c. c \<noteq> CHR 0x0A \<and> c \<noteq> CHR 0x0D) s
      in if \<exists>c\<in>set t. b64_val c = None then None else b64_bytes (map (\<lambda>c. the (b64_val c)) t))"

text \<open>\<open>Encode\<close> and \<open>Decode\<close>; \<open>encoding/json\<close> is an argument.\<close>

definition cursor_encode :: "(cursor \<Rightarrow> string) \<Rightarrow> cursor \<Rightarrow> string" where
  "cursor_encode marshal c = b64_encode (marshal c)"

definition cursor_decode :: "(string \<Rightarrow> cursor option) \<Rightarrow> string \<Rightarrow> err + cursor" where
  "cursor_decode unmarshal s =
     (if s = [] then Inr (0, [])
      else case b64_decode s of
        None \<Rightarrow> Inl ErrBadCursor
      | Some raw \<Rightarrow> (case unmarshal raw of None \<Rightarrow> Inl ErrBadCursor | Some c \<Rightarrow> Inr c))"

lemma b64_val_char:
  assumes "n < 64"
  shows "b64_val (b64_char n) = Some n"
proof -
  have len: "length b64_alphabet = 64" by (simp add: b64_alphabet_def)
  have d: "distinct b64_alphabet" by code_simp
  have "map_of (zip b64_alphabet [0..<64]) (b64_alphabet ! n) = Some ([0..<64] ! n)"
    using assms d len by (intro map_of_zip_nth) auto
  then show ?thesis using assms by (simp add: b64_val_def b64_char_def)
qed

lemma byte_less: "byte c < 256"
  by (rule nat_of_char_less_256)

lemma b64_decode_chars:
  assumes "\<forall>n\<in>set ns. n < 64"
  shows "b64_decode (map b64_char ns) = b64_bytes ns"
proof -
  have "list_all (\<lambda>c. c \<noteq> CHR 0x0A \<and> c \<noteq> CHR 0x0D) b64_alphabet" by code_simp
  moreover have "b64_char n \<in> set b64_alphabet" if "n < 64" for n
  proof -
    have "length b64_alphabet = 64" by (simp add: b64_alphabet_def)
    with that show ?thesis unfolding b64_char_def by (intro nth_mem) simp
  qed
  ultimately have "filter (\<lambda>c. c \<noteq> CHR 0x0A \<and> c \<noteq> CHR 0x0D) (map b64_char ns) = map b64_char ns"
    using assms unfolding filter_id_conv list_all_iff by fastforce
  moreover have "map (\<lambda>c. the (b64_val c)) (map b64_char ns) = ns"
    using assms by (simp add: b64_val_char map_idI)
  ultimately show ?thesis using assms by (auto simp: b64_decode_def b64_val_char)
qed

fun sextets :: "string \<Rightarrow> nat list" where
  "sextets (a # b # c # rest) =
     (let n = byte a * 65536 + byte b * 256 + byte c
      in [n div 262144, n div 4096 mod 64, n div 64 mod 64, n mod 64]) @ sextets rest"
| "sextets [a, b] = (let n = byte a * 256 + byte b in [n div 1024, n div 16 mod 64, n mod 16 * 4])"
| "sextets [a] = [byte a div 4, byte a mod 4 * 16]"
| "sextets [] = []"

lemma b64_encode_sextets: "b64_encode s = map b64_char (sextets s)"
  by (induction s rule: b64_encode.induct) (simp_all add: Let_def)

lemma digit4:
  fixes a b c d :: nat
  assumes "a < 64" "b < 64" "c < 64" "d < 64"
  shows "(a*262144+b*4096+c*64+d) div 262144 = a"
   "(a*262144+b*4096+c*64+d) div 4096 mod 64 = b"
   "(a*262144+b*4096+c*64+d) div 64 mod 64 = c"
   "(a*262144+b*4096+c*64+d) mod 64 = d"
proof -
  have "(a*262144+b*4096+c*64+d) div 64 = a*4096+b*64+c" using assms by (auto intro: div_nat_eqI)
  moreover have "(a*262144+b*4096+c*64+d) div 4096 = a*64+b" using assms by (auto intro: div_nat_eqI)
  ultimately show "(a*262144+b*4096+c*64+d) div 64 mod 64 = c" "(a*262144+b*4096+c*64+d) div 4096 mod 64 = b"
    using assms mod_mult_self1 [of c "a * 64 + b" 64] mod_mult_self1 [of b a 64] by (simp_all add: algebra_simps)
  show "(a*262144+b*4096+c*64+d) div 262144 = a" using assms by (auto intro: div_nat_eqI)
  show "(a*262144+b*4096+c*64+d) mod 64 = d"
    using assms mod_mult_self1 [of d "a * 4096 + b * 64 + c" 64] by (simp add: algebra_simps)
qed
lemma split3:
  fixes x y z :: nat
  shows "x * 65536 + y * 256 + z = (x div 4)*262144 + (x mod 4 * 16 + y div 16)*4096 + (y mod 16 * 4 + z div 64)*64 + z mod 64"
proof -
  define x1 x0 y1 y0 z1 z0 where "x1 = x div 4" "x0 = x mod 4" "y1 = y div 16" "y0 = y mod 16" "z1 = z div 64" "z0 = z mod 64"
  then have "x = 4 * x1 + x0" "y = 16 * y1 + y0" "z = 64 * z1 + z0" by simp_all
  then have "x * 65536 + y * 256 + z = x1*262144 + (x0 * 16 + y1)*4096 + (y0 * 4 + z1)*64 + z0"
    by (simp add: algebra_simps)
  then show ?thesis by (simp add: \<open>x1 = _\<close> \<open>x0 = _\<close> \<open>y1 = _\<close> \<open>y0 = _\<close> \<open>z1 = _\<close> \<open>z0 = _\<close>)
qed
lemma three_bytes:
  fixes x y z :: nat
  assumes "x < 256" "y < 256" "z < 256"
  defines "n \<equiv> x * 65536 + y * 256 + z"
  shows "n div 262144 = x div 4" "n div 4096 mod 64 = x mod 4 * 16 + y div 16"
    "n div 64 mod 64 = y mod 16 * 4 + z div 64" "n mod 64 = z mod 64"
proof -
  have b: "x div 4 < 64" "x mod 4 * 16 + y div 16 < 64" "y mod 16 * 4 + z div 64 < 64" "z mod 64 < 64"
    using assms(1-3) by linarith+
  show "n div 262144 = x div 4" unfolding n_def split3 [of x y z] by (rule digit4(1) [OF b])
  show "n div 4096 mod 64 = x mod 4 * 16 + y div 16" unfolding n_def split3 [of x y z] by (rule digit4(2) [OF b])
  show "n div 64 mod 64 = y mod 16 * 4 + z div 64" unfolding n_def split3 [of x y z] by (rule digit4(3) [OF b])
  show "n mod 64 = z mod 64" unfolding n_def split3 [of x y z] by (rule digit4(4) [OF b])
qed

lemma digit3:
  fixes a b d :: nat
  assumes "a < 64" "b < 64" "d < 16"
  shows "(a * 1024 + b * 16 + d) div 1024 = a" "(a * 1024 + b * 16 + d) div 16 mod 64 = b"
    "(a * 1024 + b * 16 + d) mod 16 = d"
proof -
  have "(a * 1024 + b * 16 + d) div 16 = a * 64 + b" using assms by (auto intro: div_nat_eqI)
  then show "(a * 1024 + b * 16 + d) div 16 mod 64 = b"
    using assms mod_mult_self1 [of b a 64] by (simp add: algebra_simps)
  show "(a * 1024 + b * 16 + d) div 1024 = a" using assms by (auto intro: div_nat_eqI)
  show "(a * 1024 + b * 16 + d) mod 16 = d"
    using assms mod_mult_self1 [of d "a * 64 + b" 16] by (simp add: algebra_simps)
qed

lemma split2:
  fixes x y :: nat
  shows "x * 256 + y = (x div 4) * 1024 + (x mod 4 * 16 + y div 16) * 16 + y mod 16"
proof -
  define x1 x0 y1 y0 where "x1 = x div 4" "x0 = x mod 4" "y1 = y div 16" "y0 = y mod 16"
  then have "x = 4 * x1 + x0" "y = 16 * y1 + y0" by simp_all
  then have "x * 256 + y = x1 * 1024 + (x0 * 16 + y1) * 16 + y0" by (simp add: algebra_simps)
  then show ?thesis by (simp add: \<open>x1 = _\<close> \<open>x0 = _\<close> \<open>y1 = _\<close> \<open>y0 = _\<close>)
qed

lemma two_bytes:
  fixes x y :: nat
  assumes "x < 256" "y < 256"
  defines "n \<equiv> x * 256 + y"
  shows "n div 1024 = x div 4" "n div 16 mod 64 = x mod 4 * 16 + y div 16" "n mod 16 = y mod 16"
proof -
  have b: "x div 4 < 64" "x mod 4 * 16 + y div 16 < 64" "y mod 16 < 16" using assms(1,2) by linarith+
  show "n div 1024 = x div 4" unfolding n_def split2 [of x y] by (rule digit3(1) [OF b])
  show "n div 16 mod 64 = x mod 4 * 16 + y div 16" unfolding n_def split2 [of x y] by (rule digit3(2) [OF b])
  show "n mod 16 = y mod 16" unfolding n_def split2 [of x y] by (rule digit3(3) [OF b])
qed

lemma sextets_split:
  "sextets (a # b # c # rest) =
     [byte a div 4, byte a mod 4 * 16 + byte b div 16, byte b mod 16 * 4 + byte c div 64, byte c mod 64] @ sextets rest"
  "sextets [a, b] = [byte a div 4, byte a mod 4 * 16 + byte b div 16, byte b mod 16 * 4]"
  unfolding sextets.simps Let_def three_bytes [OF byte_less byte_less byte_less] two_bytes [OF byte_less byte_less]
  by (rule refl)+

declare sextets.simps(1,2) [simp del]

lemma sextets_small: "\<forall>n\<in>set (sextets s). n < 64"
proof (induction s rule: sextets.induct)
  case (1 a b c rest)
  have "byte a div 4 < 64" "byte a mod 4 * 16 + byte b div 16 < 64" "byte b mod 16 * 4 + byte c div 64 < 64"
    using byte_less [of a] byte_less [of b] byte_less [of c] by linarith+
  then show ?case using 1 unfolding sextets_split by auto
next
  case (2 a b)
  have "byte a div 4 < 64" "byte a mod 4 * 16 + byte b div 16 < 64" "byte b mod 16 * 4 < 64"
    using byte_less [of a] byte_less [of b] by linarith+
  then show ?case unfolding sextets_split by auto
next
  case (3 a)
  have "byte a div 4 < 64" "byte a mod 4 * 16 < 64" using byte_less [of a] by linarith+
  then show ?case unfolding sextets.simps by auto
qed simp

lemma join_bytes:
  fixes x y z :: nat
  assumes "y < 256" "z < 256"
  shows "x div 4 * 4 + (x mod 4 * 16 + y div 16) div 16 = x"
    "(x mod 4 * 16 + y div 16) mod 16 * 16 + (y mod 16 * 4 + z div 64) div 4 = y"
    "(y mod 16 * 4 + z div 64) mod 4 * 64 + z mod 64 = z"
proof -
  have p: "y div 16 < 16" "z div 64 < 4" using assms by linarith+
  then have "(x mod 4 * 16 + y div 16) div 16 = x mod 4" "(x mod 4 * 16 + y div 16) mod 16 = y div 16"
    "(y mod 16 * 4 + z div 64) div 4 = y mod 16" "(y mod 16 * 4 + z div 64) mod 4 = z div 64"
    by (auto intro: div_nat_eqI simp: mod_mult_self3)
  then show "x div 4 * 4 + (x mod 4 * 16 + y div 16) div 16 = x"
    "(x mod 4 * 16 + y div 16) mod 16 * 16 + (y mod 16 * 4 + z div 64) div 4 = y"
    "(y mod 16 * 4 + z div 64) mod 4 * 64 + z mod 64 = z"
    by (simp_all only: div_mult_mod_eq)
qed

lemma b64_bytes_sextets: "b64_bytes (sextets s) = Some s"
proof (induction s rule: sextets.induct)
  case (1 a b c rest)
  note j = join_bytes [OF byte_less byte_less]
  show ?case unfolding sextets_split append.simps b64_bytes.simps 1 j by simp
next
  case (2 a b)
  have "byte b mod 16 * 4 + byte (CHR 0x00) div 64 = byte b mod 16 * 4" by simp
  with join_bytes(1,2) [of "byte b" "byte (CHR 0x00)" "byte a"] byte_less
  have "byte a div 4 * 4 + (byte a mod 4 * 16 + byte b div 16) div 16 = byte a"
    "(byte a mod 4 * 16 + byte b div 16) mod 16 * 16 + byte b mod 16 * 4 div 4 = byte b" by metis+
  then show ?case unfolding sextets_split b64_bytes.simps by simp
next
  case (3 a)
  have "byte a div 4 * 4 + byte a mod 4 * 16 div 16 = byte a"
    using join_bytes(1) [of 0 0 "byte a"] by simp
  then show ?case unfolding sextets.simps b64_bytes.simps by simp
qed simp

lemma b64_round_trip: "b64_decode (b64_encode s) = Some s"
  by (simp add: b64_encode_sextets b64_decode_chars sextets_small b64_bytes_sextets)

lemma b64_encode_empty: "b64_encode s = [] \<longleftrightarrow> s = []"
  by (cases s rule: b64_encode.cases) (simp_all add: Let_def)


text \<open>Decoding gives back the cursor that was encoded, if \<open>encoding/json\<close> does.\<close>

lemma cursor_round_trip:
  assumes "unmarshal (marshal c) = Some c" "marshal c \<noteq> []"
  shows "cursor_decode unmarshal (cursor_encode marshal c) = Inr c"
  using assms by (simp add: cursor_decode_def cursor_encode_def b64_round_trip b64_encode_empty)

section \<open>One page\<close>

text \<open>\<open>ORDER BY key DESC\<close> and \<open>ORDER BY key\<close> with \<open>LIMIT\<close>, strictly after a cursor.\<close>

definition sort_desc :: "('a \<Rightarrow> 'k::linorder) \<Rightarrow> 'a list \<Rightarrow> 'a list" where
  "sort_desc key xs = rev (sort_key key xs)"

definition after_cursor :: "('k \<Rightarrow> 'k \<Rightarrow> bool) \<Rightarrow> 'k option \<Rightarrow> 'k \<Rightarrow> bool" where
  "after_cursor prec after k = (case after of None \<Rightarrow> True | Some c \<Rightarrow> prec c k)"

definition select_desc :: "('a \<Rightarrow> 'k::linorder) \<Rightarrow> 'k option \<Rightarrow> int \<Rightarrow> 'a list \<Rightarrow> 'a list" where
  "select_desc key after n rows =
     take (nat n) (sort_desc key (filter (\<lambda>r. after_cursor (\<lambda>a b. b < a) after (key r)) rows))"

definition select_asc :: "('a \<Rightarrow> 'k::linorder) \<Rightarrow> 'k option \<Rightarrow> int \<Rightarrow> 'a list \<Rightarrow> 'a list" where
  "select_asc key after n rows =
     take (nat n) (sort_key key (filter (\<lambda>r. after_cursor (<) after (key r)) rows))"

text \<open>The loop over the rows fetched: the first \<open>limit\<close> are the page; when there is one more, the
  cursor is the key of the last row of the page.\<close>

fun page_loop :: "('a \<Rightarrow> 'k) \<Rightarrow> int \<Rightarrow> 'a list \<Rightarrow> int \<Rightarrow> 'a list \<Rightarrow> 'a list \<times> 'k option" where
  "page_loop key limit got i [] = ([], None)"
| "page_loop key limit got i (x # xs) =
     (if i = limit then ([], Some (key (got ! nat (limit - 1))))
      else case page_loop key limit got (i + 1) xs of (ys, nx) \<Rightarrow> (x # ys, nx))"

definition cut_page :: "('a \<Rightarrow> 'k) \<Rightarrow> int \<Rightarrow> 'a list \<Rightarrow> 'a list \<times> 'k option" where
  "cut_page key limit got = page_loop key limit got 0 got"

lemma page_loop_spec:
  "i \<le> limit \<Longrightarrow> page_loop key limit got i xs = (take (nat (limit - i)) xs,
     if limit - i < int (length xs) then Some (key (got ! nat (limit - 1))) else None)"
proof (induction xs arbitrary: i)
  case Nil
  then show ?case by simp
next
  case (Cons x xs)
  show ?case
  proof (cases "i = limit")
    case True
    then show ?thesis by simp
  next
    case False
    then have "nat (limit - i) = Suc (nat (limit - (i + 1)))" using Cons.prems by simp
    then show ?thesis using Cons False by (auto simp: split_beta)
  qed
qed

lemma cut_page_spec:
  assumes "0 < limit"
  shows "cut_page key limit got = (take (nat limit) got,
    if limit < int (length got) then Some (key (got ! nat (limit - 1))) else None)"
  using assms by (simp add: cut_page_def page_loop_spec)

section \<open>Paging through a list\<close>

text \<open>
  A pager over worlds \<open>'w\<close>: \<open>rows w\<close> is the list a client pages through, in the order \<open>prec\<close> of
  the keys; \<open>page w after n\<close> is one request.  The data may change between the requests.
\<close>

locale keyset_pager =
  fixes prec :: "'k \<Rightarrow> 'k \<Rightarrow> bool"
    and key :: "'a \<Rightarrow> 'k"
    and rows :: "'w \<Rightarrow> 'a list"
    and page :: "'w \<Rightarrow> 'k option \<Rightarrow> int \<Rightarrow> 'a list \<times> 'k option"
    and wf :: "'w \<Rightarrow> bool"
  assumes prec_irrefl: "\<not> prec k k"
    and prec_trans: "prec a b \<Longrightarrow> prec b c \<Longrightarrow> prec a c"
    and rows_sorted: "wf w \<Longrightarrow> sorted_wrt (\<lambda>x y. prec (key x) (key y)) (rows w)"
    and page_law: "wf w \<Longrightarrow> 0 < n \<Longrightarrow> page w after n =
      cut_page key n (take (nat (n + 1)) (filter (\<lambda>x. after_cursor prec after (key x)) (rows w)))"
begin

text \<open>A page holds exactly the rows between its cursor and the next one.\<close>

lemma page_interval:
  assumes "wf w" "0 < n" "page w after n = (xs, nx)"
  shows "xs = filter (\<lambda>x. after_cursor prec after (key x) \<and>
      (case nx of None \<Rightarrow> True | Some c \<Rightarrow> \<not> prec c (key x))) (rows w)"
    and "nx = Some c \<Longrightarrow> c \<in> key ` set xs \<and> after_cursor prec after c"
    and "length xs \<le> nat n"
proof -
  define L where "L = filter (\<lambda>x. after_cursor prec after (key x)) (rows w)"
  have s: "sorted_wrt (\<lambda>x y. prec (key x) (key y)) L"
    unfolding L_def by (rule sorted_wrt_filter) (rule rows_sorted [OF assms(1)])
  have pg: "(xs, nx) = (take (nat n) L, if n < int (length (take (nat (n + 1)) L))
      then Some (key (take (nat (n + 1)) L ! nat (n - 1))) else None)"
    using page_law [OF assms(1,2), of after] assms(2,3) cut_page_spec [OF assms(2), of key "take (nat (n + 1)) L"]
    by (simp add: L_def [symmetric] min_def)
  then show "length xs \<le> nat n" by simp
  show "xs = filter (\<lambda>x. after_cursor prec after (key x) \<and>
      (case nx of None \<Rightarrow> True | Some c \<Rightarrow> \<not> prec c (key x))) (rows w)"
  proof (cases "int (length L) \<le> n")
    case True
    then have "nx = None" "xs = L" using pg by auto
    then show ?thesis by (simp add: L_def)
  next
    case False
    let ?c = "key (L ! nat (n - 1))"
    have i: "nat (n - 1) < nat n" "nat n \<le> length L" using assms(2) False by auto
    have nx: "nx = Some ?c" "xs = take (nat n) L" using pg False assms(2) by auto
    have L: "L = take (nat n) L @ drop (nat n) L" by simp
    have mem: "L ! nat (n - 1) \<in> set (take (nat n) L)" using i by (metis in_set_conv_nth length_take min.absorb2 nth_take)
    have "\<not> prec ?c (key x)" if x: "x \<in> set (take (nat n) L)" for x
    proof -
      obtain j where j: "j < nat n" "x = L ! j"
        using x i(2) unfolding in_set_conv_nth by auto
      show ?thesis
      proof (cases "j = nat (n - 1)")
        case True
        then show ?thesis using j prec_irrefl by simp
      next
        case False
        then have "j < nat (n - 1)" using j assms(2) by linarith
        then have "prec (key x) ?c" using s i j by (simp add: sorted_wrt_iff_nth_less)
        then show ?thesis using prec_irrefl prec_trans by blast
      qed
    qed
    moreover have "prec ?c (key x)" if "x \<in> set (drop (nat n) L)" for x
      using s mem that unfolding L [symmetric] by (metis L sorted_wrt_append)
    ultimately have "filter (\<lambda>x. \<not> prec ?c (key x)) (take (nat n) L @ drop (nat n) L) = take (nat n) L"
      unfolding filter_append by (simp add: filter_id_conv [THEN iffD2])
    then have "take (nat n) L = filter (\<lambda>x. \<not> prec ?c (key x)) L" by simp
    also have "\<dots> = filter (\<lambda>x. after_cursor prec after (key x) \<and> \<not> prec ?c (key x)) (rows w)"
      by (simp add: L_def conj_commute)
    finally show ?thesis using nx by simp
  qed
  show "c \<in> key ` set xs \<and> after_cursor prec after c" if "nx = Some c"
  proof -
    have False: "n < int (length L)" and c: "c = key (L ! nat (n - 1))" "xs = take (nat n) L"
      using pg that assms(2) by (auto split: if_splits)
    have "nat (n - 1) < nat n" "nat n \<le> length L" using assms(2) False by auto
    then have "L ! nat (n - 1) \<in> set xs" unfolding c by (metis in_set_conv_nth length_take min.absorb2 nth_take)
    moreover have "set xs \<subseteq> set L" unfolding c by (rule set_take_subset)
    ultimately show ?thesis using c(1) by (auto simp: L_def)
  qed
qed

text \<open>A client walks through the pages, following the cursors; each request sees another world.
  The flag says whether the last page was reached.\<close>

fun walk :: "int \<Rightarrow> 'w list \<Rightarrow> 'k option \<Rightarrow> 'a list \<times> bool" where
  "walk n [] after = ([], False)"
| "walk n (w # ws) after =
     (case page w after n of
        (xs, None) \<Rightarrow> (xs, True)
      | (xs, Some c) \<Rightarrow> (case walk n ws (Some c) of (ys, b) \<Rightarrow> (xs @ ys, b)))"

lemma walk_after:
  assumes "\<forall>w\<in>set ws. wf w" "0 < n" "x \<in> set (fst (walk n ws after))"
  shows "after_cursor prec after (key x)"
  using assms
proof (induction ws arbitrary: after)
  case Nil
  then show ?case by simp
next
  case (Cons w ws)
  obtain xs nx where pg: "page w after n = (xs, nx)" by (cases "page w after n")
  note pi = page_interval [OF _ Cons.prems(2) pg]
  show ?case
  proof (cases "x \<in> set xs")
    case True
    then show ?thesis using pi(1) Cons.prems(1) by auto
  next
    case False
    then obtain c where c: "nx = Some c" using Cons.prems(3) pg by (cases nx) auto
    have "x \<in> set (fst (walk n ws (Some c)))" using False Cons.prems(3) pg c by (auto split: prod.splits)
    then have "prec c (key x)" using Cons.IH [of "Some c"] Cons.prems by (simp add: after_cursor_def)
    moreover have "after_cursor prec after c" using pi(2) [OF _ c] Cons.prems(1) by simp
    ultimately show ?thesis unfolding after_cursor_def by (cases after) (auto intro: prec_trans)
  qed
qed

text \<open>Whatever is inserted or deleted in between, no key is returned twice and the order is kept.\<close>

lemma walk_sorted:
  assumes "\<forall>w\<in>set ws. wf w" "0 < n"
  shows "sorted_wrt (\<lambda>x y. prec (key x) (key y)) (fst (walk n ws after))"
  using assms
proof (induction ws arbitrary: after)
  case Nil
  then show ?case by simp
next
  case (Cons w ws)
  obtain xs nx where pg: "page w after n = (xs, nx)" by (cases "page w after n")
  note pi = page_interval [OF _ Cons.prems(2) pg]
  have w: "wf w" using Cons.prems(1) by simp
  have xs: "sorted_wrt (\<lambda>x y. prec (key x) (key y)) xs"
    using rows_sorted [OF w] by (subst pi(1) [OF w]) (rule sorted_wrt_filter)
  show ?case
  proof (cases nx)
    case None
    then show ?thesis using pg xs by simp
  next
    case (Some c)
    obtain y where y: "y \<in> set xs" "c = key y" using pi(2) [OF w Some] by blast
    have le: "key x = c \<or> prec (key x) c" if "x \<in> set xs" for x
    proof -
      have "\<not> prec c (key x)" using that Some by (subst (asm) pi(1) [OF w]) simp
      then show ?thesis using that y xs
        by (metis in_set_conv_nth linorder_neqE_nat sorted_wrt_iff_nth_less)
    qed
    have "prec (key x) (key z)" if "x \<in> set xs" "z \<in> set (fst (walk n ws (Some c)))" for x z
    proof -
      have "prec c (key z)" using walk_after [OF _ Cons.prems(2) that(2)] Cons.prems(1)
        by (simp add: after_cursor_def)
      then show ?thesis using le [OF that(1)] prec_trans by metis
    qed
    moreover have "sorted_wrt (\<lambda>x y. prec (key x) (key y)) (fst (walk n ws (Some c)))"
      using Cons by simp
    ultimately show ?thesis using pg Some xs by (simp add: sorted_wrt_append split_beta)
  qed
qed

text \<open>What is there during the whole walk is returned.\<close>

lemma walk_complete:
  assumes "\<forall>w\<in>set ws. wf w" "0 < n" "snd (walk n ws after)"
    and "\<forall>w\<in>set ws. x \<in> set (rows w)" "after_cursor prec after (key x)"
  shows "x \<in> set (fst (walk n ws after))"
  using assms
proof (induction ws arbitrary: after)
  case Nil
  then show ?case by simp
next
  case (Cons w ws)
  obtain xs nx where pg: "page w after n = (xs, nx)" by (cases "page w after n")
  have w: "wf w" "x \<in> set (rows w)" using Cons.prems(1,4) by simp_all
  note pi = page_interval [OF w(1) Cons.prems(2) pg]
  show ?case
  proof (cases nx)
    case None
    then have "x \<in> set xs" using pi(1) w Cons.prems(5) by simp
    then show ?thesis using pg None by simp
  next
    case (Some c)
    show ?thesis
    proof (cases "prec c (key x)")
      case True
      then have "x \<in> set (fst (walk n ws (Some c)))"
        using Cons.IH [of "Some c"] Cons.prems Some pg by (simp add: after_cursor_def split_beta)
      then show ?thesis using pg Some by (simp add: split_beta)
    next
      case False
      then have "x \<in> set xs" using pi(1) w Cons.prems(5) Some by simp
      then show ?thesis using pg Some by (simp add: split_beta)
    qed
  qed
qed

text \<open>The walk ends: every page but the last moves past at least one row.\<close>

lemma walk_ends:
  assumes "\<forall>w\<in>set ws. wf w \<and> rows w = R" "0 < n"
    and "length (filter (\<lambda>x. after_cursor prec after (key x)) R) < length ws"
  shows "snd (walk n ws after)"
  using assms
proof (induction ws arbitrary: after)
  case Nil
  then show ?case by simp
next
  case (Cons w ws)
  obtain xs nx where pg: "page w after n = (xs, nx)" by (cases "page w after n")
  have w: "wf w" "rows w = R" using Cons.prems(1) by simp_all
  note pi = page_interval [OF w(1) Cons.prems(2) pg]
  show ?case
  proof (cases nx)
    case None
    then show ?thesis using pg by simp
  next
    case (Some c)
    let ?P = "\<lambda>a x. after_cursor prec a (key x)"
    obtain y where y: "y \<in> set xs" "c = key y" "after_cursor prec after c" using pi(2) [OF Some] by blast
    have "y \<in> set R" using y(1) pi(1) w(2) by auto
    have imp: "?P (Some c) x \<Longrightarrow> ?P after x" for x
      using y(3) unfolding after_cursor_def by (cases after) (auto intro: prec_trans)
    have "length (filter (?P (Some c)) R) < length (filter (?P after) R)"
    proof -
      have "filter (?P (Some c)) R = filter (?P (Some c)) (filter (?P after) R)"
        using imp by (auto intro: filter_cong)
      moreover have "length (filter (?P (Some c)) (filter (?P after) R)) < length (filter (?P after) R)"
        by (rule length_filter_less [of y]) (use y \<open>y \<in> set R\<close> prec_irrefl in \<open>auto simp: after_cursor_def\<close>)
      ultimately show ?thesis by simp
    qed
    then have "snd (walk n ws (Some c))" using Cons by auto
    then show ?thesis using pg Some by (simp add: split_beta)
  qed
qed

lemma walk_rows:
  assumes "\<forall>w\<in>set ws. wf w" "0 < n" "x \<in> set (fst (walk n ws after))"
  shows "\<exists>w\<in>set ws. x \<in> set (rows w)"
  using assms
proof (induction ws arbitrary: after)
  case Nil
  then show ?case by simp
next
  case (Cons w ws)
  obtain xs nx where pg: "page w after n = (xs, nx)" by (cases "page w after n")
  have w: "wf w" using Cons.prems(1) by simp
  have "set xs \<subseteq> set (rows w)" by (subst page_interval(1) [OF w Cons.prems(2) pg]) auto
  moreover have "x \<in> set xs \<or> (\<exists>c. x \<in> set (fst (walk n ws (Some c))))"
    using Cons.prems(3) pg by (cases nx) (auto simp: split_beta)
  ultimately show ?case using Cons.IH Cons.prems(1,2) by auto
qed

lemma walk_once:
  assumes "\<forall>w\<in>set ws. wf w" "0 < n" "snd (walk n ws None)" "\<forall>w\<in>set ws. x \<in> set (rows w)"
  shows "count_list (fst (walk n ws None)) x = 1"
proof -
  have "x \<in> set (fst (walk n ws None))"
    using walk_complete [OF assms] by (simp add: after_cursor_def)
  moreover have "distinct (fst (walk n ws None))"
  proof -
    have "sorted_wrt (\<lambda>x y. prec (key x) (key y)) xs \<Longrightarrow> distinct xs" for xs
      using prec_irrefl by (induction xs) auto
    then show ?thesis using walk_sorted [OF assms(1,2)] by blast
  qed
  ultimately show ?thesis by (metis count_mset distinct_count_atmost_1)
qed

end

section \<open>The SQL selects are pages\<close>

lemma sort_desc_filter: "sort_desc key (filter P xs) = filter P (sort_desc key xs)"
  unfolding sort_desc_def by (metis filter_sort rev_filter)

lemma sort_desc_sorted:
  assumes "distinct (map key xs)"
  shows "sorted_wrt (\<lambda>x y. key y < key x) (sort_desc key xs)"
proof -
  have "mset (map key (sort_key key xs)) = mset (map key xs)" by simp
  then have "distinct (map key (sort_key key xs))" using assms mset_eq_imp_distinct_iff by blast
  then have "sorted_wrt (<) (map key (sort_key key xs))" by (simp add: strict_sorted_iff)
  then show ?thesis by (simp add: sort_desc_def sorted_wrt_rev sorted_wrt_map)
qed

lemma sort_asc_sorted:
  assumes "distinct (map key xs)"
  shows "sorted_wrt (\<lambda>x y. key x < key y) (sort_key key xs)"
proof -
  have "mset (map key (sort_key key xs)) = mset (map key xs)" by simp
  then have "distinct (map key (sort_key key xs))" using assms mset_eq_imp_distinct_iff by blast
  then have "sorted_wrt (<) (map key (sort_key key xs))" by (simp add: strict_sorted_iff)
  then show ?thesis by (simp add: sorted_wrt_map)
qed

lemma select_desc_page:
  "select_desc key after n rows =
     take (nat n) (filter (\<lambda>r. after_cursor (\<lambda>a b. b < a) after (key r)) (sort_desc key rows))"
  by (simp add: select_desc_def sort_desc_filter)

lemma select_asc_page:
  "select_asc key after n rows =
     take (nat n) (filter (\<lambda>r. after_cursor (<) after (key r)) (sort_key key rows))"
  by (simp add: select_asc_def filter_sort)

lemma set_sort_desc [simp]: "set (sort_desc key xs) = set xs"
  by (simp add: sort_desc_def)

section \<open>A client of a list endpoint\<close>

text \<open>A client follows the cursors of a list endpoint; each request sees another world.\<close>

fun client_walk :: "(string \<Rightarrow> ('b list \<times> string) io) \<Rightarrow> world list \<Rightarrow> string \<Rightarrow> 'b list \<times> bool" where
  "client_walk page [] cur = ([], False)"
| "client_walk page (w # ws) cur =
     (case fst (run_state (page cur) w) of
        Inl _ \<Rightarrow> ([], False)
      | Inr (ids, nx) \<Rightarrow>
          if nx = [] then (ids, True)
          else (case client_walk page ws nx of (ys, b) \<Rightarrow> (ids @ ys, b)))"

lemma snd_cursor_ne: "c \<in> key ` set xs \<Longrightarrow> \<forall>x\<in>set xs. snd (key x) \<noteq> [] \<Longrightarrow> cursor_opt c = Some c"
  by (auto simp: cursor_opt_def)

text \<open>An endpoint that answers with the page of a pager, its rows shown through \<open>view\<close> and its next
  cursor encoded, or with an error: the pages a client collects are a walk of the pager.\<close>

lemma client_walk_pager:
  fixes key :: "'a \<Rightarrow> cursor"
  assumes pager: "keyset_pager prec key rows page ok" and n: "0 < n"
    and json: "\<And>c. unmarshal (marshal c) = Some c" "\<And>c. marshal c \<noteq> []"
    and ids: "\<And>w x. ok w \<Longrightarrow> x \<in> set (rows w) \<Longrightarrow> snd (key x) \<noteq> []"
    and answer: "\<And>w cur after xs nx. ok w \<Longrightarrow> cursor_decode unmarshal cur = Inr after \<Longrightarrow>
      page w (cursor_opt after) n = (xs, nx) \<Longrightarrow>
      fst (run_state (endpoint cur) w) \<in> {Inr (map view xs, case nx of None \<Rightarrow> [] | Some c \<Rightarrow> cursor_encode marshal c)}
        \<union> range Inl"
    and "\<forall>w\<in>set ws. ok w" "cursor_decode unmarshal cur = Inr after"
    and "client_walk endpoint ws cur = (ys, True)"
    and "keyset_pager.walk page n ws (cursor_opt after) = (zs, b)"
  shows "ys = map view zs \<and> b"
  using assms(7-10)
proof (induction ws arbitrary: cur after ys zs b)
  case (Cons w ws)
  note walk = keyset_pager.walk.simps [OF pager]
  obtain xs nx where pg: "page w (cursor_opt after) n = (xs, nx)" by fastforce
  have w: "ok w" using Cons.prems(1) by simp
  note pi = keyset_pager.page_interval [OF pager w n pg]
  have run: "fst (run_state (endpoint cur) w) = Inr (map view xs, case nx of None \<Rightarrow> [] | Some c \<Rightarrow> cursor_encode marshal c)"
    using answer [OF w Cons.prems(2) pg] Cons.prems(3) by (auto split: sum.splits)
  show ?case
  proof (cases nx)
    case None
    then show ?thesis using Cons.prems(3,4) pg run by (auto simp: walk)
  next
    case (Some c)
    have "c \<in> key ` set xs" using pi(2) [OF Some] by blast
    moreover have "\<forall>x\<in>set xs. snd (key x) \<noteq> []" using ids [OF w] by (subst pi(1)) auto
    ultimately have co: "cursor_opt c = Some c" by (rule snd_cursor_ne)
    have dec: "cursor_decode unmarshal (cursor_encode marshal c) = Inr c" by (intro cursor_round_trip json)
    have ne: "cursor_encode marshal c \<noteq> []" using json by (simp add: cursor_encode_def b64_encode_empty)
    obtain us where us: "client_walk endpoint ws (cursor_encode marshal c) = (us, True)" "ys = map view xs @ us"
      using Cons.prems(3) run Some ne by (auto split: if_splits prod.splits)
    obtain rs d where rs: "keyset_pager.walk page n ws (cursor_opt c) = (rs, d)" by fastforce
    have "us = map view rs \<and> d" using Cons.IH [OF _ dec us(1) rs] Cons.prems(1) by simp
    then show ?thesis using Cons.prems(4) pg Some rs us(2) co by (auto simp: walk)
  qed
qed simp

end
