(* ===== verification/Feedplan.thy ===== *)
theory Feedplan
  imports Paging
begin

text \<open>
  \<open>shared/feedplan/feedplan.go\<close>: the push/pull decision, the batches of the fan-out, the merge of
  feeds and the cursor of the home feed.
\<close>

datatype mode = Push | Pull

record policy =
  celebrity_threshold :: int
  fan_batch :: int
  parallelism :: int
  max_feed_len :: int
  feed_ttl :: int

definition policy_defaults :: "policy \<Rightarrow> policy" where
  "policy_defaults p =
     (let p = (if celebrity_threshold p \<le> 0 then p\<lparr>celebrity_threshold := 5000\<rparr> else p);
          p = (if fan_batch p \<le> 0 then p\<lparr>fan_batch := 500\<rparr> else p);
          p = (if parallelism p \<le> 0 then p\<lparr>parallelism := 4\<rparr> else p);
          p = (if max_feed_len p \<le> 0 then p\<lparr>max_feed_len := 500\<rparr> else p);
          p = (if feed_ttl p \<le> 0 then p\<lparr>feed_ttl := 604800000000\<rparr> else p)
      in p)"

definition decide_mode :: "policy \<Rightarrow> int \<Rightarrow> mode" where
  "decide_mode p followers = (if followers > celebrity_threshold (policy_defaults p) then Pull else Push)"

record item =
  it_id :: string
  it_author :: string
  it_at :: int

lemma policy_defaults_pos:
  "0 < celebrity_threshold (policy_defaults p)" "0 < fan_batch (policy_defaults p)"
  "0 < parallelism (policy_defaults p)" "0 < max_feed_len (policy_defaults p)" "0 < feed_ttl (policy_defaults p)"
  by (simp_all add: policy_defaults_def Let_def)

section \<open>Batches\<close>

text \<open>\<open>Batches\<close>: slices of at most \<open>size\<close>; the loop runs over the start index.\<close>

function batch_loop :: "string list \<Rightarrow> nat \<Rightarrow> nat \<Rightarrow> string list list" where
  "batch_loop ids size1 start =
     (if start < length ids \<and> 0 < size1
      then take (min (start + size1) (length ids) - start) (drop start ids) # batch_loop ids size1 (start + size1)
      else [])"
  by pat_completeness auto
termination
  by (relation "measure (\<lambda>(ids, size1, start). length ids - start)") auto

declare batch_loop.simps [simp del]

definition batches :: "string list \<Rightarrow> int \<Rightarrow> string list list" where
  "batches ids size1 = batch_loop ids (nat (if size1 \<le> 0 then 1 else size1)) 0"

lemma batch_loop_spec:
  assumes "0 < n"
  shows "concat (batch_loop ids n start) = drop start ids \<and>
    (\<forall>b\<in>set (batch_loop ids n start). b \<noteq> [] \<and> length b \<le> n)"
  using assms
proof (induction ids n start rule: batch_loop.induct)
  case (1 ids n start)
  show ?case
  proof (cases "start < length ids")
    case False
    then show ?thesis by (subst (1 2) batch_loop.simps) auto
  next
    case True
    let ?b = "take (min (start + n) (length ids) - start) (drop start ids)"
    have eq: "batch_loop ids n start = ?b # batch_loop ids n (start + n)"
      using True 1(2) by (subst batch_loop.simps) simp
    have len: "length ?b \<le> n" "?b \<noteq> []" using True 1(2) by auto
    have "?b = take n (drop start ids)" by (cases "start + n \<le> length ids") (simp_all add: min_def)
    then have "?b @ drop (start + n) ids = drop start ids"
      by (metis add.commute append_take_drop_id drop_drop)
    then show ?thesis using 1(1) [OF _ 1(2)] True 1(2) len unfolding eq by auto
  qed
qed

text \<open>\<open>Batches\<close> splits the followers into non-empty consecutive chunks of at most the batch size:
  everybody is in exactly one chunk, in order, for any size (also zero or negative).\<close>

theorem batches_partition:
  "concat (batches ids n) = ids \<and>
   (\<nexists>b. b \<in> set (batches ids n) \<and> (b = [] \<or> max 1 n < int (length b)))"
proof -
  have s: "0 < nat (if n \<le> 0 then 1 else n)" "int (nat (if n \<le> 0 then 1 else n)) = max 1 n" by auto
  then have "b \<noteq> [] \<and> int (length b) \<le> max 1 n" if "b \<in> set (batches ids n)" for b
    using batch_loop_spec [OF s(1), of ids 0] that by (fastforce simp: batches_def simp del: of_nat_le_iff)
  moreover have "concat (batches ids n) = ids"
    using batch_loop_spec [OF s(1), of ids 0] by (simp add: batches_def)
  ultimately show ?thesis by force
qed

section \<open>Merge and cursors\<close>

definition item_key :: "item \<Rightarrow> cursor" where
  "item_key i = (it_at i, it_id i)"

fun collect_items :: "string list \<Rightarrow> item list \<Rightarrow> item list" where
  "collect_items seen [] = []"
| "collect_items seen (i # rest) =
     (if it_id i = [] \<or> it_id i \<in> set seen then collect_items seen rest
      else i # collect_items (it_id i # seen) rest)"

definition merge_feeds :: "int \<Rightarrow> item list list \<Rightarrow> item list" where
  "merge_feeds limit feeds =
     (let all = sort_desc item_key (collect_items [] (concat feeds))
      in if limit > 0 \<and> int (length all) > limit then take (nat limit) all else all)"

definition is_set :: "cursor \<Rightarrow> bool" where
  "is_set c \<longleftrightarrow> snd c \<noteq> []"

definition cursor_of :: "item \<Rightarrow> cursor" where
  "cursor_of i = (it_at i, it_id i)"

definition items_before :: "item list \<Rightarrow> cursor \<Rightarrow> item list" where
  "items_before items c =
     (if \<not> is_set c then items
      else filter (\<lambda>i. it_at i < fst c \<or> (it_at i = fst c \<and> it_id i < snd c)) items)"

lemma items_before_key:
  "items_before items c = filter (\<lambda>i. after_cursor (\<lambda>a b. b < a) (cursor_opt c) (item_key i)) items"
  by (auto simp: items_before_def is_set_def cursor_opt_def after_cursor_def item_key_def less_prod_def'
      intro!: filter_cong)

lemma collect_items_spec:
  "distinct (map it_id (collect_items seen items)) \<and> set (collect_items seen items) \<subseteq> set items \<and>
   it_id ` set (collect_items seen items) = it_id ` set items - {[]} - set seen"
proof (induction seen items rule: collect_items.induct)
  case (1 seen)
  then show ?case by simp
next
  case (2 seen i items)
  then show ?case by (cases "it_id i = [] \<or> it_id i \<in> set seen") (auto simp: image_iff)
qed

lemma distinct_item_key: "distinct (map it_id items) \<Longrightarrow> distinct (map item_key items)"
  by (auto simp: distinct_map inj_on_def item_key_def)

lemma merge_sorted:
  "sorted_wrt (\<lambda>x y. item_key y < item_key x) (merge_feeds limit feeds)"
proof -
  have "sorted_wrt (\<lambda>x y. item_key y < item_key x) (sort_desc item_key (collect_items [] (concat feeds)))"
    using collect_items_spec by (intro sort_desc_sorted distinct_item_key) blast
  then show ?thesis by (simp add: merge_feeds_def Let_def sorted_wrt_take)
qed

lemma sorted_take_newest:
  assumes "sorted_wrt (\<lambda>x y. k y < (k x :: 'b::linorder)) xs" "x \<in> set (take n xs)" "y \<in> set xs" "y \<notin> set (take n xs)"
  shows "k y < k x"
proof -
  have "y \<in> set (drop n xs)" using assms(3,4) by (metis Un_iff append_take_drop_id set_append)
  moreover have "sorted_wrt (\<lambda>x y. k y < k x) (take n xs @ drop n xs)" using assms(1) by simp
  ultimately show ?thesis using assms(2) unfolding sorted_wrt_append by blast
qed

text \<open>\<open>Merge\<close> returns the feeds' posts newest first without repetition: strictly descending in
  (created_at, post id), no id twice, every returned item from one of the feeds; with no limit every
  post id is there, with a limit exactly the newest ones are kept.\<close>

theorem merge_newest_first:
  "sorted_wrt (\<lambda>x y. item_key y < item_key x) (merge_feeds limit feeds) \<and>
   distinct (map it_id (merge_feeds limit feeds)) \<and>
   set (merge_feeds limit feeds) \<subseteq> set (concat feeds) \<and>
   it_id ` set (merge_feeds 0 feeds) = it_id ` set (concat feeds) - {[]} \<and>
   merge_feeds limit feeds = (if limit > 0 then take (nat limit) (merge_feeds 0 feeds) else merge_feeds 0 feeds)"
proof -
  let ?c = "collect_items [] (concat feeds)"
  have c: "distinct (map it_id ?c)" "set ?c \<subseteq> set (concat feeds)" "it_id ` set ?c = it_id ` set (concat feeds) - {[]}"
    using collect_items_spec [of "[]" "concat feeds"] by auto
  have d: "distinct (map it_id (sort_desc item_key ?c))"
  proof -
    have "mset (map it_id (sort_desc item_key ?c)) = mset (map it_id ?c)" by (simp add: sort_desc_def)
    then show ?thesis using c(1) mset_eq_imp_distinct_iff by blast
  qed
  have all: "merge_feeds limit feeds = (if limit > 0 then take (nat limit) (merge_feeds 0 feeds) else merge_feeds 0 feeds)"
    by (auto simp: merge_feeds_def Let_def)
  have z: "merge_feeds 0 feeds = sort_desc item_key ?c" by (simp add: merge_feeds_def Let_def)
  have "distinct (map it_id (merge_feeds limit feeds))"
    using d unfolding all z by (simp add: take_map [symmetric])
  moreover have "set (merge_feeds limit feeds) \<subseteq> set (concat feeds)"
    using c(2) set_take_subset unfolding all z by (cases "limit > 0") (fastforce simp del: set_concat)+
  moreover have "it_id ` set (merge_feeds 0 feeds) = it_id ` set (concat feeds) - {[]}"
    unfolding z using c(3) by simp
  ultimately show ?thesis using merge_sorted all by blast
qed

end
