(* ===== verification/FeedStore.thy ===== *)
theory FeedStore
  imports RedisStore Feedplan
begin

text \<open>
  The materialised home feeds: sorted sets in Redis.  \<open>FeedItems\<close> and \<open>AddToFeeds\<close> of
  \<open>shared/backend/redis.go\<close>, and \<open>FanOut\<close> of \<open>shared/feedplan/feedplan.go\<close>, which adds one post to
  many feeds with several pipelines in flight.

  A sorted set is the list of its (member, score) pairs, ascending in (score, member).  Scores are
  Unix seconds, which a Redis score (a float) holds exactly below \<open>2^53\<close>.
\<close>

section \<open>Sorted sets\<close>

definition zkey :: "string \<times> int \<Rightarrow> cursor" where
  "zkey p = (snd p, fst p)"

definition wf_zset :: "(string \<times> int) list \<Rightarrow> bool" where
  "wf_zset z \<longleftrightarrow> sorted_wrt (\<lambda>p q. zkey p < zkey q) z \<and> distinct (map fst z)"

definition zadd :: "string \<Rightarrow> int \<Rightarrow> (string \<times> int) list \<Rightarrow> (string \<times> int) list" where
  "zadd m s z = insort_key zkey (m, s) (filter (\<lambda>p. fst p \<noteq> m) z)"

text \<open>\<open>ZREMRANGEBYRANK key 0 stop\<close>: a negative \<open>stop\<close> counts from the end.\<close>

definition zremrange :: "int \<Rightarrow> (string \<times> int) list \<Rightarrow> (string \<times> int) list" where
  "zremrange stop z = drop (nat ((if stop < 0 then int (length z) + stop else stop) + 1)) z"

text \<open>A key past its expiry holds nothing; a set without members does not exist.\<close>

definition zlive :: "int \<Rightarrow> redis \<Rightarrow> string \<Rightarrow> (string \<times> int) list" where
  "zlive t r k = (if expired t (r_zexp r k) then [] else r_zset r k)"

definition zput :: "string \<Rightarrow> (string \<times> int) list \<Rightarrow> int option \<Rightarrow> redis \<Rightarrow> redis" where
  "zput k z e r = r\<lparr>r_zset := (r_zset r)(k := z), r_zexp := (r_zexp r)(k := (if z = [] then None else e))\<rparr>"

definition zexp_live :: "int \<Rightarrow> redis \<Rightarrow> string \<Rightarrow> int option" where
  "zexp_live t r k = (if expired t (r_zexp r k) then None else r_zexp r k)"

type_synonym rcmd = "int \<Rightarrow> redis \<Rightarrow> redis"

definition cmd_zadd :: "string \<Rightarrow> string \<Rightarrow> int \<Rightarrow> rcmd" where
  "cmd_zadd k m s t r = zput k (zadd m s (zlive t r k)) (zexp_live t r k) r"

definition cmd_zremrange :: "string \<Rightarrow> int \<Rightarrow> rcmd" where
  "cmd_zremrange k stop t r = zput k (zremrange stop (zlive t r k)) (zexp_live t r k) r"

definition cmd_expire :: "string \<Rightarrow> int \<Rightarrow> rcmd" where
  "cmd_expire k ttl t r = zput k (if ttl > 0 then zlive t r k else []) (Some (t + ttl)) r"

text \<open>A pipeline is one round trip.  When the connection breaks after the request was sent, some
  first commands of it have been executed.\<close>

definition exec_cmds :: "rcmd list \<Rightarrow> world \<Rightarrow> world" where
  "exec_cmds cmds w = w\<lparr>red := fold (\<lambda>c. c (clock w)) cmds (red w)\<rparr>"

definition pipelined :: "rcmd list \<Rightarrow> unit io" where
  "pipelined cmds = State (\<lambda>w. let w1 = after_call Redis w in
     case next_out Redis w of
       Done \<Rightarrow> (Inr (), exec_cmds cmds w1)
     | Refused \<Rightarrow> (Inl ErrIO, w1)
     | Lost \<Rightarrow> (Inl ErrIO, exec_cmds (take (shd (r_cuts (red w1))) cmds)
         (w1\<lparr>red := (red w1)\<lparr>r_cuts := stl (r_cuts (red w1))\<rparr>\<rparr>)))"

section \<open>The feeds\<close>

definition home_feed_key :: "string \<Rightarrow> string" where
  "home_feed_key u = ''feed:home:'' @ u"

definition celebrity_set_key :: string where
  "celebrity_set_key = ''feed:celebrities''"

definition feed_cmds :: "item \<Rightarrow> int \<Rightarrow> int \<Rightarrow> string \<Rightarrow> rcmd list" where
  "feed_cmds it maxlen ttl f =
     (let key = home_feed_key f
      in [cmd_zadd key (it_id it) (it_at it), cmd_zremrange key (- maxlen - 1), cmd_expire key ttl])"

definition add_to_feeds :: "string list \<Rightarrow> item \<Rightarrow> int \<Rightarrow> int \<Rightarrow> unit io" where
  "add_to_feeds followers it maxlen ttl = pipelined (concat (map (feed_cmds it maxlen ttl) followers))"

text \<open>\<open>ZRANGE key max -inf BYSCORE REV LIMIT 0 n\<close>; go-redis sends no limit for \<open>n = 0\<close>, and a negative
  one is none.\<close>

definition zrange_rev :: "int option \<Rightarrow> int \<Rightarrow> (string \<times> int) list \<Rightarrow> (string \<times> int) list" where
  "zrange_rev mx n z =
     (let xs = rev (filter (\<lambda>p. case mx of None \<Rightarrow> True | Some t \<Rightarrow> snd p \<le> t) z)
      in if n \<le> 0 then xs else take (nat n) xs)"

definition redis_zcount :: "string \<Rightarrow> int \<Rightarrow> int io" where
  "redis_zcount k t = ext_call Redis (\<lambda>w. (Inr (int (length (filter (\<lambda>p. snd p = t) (zlive (clock w) (red w) k)))), w))"

definition redis_zrange :: "string \<Rightarrow> int option \<Rightarrow> int \<Rightarrow> (string \<times> int) list io" where
  "redis_zrange k mx n = ext_call Redis (\<lambda>w. (Inr (zrange_rev mx n (zlive (clock w) (red w) k)), w))"

definition item_of_z :: "string \<times> int \<Rightarrow> item" where
  "item_of_z p = \<lparr>it_id = fst p, it_author = [], it_at = snd p\<rparr>"

text \<open>\<open>FeedItems\<close>; callers ask for a positive number of items.\<close>

definition feed_items :: "string \<Rightarrow> cursor \<Rightarrow> int \<Rightarrow> item list io" where
  "feed_items key after n =
     tryE (if is_set after then redis_zcount key (fst after) else ret 0) (\<lambda>extra.
     tryE (redis_zrange key (if is_set after then Some (fst after) else None) (n + extra)) (\<lambda>zs.
     (let items = items_before (map item_of_z zs) after
      in ret (if int (length items) > n then take (nat n) items else items))))"

section \<open>Facts about sorted sets\<close>

lemma zkey_simps [simp]: "zkey (m, s) = (s, m)"
  by (simp add: zkey_def)

lemma inj_zkey: "zkey p = zkey q \<longleftrightarrow> p = q"
  by (cases p; cases q) auto

lemma wf_zset_Nil [simp]: "wf_zset []"
  by (simp add: wf_zset_def)

lemma set_zadd: "set (zadd m s z) = insert (m, s) {p \<in> set z. fst p \<noteq> m}"
  by (auto simp: zadd_def set_insort_key)

lemma sorted_insort_key:
  assumes "sorted_wrt (\<lambda>p q. zkey p < zkey q) z" "p \<notin> set z"
  shows "sorted_wrt (\<lambda>p q. zkey p < zkey q) (insort_key zkey p z)"
  using assms
proof (induction z)
  case (Cons q z)
  have "zkey p \<noteq> zkey q" using Cons.prems(2) inj_zkey by auto
  then show ?case using Cons by (auto simp: set_insort_key)
qed simp

lemma wf_zadd:
  assumes "wf_zset z"
  shows "wf_zset (zadd m s z)"
proof -
  have "sorted_wrt (\<lambda>p q. zkey p < zkey q) (zadd m s z)"
    unfolding zadd_def using assms by (intro sorted_insort_key) (auto simp: wf_zset_def sorted_wrt_filter)
  moreover have "distinct (map fst (zadd m s z))"
  proof -
    have "mset (map fst (zadd m s z)) = mset (m # map fst (filter (\<lambda>p. fst p \<noteq> m) z))"
      by (simp add: zadd_def mset_map [symmetric] del: mset_map) (simp add: mset_insort)
    moreover have "distinct (m # map fst (filter (\<lambda>p. fst p \<noteq> m) z))"
      using assms by (auto simp: wf_zset_def distinct_map_filter)
    ultimately show ?thesis using mset_eq_imp_distinct_iff by blast
  qed
  ultimately show ?thesis by (simp add: wf_zset_def)
qed

lemma wf_drop: "wf_zset z \<Longrightarrow> wf_zset (drop n z)"
  by (simp add: wf_zset_def sorted_wrt_drop drop_map [symmetric])

lemma wf_zremrange: "wf_zset z \<Longrightarrow> wf_zset (zremrange stop z)"
  by (simp add: zremrange_def wf_drop)

lemma zremrange_newest: "0 < n \<Longrightarrow> zremrange (- n - 1) z = drop (length z - nat n) z"
  by (auto simp: zremrange_def intro!: arg_cong [of _ _ "\<lambda>n. drop n z"])

text \<open>What one delivery makes of a feed.\<close>

definition feed_step :: "item \<Rightarrow> int \<Rightarrow> (string \<times> int) list \<Rightarrow> (string \<times> int) list" where
  "feed_step it maxlen z = zremrange (- maxlen - 1) (zadd (it_id it) (it_at it) z)"

text \<open>The post is in the feed, or the feed is full of newer posts.\<close>

definition delivered :: "item \<Rightarrow> int \<Rightarrow> (string \<times> int) list \<Rightarrow> bool" where
  "delivered it maxlen z \<longleftrightarrow> (it_id it, it_at it) \<in> set z \<or>
     (maxlen \<le> int (length z) \<and> list_all (\<lambda>p. item_key it < zkey p) z)"

lemma wf_feed_step: "wf_zset z \<Longrightarrow> wf_zset (feed_step it n z)"
  by (simp add: feed_step_def wf_zremrange wf_zadd)

lemma drop_take_less:
  assumes "wf_zset z" "p \<in> set (take n z)" "q \<in> set (drop n z)"
  shows "zkey p < zkey q"
proof -
  have "sorted_wrt (\<lambda>p q. zkey p < zkey q) (take n z @ drop n z)" using assms(1) by (simp add: wf_zset_def)
  then show ?thesis using assms(2,3) unfolding sorted_wrt_append by blast
qed

lemma delivered_feed_step:
  assumes "wf_zset z" "0 < n"
  shows "delivered it n (feed_step it n z)"
proof -
  let ?z = "zadd (it_id it) (it_at it) z"
  let ?k = "length ?z - nat n"
  have eq: "feed_step it n z = drop ?k ?z" using assms(2) by (simp add: feed_step_def zremrange_newest)
  have "(it_id it, it_at it) \<in> set (take ?k ?z @ drop ?k ?z)" by (simp add: set_zadd)
  then consider "(it_id it, it_at it) \<in> set (drop ?k ?z)" | "(it_id it, it_at it) \<in> set (take ?k ?z)"
    unfolding set_append by blast
  then show ?thesis
  proof cases
    case 1
    then show ?thesis by (simp add: delivered_def eq)
  next
    case 2
    have "item_key it < zkey q" if "q \<in> set (drop ?k ?z)" for q
      using drop_take_less [OF wf_zadd [OF assms(1)] 2 that] by (simp add: item_key_def)
    moreover have "n \<le> int (length (drop ?k ?z))"
    proof -
      have "?k \<noteq> 0" using 2 by (cases "?k = 0") simp_all
      then show ?thesis by simp
    qed
    ultimately show ?thesis by (simp add: delivered_def eq list_all_iff)
  qed
qed

lemma zadd_present:
  assumes "wf_zset z" "(m, s) \<in> set z"
  shows "zadd m s z = z"
proof -
  have "set (zadd m s z) = set z"
    using assms by (fastforce simp: set_zadd wf_zset_def distinct_map inj_on_def)
  moreover have "sorted_wrt (\<lambda>p q. zkey p < zkey q) (zadd m s z)" "sorted_wrt (\<lambda>p q. zkey p < zkey q) z"
    using wf_zadd [OF assms(1)] assms(1) by (simp_all add: wf_zset_def)
  ultimately have "rev (zadd m s z) = rev z"
    by (intro strict_desc_unique [where key = zkey]) (simp_all add: sorted_wrt_rev)
  then show ?thesis by simp
qed

text \<open>A redelivered post changes nothing.\<close>

lemma feed_step_again:
  assumes "wf_zset z" "0 < n"
  shows "feed_step it n (feed_step it n z) = feed_step it n z"
proof -
  define y where "y = feed_step it n z"
  have wf: "wf_zset y" unfolding y_def by (rule wf_feed_step [OF assms(1)])
  have len: "length y \<le> nat n" using assms(2) by (simp add: y_def feed_step_def zremrange_newest)
  have "delivered it n y" unfolding y_def by (rule delivered_feed_step [OF assms])
  then have "feed_step it n y = y" unfolding delivered_def
  proof
    assume "(it_id it, it_at it) \<in> set y"
    then show ?thesis using len assms(2) by (simp add: feed_step_def zremrange_newest zadd_present [OF wf])
  next
    assume full: "n \<le> int (length y) \<and> list_all (\<lambda>p. item_key it < zkey p) y"
    have sm: "(it_at it, it_id it) < zkey p" if "p \<in> set y" for p
      using full that unfolding item_key_def list_all_iff by blast
    show ?thesis
    proof (cases "it_id it \<in> fst ` set y")
      case False
      then have "filter (\<lambda>p. fst p \<noteq> it_id it) y = y" by (force simp: filter_id_conv)
      moreover have "insort_key zkey (it_id it, it_at it) y = (it_id it, it_at it) # y"
        using sm by (cases y) (simp_all add: less_imp_le)
      moreover have "length y = nat n" using len full by linarith
      ultimately show ?thesis using assms(2)
        by (simp add: feed_step_def zremrange_newest zadd_def Suc_diff_le)
    next
      case True
      have "(it_id it, s) \<notin> set y" for s
      proof
        assume "(it_id it, s) \<in> set y"
        then have *: "(it_id it, s) \<in> set (zadd (it_id it) (it_at it) z)"
          using assms(2) unfolding y_def feed_step_def zremrange_newest [OF assms(2)] by (rule_tac in_set_dropD)
        then have "s = it_at it" by (auto simp: set_zadd)
        then show False using sm [of "(it_id it, s)"] \<open>(it_id it, s) \<in> set y\<close> by simp
      qed
      then show ?thesis using True by force
    qed
  qed
  then show ?thesis by (simp add: y_def)
qed


section \<open>Reading a page\<close>

text \<open>In a list where the elements outside \<open>P\<close> come first, asking for as many more as there are
  of those gives the first elements of \<open>P\<close>.\<close>

lemma take_filter_extra:
  assumes "sorted_wrt (\<lambda>x y. P x \<longrightarrow> P y) L" "length (filter (\<lambda>x. \<not> P x) L) \<le> e"
  shows "take n (filter P (take (n + e) L)) = take n (filter P L)"
  using assms
proof (induction L arbitrary: n e)
  case (Cons x L)
  show ?case
  proof (cases "P x")
    case True
    then have "\<forall>y\<in>set (x # L). P y" using Cons.prems(1) by simp
    then have "filter P (take m (x # L)) = take m (x # L)" for m
      by (meson filter_True in_set_takeD)
    then show ?thesis using \<open>\<forall>y\<in>set (x # L). P y\<close> by (simp add: filter_True min_def)
  next
    case False
    then obtain e' where e: "e = Suc e'" "length (filter (\<lambda>x. \<not> P x) L) \<le> e'"
      using Cons.prems(2) by (cases e) auto
    then show ?thesis using Cons.IH [of e' n] Cons.prems(1) False by simp
  qed
qed simp

text \<open>The feed a user sees: the posts of the live key, newest first.\<close>

definition feed_list :: "world \<Rightarrow> string \<Rightarrow> item list" where
  "feed_list w k = merge_feeds 0 [map item_of_z (zlive (clock w) (red w) k)]"

definition wf_feeds :: "world \<Rightarrow> bool" where
  "wf_feeds w \<longleftrightarrow> (\<forall>k. wf_zset (r_zset (red w) k) \<and> [] \<notin> fst ` set (r_zset (red w) k))"

lemma wf_zlive: "wf_feeds w \<Longrightarrow> wf_zset (zlive t (red w) k) \<and> [] \<notin> fst ` set (zlive t (red w) k)"
  by (auto simp: zlive_def wf_feeds_def)

lemma item_of_z_simps [simp]: "item_key (item_of_z p) = zkey p" "it_id (item_of_z p) = fst p"
  by (simp_all add: item_of_z_def item_key_def zkey_def)

lemma merge_zset:
  assumes "wf_zset z" "[] \<notin> fst ` set z"
  shows "merge_feeds 0 [map item_of_z z] = map item_of_z (rev z)"
proof (rule strict_desc_unique [where key = item_key])
  show "sorted_wrt (\<lambda>x y. item_key y < item_key x) (merge_feeds 0 [map item_of_z z])"
    by (rule merge_sorted)
  show "sorted_wrt (\<lambda>x y. item_key y < item_key x) (map item_of_z (rev z))"
    using assms(1) by (simp add: wf_zset_def sorted_wrt_map sorted_wrt_rev)
  have coll: "collect_items seen (map item_of_z y) = map item_of_z y"
    if "distinct (map fst y)" "[] \<notin> fst ` set y" "set seen \<inter> fst ` set y = {}" for seen y
    using that
  proof (induction y arbitrary: seen)
    case (Cons p y)
    then show ?case by auto
  qed simp
  have "collect_items [] (map item_of_z z) = map item_of_z z"
    using assms by (intro coll) (simp_all add: wf_zset_def)
  then show "set (merge_feeds 0 [map item_of_z z]) = set (map item_of_z (rev z))"
    by (simp add: merge_feeds_def Let_def)
qed

lemma zrange_page:
  assumes wf: "wf_zset z" "[] \<notin> fst ` set z" and "0 < n"
    and "is_set after \<Longrightarrow> int (length (filter (\<lambda>p. snd p = fst after) z)) \<le> extra" "0 \<le> extra"
  shows "take (nat n) (items_before (map item_of_z
      (zrange_rev (if is_set after then Some (fst after) else None) (n + extra) z)) after) =
    take (nat n) (items_before (merge_feeds 0 [map item_of_z z]) after)"
proof (cases "is_set after")
  case False
  have "take (nat n) (take (nat (n + extra)) y) = take (nat n) y" for y :: "item list"
    using assms(3,5) by (simp add: min_def)
  then show ?thesis using False assms(3,5)
    by (simp add: items_before_def zrange_rev_def merge_zset [OF wf] take_map [symmetric] rev_map [symmetric])
next
  case True
  let ?P = "\<lambda>i. it_at i < fst after \<or> (it_at i = fst after \<and> it_id i < snd after)"
  let ?L = "map item_of_z (rev (filter (\<lambda>p. snd p \<le> fst after) z))"
  have P: "?P i \<longleftrightarrow> item_key i < after" for i
    by (cases after) (auto simp: item_key_def)
  have "sorted_wrt (\<lambda>x y. item_key y < item_key x) ?L"
    using wf(1) by (simp add: wf_zset_def sorted_wrt_map sorted_wrt_rev sorted_wrt_filter)
  then have s: "sorted_wrt (\<lambda>x y. ?P x \<longrightarrow> ?P y) ?L"
    unfolding P by (rule sorted_wrt_mono_rel [rotated]) (blast intro: order.strict_trans)
  have "length (filter (\<lambda>x. \<not> ?P x) ?L) \<le> length (filter (\<lambda>p. snd p = fst after) z)"
  proof -
    have "filter (\<lambda>x. \<not> ?P x) ?L = map item_of_z (rev (filter (\<lambda>p. \<not> ?P (item_of_z p) \<and> snd p \<le> fst after) z))"
      by (simp add: filter_map rev_filter [symmetric] comp_def)
        (rule arg_cong [where f = "\<lambda>y. map item_of_z (rev y)"], auto intro: filter_cong)
    then have "length (filter (\<lambda>x. \<not> ?P x) ?L) = length (filter (\<lambda>p. \<not> ?P (item_of_z p) \<and> snd p \<le> fst after) z)"
      by simp
    also have "\<dots> \<le> length (filter (\<lambda>p. snd p = fst after) z)"
      by (induction z) (auto simp: item_of_z_def)
    finally show ?thesis .
  qed
  then have "length (filter (\<lambda>x. \<not> ?P x) ?L) \<le> nat extra" using assms(4) [OF True] by linarith
  note t = take_filter_extra [OF s this, of "nat n"]
  have "filter ?P ?L = filter ?P (map item_of_z (rev z))"
    by (simp add: filter_map rev_filter [symmetric] comp_def item_of_z_def)
      (rule arg_cong [where f = "\<lambda>y. map _ (rev y)"], auto intro: filter_cong)
  moreover have "nat n + nat extra = nat (n + extra)" "\<not> n + extra \<le> 0" using assms(3,5) by simp_all
  ultimately show ?thesis using t True
    by (simp add: items_before_def zrange_rev_def merge_zset [OF wf] take_map [symmetric] del: take_map)
qed


lemma wp_feed_items:
  assumes "wf_feeds w" "reliable Redis w" "0 < n"
  shows "wp (feed_items key after n) (\<lambda>r u. r = Inr (take (nat n) (items_before (feed_list u key) after)) \<and> redis_only w u \<and>
    red u = red w \<and> clock w \<le> clock u) w"
proof -
  have cut: "(if int (length y) > n then take (nat n) y else y) = take (nat n) y" for y :: "item list"
    using assms(3) by auto
  have out: "next_out Redis w = Done" "next_out Redis (after_call Redis w) = Done"
    using assms(2) by (simp_all add: reliable_next)
  let ?z = "\<lambda>u. zlive (clock u) (red u) key"
  let ?u = "after_call Redis w" and ?v = "after_call Redis (after_call Redis w)"
  have frame: "redis_only w ?u" "redis_only w ?v" "clock w \<le> clock ?u" "clock w \<le> clock ?v"
    using clock_after_call [of w Redis] clock_after_call [of ?u Redis] by (auto intro: order.trans)
  show ?thesis
  proof (cases "is_set after")
    case False
    then show ?thesis
      using zrange_page [OF _ _ assms(3), of "?z ?u" after 0] wf_zlive [OF assms(1)] out frame
      by (simp add: feed_items_def wp_simps redis_zcount_def redis_zrange_def cut Let_def feed_list_def)
  next
    case True
    have le: "length (filter (\<lambda>p. snd p = fst after) (?z ?v)) \<le> length (filter (\<lambda>p. snd p = fst after) (?z ?u))"
      using clock_after_call [of ?u Redis] by (cases "r_zexp (red w) key") (auto simp: zlive_def)
    show ?thesis
      using True zrange_page [OF _ _ assms(3), of "?z ?v" after "int (length (filter (\<lambda>p. snd p = fst after) (?z ?u)))"]
        wf_zlive [OF assms(1)] out le frame
      by (simp add: feed_items_def wp_simps redis_zcount_def redis_zrange_def cut Let_def feed_list_def)
  qed
qed

text \<open>C12. \<open>FeedItems\<close> returns the first \<open>n\<close> items strictly after the cursor of the whole feed, in
  the order (created_at, post id) descending, whatever number of posts share the cursor's second:
  it equals the reference that sorts and filters the whole set (which is how the in-memory test
  double computes it).\<close>

theorem feed_items_is_reference:
  assumes "wf_feeds w" "reliable Redis w" "0 < n" "run_state (feed_items key after n) w = (res, w')"
  shows "res = Inr (take (nat n) (items_before (feed_list w' key) after)) \<and> red w' = red w"
  using wp_run [OF wp_feed_items [OF assms(1-3)] assms(4)] by simp

section \<open>Delivering a post\<close>

lemma home_feed_key_inj [simp]: "home_feed_key u = home_feed_key v \<longleftrightarrow> u = v"
  by (simp add: home_feed_key_def)

lemma zput_simps [simp]:
  "r_zset (zput k z e r) = (r_zset r)(k := z)"
  "r_zexp (zput k z e r) = (r_zexp r)(k := (if z = [] then None else e))"
  "zlive t (zput k z e r) k' = (if k' = k then if expired t e then [] else z else zlive t r k')"
  by (auto simp: zput_def zlive_def)

lemma zexp_live_fresh [simp]: "\<not> expired t (zexp_live t r k)"
  by (simp add: zexp_live_def)

lemma zput_zexp [simp]: "zexp_live t (zput k z e r) k = (if z = [] \<or> expired t e then None else e)"
  by (simp add: zexp_live_def)

lemma wf_cmds:
  assumes "c \<in> set (feed_cmds it maxlen ttl f)" "wf_zset (zlive t r (home_feed_key f))" "wf_zset (r_zset r k)"
  shows "wf_zset (r_zset (c t r) k)"
  using assms by (auto simp: feed_cmds_def Let_def cmd_zadd_def cmd_zremrange_def cmd_expire_def wf_zadd wf_zremrange)

lemma feed_cmds_effect:
  fixes it :: item
  assumes "0 < maxlen" "0 < ttl" "wf_zset (zlive t r (home_feed_key f))"
  defines "r' \<equiv> fold (\<lambda>c. c t) (feed_cmds it maxlen ttl f) r"
  shows "r_zset r' = (r_zset r)(home_feed_key f := feed_step it maxlen (zlive t r (home_feed_key f)))"
    and "zlive t r' k = (if k = home_feed_key f then feed_step it maxlen (zlive t r k) else zlive t r k)"
proof -
  let ?y = "zadd (it_id it) (it_at it) (zlive t r (home_feed_key f))"
  have ne: "feed_step it maxlen (zlive t r (home_feed_key f)) \<noteq> []"
  proof
    assume "feed_step it maxlen (zlive t r (home_feed_key f)) = []"
    then show False using delivered_feed_step [OF assms(3,1), of it] assms(1) by (simp add: delivered_def)
  qed
  have y: "?y \<noteq> []" using set_zadd [of "it_id it" "it_at it" "zlive t r (home_feed_key f)"] by auto
  show "r_zset r' = (r_zset r)(home_feed_key f := feed_step it maxlen (zlive t r (home_feed_key f)))"
    using assms(2) y ne unfolding r'_def feed_step_def
    by (simp add: feed_cmds_def Let_def cmd_zadd_def cmd_zremrange_def cmd_expire_def)
  show "zlive t r' k = (if k = home_feed_key f then feed_step it maxlen (zlive t r k) else zlive t r k)"
    using assms(2) y ne unfolding r'_def feed_step_def
    by (simp add: feed_cmds_def Let_def cmd_zadd_def cmd_zremrange_def cmd_expire_def)
qed

lemma fold_feeds:
  fixes it :: item and t :: int
  assumes "0 < maxlen" "0 < ttl" "\<forall>k. wf_zset (r_zset r k)"
  defines "g \<equiv> \<lambda>r f. fold (\<lambda>c. c t) (feed_cmds it maxlen ttl f) r"
  shows "zlive t (foldl g r fs) k =
      (if k \<in> home_feed_key ` set fs then feed_step it maxlen (zlive t r k) else zlive t r k)"
    and "r_zset (foldl g r fs) k =
      (if k \<in> home_feed_key ` set fs then feed_step it maxlen (zlive t r k) else r_zset r k)"
proof -
  have "zlive t (foldl g r fs) k =
      (if k \<in> home_feed_key ` set fs then feed_step it maxlen (zlive t r k) else zlive t r k) \<and>
    r_zset (foldl g r fs) k =
      (if k \<in> home_feed_key ` set fs then feed_step it maxlen (zlive t r k) else r_zset r k)"
    using assms(3)
  proof (induction fs arbitrary: r)
    case (Cons f fs)
    have wl: "wf_zset (zlive t r h)" for h using Cons.prems by (simp add: zlive_def)
    have eff: "r_zset (g r f) = (r_zset r)(home_feed_key f := feed_step it maxlen (zlive t r (home_feed_key f)))"
        "zlive t (g r f) h = (if h = home_feed_key f then feed_step it maxlen (zlive t r h) else zlive t r h)" for h
      unfolding g_def by (rule feed_cmds_effect [OF assms(1,2) wl])+
    have wf: "\<forall>h. wf_zset (r_zset (g r f) h)" using eff(1) wf_feed_step [OF wl] Cons.prems by simp
    have again: "feed_step it maxlen (feed_step it maxlen (zlive t r k)) = feed_step it maxlen (zlive t r k)"
      by (rule feed_step_again [OF wl assms(1)])
    show ?case
    proof (cases "k \<in> home_feed_key ` set fs")
      case True
      then show ?thesis using Cons.IH [OF wf] again by (cases "k = home_feed_key f") (simp_all add: eff)
    next
      case False
      then show ?thesis using Cons.IH [OF wf] by (simp add: eff)
    qed
  qed simp
  then show "zlive t (foldl g r fs) k =
      (if k \<in> home_feed_key ` set fs then feed_step it maxlen (zlive t r k) else zlive t r k)"
    and "r_zset (foldl g r fs) k =
      (if k \<in> home_feed_key ` set fs then feed_step it maxlen (zlive t r k) else r_zset r k)" by blast+
qed

lemma exec_feeds: "exec_cmds (concat (map (feed_cmds it maxlen ttl) fs)) w =
    w\<lparr>red := foldl (\<lambda>r f. fold (\<lambda>c. c (clock w)) (feed_cmds it maxlen ttl f) r) (red w) fs\<rparr>"
proof -
  have "fold (\<lambda>c. c t) (concat (map (feed_cmds it maxlen ttl) fs)) r =
      foldl (\<lambda>r f. fold (\<lambda>c. c t) (feed_cmds it maxlen ttl f) r) r fs" for t r
    by (induction fs arbitrary: r) simp_all
  then show ?thesis by (simp add: exec_cmds_def)
qed

text \<open>A successful \<open>AddToFeeds\<close> gives each follower the post and trims the feed to the newest
  \<open>maxLen\<close>, and leaves every other sorted set alone; delivering the same post again changes no feed.\<close>

theorem add_to_feeds_exact:
  assumes "\<forall>k. wf_zset (r_zset (red w) k)" "0 < maxlen" "0 < ttl"
    and "run_state (add_to_feeds fs it maxlen ttl) w = (Inr (), w')"
  shows "let old = zlive (clock w') (red w) k; new = zlive (clock w') (red w') k
    in if k \<in> home_feed_key ` set fs
       then new = feed_step it maxlen old \<and> delivered it maxlen new \<and> feed_step it maxlen new = new
       else new = old"
proof -
  have w': "w' = exec_cmds (concat (map (feed_cmds it maxlen ttl) fs)) (after_call Redis w)"
    using assms(4) by (simp add: add_to_feeds_def pipelined_def Let_def split: outcome.splits)
  have clk: "clock w' = clock (after_call Redis w)" by (simp add: w' exec_cmds_def)
  have eff: "zlive (clock w') (red w') k =
      (if k \<in> home_feed_key ` set fs
       then feed_step it maxlen (zlive (clock w') (red w) k) else zlive (clock w') (red w) k)"
    using fold_feeds(1) [OF assms(2,3,1), of "clock w'" it fs k] unfolding clk by (simp add: w' exec_feeds)
  have wl: "wf_zset (zlive (clock w') (red w) k)" using assms(1) by (simp add: zlive_def)
  show ?thesis
    using delivered_feed_step [OF wl assms(2)] feed_step_again [OF wl assms(2)] by (simp add: eff Let_def)
qed


section \<open>Fan-out\<close>

text \<open>
  \<open>FanOut\<close> starts one goroutine per batch, at most \<open>Parallelism\<close> at a time.  \<open>sched\<close> is the choice
  of the Go scheduler: an odd number lets a goroutine in flight make its round trip (which one, the
  rest of the number says), an even one lets the launching loop go on.  \<open>checked\<close>: the loop has
  passed the test of the context and waits for a free slot.  Result: the round trips and the
  first error.
\<close>

function fan_loop :: "(string list \<Rightarrow> unit io) \<Rightarrow> nat \<Rightarrow> ctx \<Rightarrow> nat stream \<Rightarrow> string list list \<Rightarrow> bool \<Rightarrow>
    string list list \<Rightarrow> int \<Rightarrow> err option \<Rightarrow> (world, int \<times> err option) state" where
  "fan_loop send par c sched pending checked flying trips e =
     (if pending = [] \<and> flying = [] then State_Monad.return (trips, e)
      else if flying \<noteq> [] \<and> (pending = [] \<or> (checked \<and> par \<le> length flying) \<or> odd (shd sched)) then
        (let k = shd sched div 2 mod length flying
         in Monad_Syntax.bind (send (flying ! k)) (\<lambda>r.
              fan_loop send par c (stl sched) pending checked (take k flying @ drop (k + 1) flying) (trips + 1)
                (case r of Inl x \<Rightarrow> (if e = None then Some x else e) | Inr _ \<Rightarrow> e)))
      else if \<not> checked then
        Monad_Syntax.bind (ctx_err c) (\<lambda>d.
          if d then fan_loop send par c (stl sched) [] False flying trips e
          else fan_loop send par c (stl sched) pending True flying trips e)
      else fan_loop send par c (stl sched) (tl pending) False (flying @ [hd pending]) trips e)"
  by pat_completeness auto
termination
proof (relation "measure (\<lambda>(send, par, c, sched, pending, checked, flying, trips, e).
    3 * length pending + length flying + (if checked then 0 else 1))", goal_cases)
  case (2 send par c sched pending checked flying trips e k r)
  then have "k < length flying" by simp
  then have "length (take k flying @ drop (k + 1) flying) < length flying" by simp
  then show ?case by simp
next
  case (5 send par c sched pending checked flying trips e)
  then show ?case by (cases pending) auto
qed auto

declare fan_loop.simps [simp del]

definition fan_out :: "nat stream \<Rightarrow> ctx \<Rightarrow> string list \<Rightarrow> item \<Rightarrow> policy \<Rightarrow> (world, int \<times> err option) state" where
  "fan_out sched c followers it p0 =
     (let p = policy_defaults p0
      in Monad_Syntax.bind (fan_loop (\<lambda>b. add_to_feeds b it (max_feed_len p) (feed_ttl p)) (nat (parallelism p)) c sched
             (batches followers (fan_batch p)) False [] 0 None) (\<lambda>r.
         Monad_Syntax.bind (ctx_err c) (\<lambda>d.
           State_Monad.return (fst r, if snd r = None \<and> d then Some ErrIO else snd r))))"


lemma expired_mono: "expired t c \<Longrightarrow> t \<le> u \<Longrightarrow> expired u c"
  by (cases c) auto

text \<open>When a goroutine moves, and the four moves.\<close>

definition flies :: "nat \<Rightarrow> nat stream \<Rightarrow> string list list \<Rightarrow> bool \<Rightarrow> string list list \<Rightarrow> bool" where
  "flies par sched pending checked flying \<longleftrightarrow>
     flying \<noteq> [] \<and> (pending = [] \<or> (checked \<and> par \<le> length flying) \<or> odd (shd sched))"

lemma fan_loop_moves:
  "fan_loop send par c sched [] checked [] trips e = State_Monad.return (trips, e)"
  "flies par sched pending checked flying \<Longrightarrow> k = shd sched div 2 mod length flying \<Longrightarrow>
    fan_loop send par c sched pending checked flying trips e = Monad_Syntax.bind (send (flying ! k)) (\<lambda>r.
      fan_loop send par c (stl sched) pending checked (take k flying @ drop (k + 1) flying) (trips + 1)
        (case r of Inl x \<Rightarrow> (if e = None then Some x else e) | Inr _ \<Rightarrow> e))"
  "\<not> flies par sched pending False flying \<Longrightarrow> pending \<noteq> [] \<Longrightarrow>
    fan_loop send par c sched pending False flying trips e = Monad_Syntax.bind (ctx_err c) (\<lambda>d.
      if d then fan_loop send par c (stl sched) [] False flying trips e
      else fan_loop send par c (stl sched) pending True flying trips e)"
  "\<not> flies par sched pending True flying \<Longrightarrow> pending \<noteq> [] \<Longrightarrow>
    fan_loop send par c sched pending True flying trips e =
      fan_loop send par c (stl sched) (tl pending) False (flying @ [hd pending]) trips e"
  by (subst fan_loop.simps; force simp: flies_def Let_def)+

lemma fan_loop_induct [case_names finished fly check launch]:
  assumes "\<And>sched checked trips e w. Q sched [] checked [] trips e w"
    and "\<And>sched pending checked flying trips e w k.
      flies par sched pending checked flying \<Longrightarrow> k = shd sched div 2 mod length flying \<Longrightarrow> k < length flying \<Longrightarrow>
      (\<And>e' w'. Q (stl sched) pending checked (take k flying @ drop (k + 1) flying) (trips + 1) e' w') \<Longrightarrow>
      Q sched pending checked flying trips e w"
    and "\<And>sched pending flying trips e w. \<not> flies par sched pending False flying \<Longrightarrow> pending \<noteq> [] \<Longrightarrow>
      Q (stl sched) [] False flying trips e w \<Longrightarrow> Q (stl sched) pending True flying trips e w \<Longrightarrow>
      Q sched pending False flying trips e w"
    and "\<And>sched pending flying trips e w. \<not> flies par sched pending True flying \<Longrightarrow> pending \<noteq> [] \<Longrightarrow>
      Q (stl sched) (tl pending) False (flying @ [hd pending]) trips e w \<Longrightarrow> Q sched pending True flying trips e w"
  shows "Q sched pending checked flying trips (e :: err option) (w :: world)"
proof (induction "3 * length pending + length flying + (if checked then 0 else 1 :: nat)"
    arbitrary: sched pending checked flying trips e w rule: less_induct)
  case (less pending checked flying sched trips e w)
  show ?case
  proof (cases "flies par sched pending checked flying")
    case True
    let ?k = "shd sched div 2 mod length flying"
    have "flying \<noteq> []" using True by (simp add: flies_def)
    then have k: "?k < length flying" by simp
    then have "length (take ?k flying @ drop (?k + 1) flying) < length flying" by simp
    then show ?thesis by (intro assms(2) [OF True refl k] less.hyps) simp
  next
    case False
    show ?thesis
    proof (cases "pending = []")
      case True
      then have "flying = []" using False by (simp add: flies_def)
      then show ?thesis using True assms(1) by simp
    next
      case ne: False
      then obtain p ps where len: "pending = p # ps" by (cases pending) simp_all
      show ?thesis
      proof (cases checked)
        case True
        have "Q (stl sched) (tl pending) False (flying @ [hd pending]) trips e w"
          by (rule less.hyps) (simp add: len True)
        moreover have "\<not> flies par sched pending True flying" using False True by simp
        ultimately have "Q sched pending True flying trips e w" using assms(4) [OF _ ne] by blast
        then show ?thesis by (simp add: True)
      next
        case nc: False
        have a: "Q (stl sched) [] False flying trips e w" by (rule less.hyps) (simp add: len nc)
        have b: "Q (stl sched) pending True flying trips e w" by (rule less.hyps) (simp add: len nc)
        have "\<not> flies par sched pending False flying" using False nc by simp
        then have "Q sched pending False flying trips e w" by (rule assms(3) [OF _ ne a b])
        then show ?thesis using nc by simp
      qed
    qed
  qed
qed

lemma fan_loop_keeps_error:
  "e \<noteq> None \<Longrightarrow> wp (fan_loop send par c sched pending checked flying trips e) (\<lambda>r _. snd r \<noteq> None) w"
proof (induction sched pending checked flying trips e w rule: fan_loop_induct [where par = par])
  case (fly sched pending checked flying trips e w k)
  have "wp (fan_loop send par c (stl sched) pending checked (take k flying @ drop (k + 1) flying) (trips + 1)
      (case r of Inl x \<Rightarrow> (if e = None then Some x else e) | Inr _ \<Rightarrow> e)) (\<lambda>r _. snd r \<noteq> None) w'" for r w'
    by (rule fly(4)) (use fly(5) in \<open>simp split: sum.split\<close>)
  then show ?case unfolding fan_loop_moves(2) [OF fly(1,2)] wp_bind by (rule wp_all)
next
  case (check sched pending flying trips e w)
  then show ?case unfolding fan_loop_moves(3) [OF check(1,2)] wp_bind wp_ctx_err by simp
next
  case (launch sched pending flying trips e w)
  then show ?case unfolding fan_loop_moves(4) [OF launch(1,2)] by simp
next
  case (finished sched checked trips e w)
  then show ?case by (simp add: fan_loop_moves(1) wp_ret)
qed

text \<open>A law of one round trip lifts to the whole fan-out, for every schedule.\<close>

definition reached :: "(string \<Rightarrow> world \<Rightarrow> bool) \<Rightarrow> ctx \<Rightarrow> string list list \<Rightarrow> int \<Rightarrow> world \<Rightarrow> int \<times> err option \<Rightarrow> world \<Rightarrow> bool" where
  "reached P c bs trips w r w' \<longleftrightarrow> (snd r = None \<longrightarrow> clock w \<le> clock w' \<and> (\<forall>f. P f w \<longrightarrow> P f w') \<and>
    (expired (clock w') c \<or> ((\<forall>f\<in>set (concat bs). P f w') \<and> fst r = trips + int (length bs))))"

lemma reached_step:
  assumes "reached P c bs' (trips + 1) w1 r w'" "clock w \<le> clock w1" "\<forall>f. P f w \<longrightarrow> P f w1" "\<forall>f\<in>set b. P f w1"
    and "set (concat bs) = set b \<union> set (concat bs')" "length bs = Suc (length bs')"
  shows "reached P c bs trips w r w'"
  unfolding reached_def
proof (intro impI)
  assume n: "snd r = None"
  have "\<forall>f\<in>set (concat bs). P f w'" if "\<forall>f\<in>set (concat bs'). P f w'" "\<forall>f. P f w1 \<longrightarrow> P f w'"
    using that assms(4) unfolding assms(5) by blast
  then show "clock w \<le> clock w' \<and> (\<forall>f. P f w \<longrightarrow> P f w') \<and>
    (expired (clock w') c \<or> ((\<forall>f\<in>set (concat bs). P f w') \<and> fst r = trips + int (length bs)))"
    using assms(1-3) n unfolding reached_def assms(6) by auto
qed

lemma fan_loop_reaches:
  assumes law: "\<And>b w. J w \<Longrightarrow> wp (send b) (\<lambda>r w'. r = Inr () \<longrightarrow>
      J w' \<and> clock w \<le> clock w' \<and> (\<forall>f. P f w \<longrightarrow> P f w') \<and> (\<forall>f\<in>set b. P f w')) w"
    and "J w" "e = None"
  shows "wp (fan_loop send par c sched pending checked flying trips e)
    (reached P c (pending @ flying) trips w) w"
  using assms(2,3)
proof (induction sched pending checked flying trips e w rule: fan_loop_induct [where par = par])
  case (fly sched pending checked flying trips e w k)
  let ?F = "take k flying @ drop (k + 1) flying"
  have fl: "mset flying = add_mset (flying ! k) (mset ?F)"
  proof -
    have "mset flying = mset (take k flying @ flying ! k # drop (k + 1) flying)"
      using id_take_nth_drop [OF fly(3)] by simp
    then show ?thesis by simp
  qed
  have s1: "set (concat (pending @ flying)) = set (flying ! k) \<union> set (concat (pending @ ?F))"
    using arg_cong [OF fl, of set_mset] by auto
  have s2: "length (pending @ flying) = Suc (length (pending @ ?F))"
    using arg_cong [OF fl, of size] by simp
  show ?case unfolding fan_loop_moves(2) [OF fly(1,2)] wp_bind
  proof (rule wp_mono [OF law [OF fly(5)]], goal_cases)
    case (1 r w1)
    show ?case
    proof (cases r)
      case (Inl x)
      have "wp (fan_loop send par c (stl sched) pending checked ?F (trips + 1) (Some x))
        (\<lambda>r _. snd r \<noteq> None) w1" by (rule fan_loop_keeps_error) simp
      then show ?thesis unfolding Inl fly(6) by (simp, elim wp_mono) (auto simp: reached_def)
    next
      case (Inr u)
      have l: "J w1" "clock w \<le> clock w1" "\<forall>f. P f w \<longrightarrow> P f w1" "\<forall>f\<in>set (flying ! k). P f w1"
        using 1 Inr by simp_all
      have "wp (fan_loop send par c (stl sched) pending checked ?F (trips + 1) e)
        (reached P c (pending @ ?F) (trips + 1) w1) w1" by (rule fly(4) [OF l(1) fly(6)])
      then have "wp (fan_loop send par c (stl sched) pending checked ?F (trips + 1) e)
        (reached P c (pending @ flying) trips w) w1"
        by (rule wp_mono) (rule reached_step [OF _ l(2-4) s1 s2])
      then show ?thesis by (simp add: Inr)
    qed
  qed
next
  case (check sched pending flying trips e w)
  have "wp (fan_loop send par c (stl sched) [] False flying trips e) (reached P c (pending @ flying) trips w) w"
    if "expired (clock w) c"
    by (rule wp_mono [OF check(3) [OF check(5,6)]]) (use that expired_mono in \<open>auto simp: reached_def\<close>)
  then show ?case unfolding fan_loop_moves(3) [OF check(1,2)] wp_bind wp_ctx_err
    using check(4) [OF check(5,6)] by simp
next
  case (launch sched pending flying trips e w)
  have "set (concat (tl pending @ flying @ [hd pending])) = set (concat (pending @ flying))"
    "length (tl pending @ flying @ [hd pending]) = length (pending @ flying)"
    using launch(2) by (cases pending; auto)+
  then have "reached P c (tl pending @ flying @ [hd pending]) = reached P c (pending @ flying)"
    by (intro ext) (simp only: reached_def)
  then show ?case using launch(3) [OF launch(4,5)] unfolding fan_loop_moves(4) [OF launch(1,2)] by metis
next
  case (finished sched checked trips e w)
  then show ?case by (simp add: fan_loop_moves(1) wp_ret reached_def)
qed


lemma fan_loop_succeeds:
  assumes law: "\<And>b w. J w \<Longrightarrow> wp (send b) (\<lambda>r w'. r = Inr () \<and> J w') w"
    and "J w" "e = None"
  shows "wp (fan_loop send par None sched pending checked flying trips e) (\<lambda>r _. snd r = None) w"
  using assms(2,3)
proof (induction sched pending checked flying trips e w rule: fan_loop_induct [where par = par])
  case (fly sched pending checked flying trips e w k)
  show ?case unfolding fan_loop_moves(2) [OF fly(1,2)] wp_bind
    by (rule wp_mono [OF law [OF fly(5)]]) (use fly(4,6) in auto)
next
  case (check sched pending flying trips e w)
  then show ?case unfolding fan_loop_moves(3) [OF check(1,2)] wp_bind wp_ctx_err by simp
next
  case (launch sched pending flying trips e w)
  then show ?case unfolding fan_loop_moves(4) [OF launch(1,2)] by simp
next
  case (finished sched checked trips e w)
  then show ?case by (simp add: fan_loop_moves(1) wp_ret)
qed

lemma add_to_feeds_zset:
  assumes "\<forall>k. wf_zset (r_zset (red w) k)" "0 < maxlen" "0 < ttl"
    and "run_state (add_to_feeds fs it maxlen ttl) w = (Inr (), w')"
  shows "r_zset (red w') k = (if k \<in> home_feed_key ` set fs
      then feed_step it maxlen (zlive (clock w') (red w) k) else r_zset (red w) k) \<and> clock w \<le> clock w'"
proof -
  have w': "w' = exec_cmds (concat (map (feed_cmds it maxlen ttl) fs)) (after_call Redis w)"
    using assms(4) by (simp add: add_to_feeds_def pipelined_def Let_def split: outcome.splits)
  then show ?thesis
    using fold_feeds(2) [OF assms(2,3,1), of "clock (after_call Redis w)" it fs k] clock_after_call [of w Redis]
    by (simp add: exec_feeds)
qed

lemma add_to_feeds_law:
  assumes "\<forall>k. wf_zset (r_zset (red w) k)" "0 < maxlen" "0 < ttl"
  shows "wp (add_to_feeds fs it maxlen ttl) (\<lambda>r w'. r = Inr () \<longrightarrow> (\<forall>k. wf_zset (r_zset (red w') k)) \<and> clock w \<le> clock w' \<and>
    (\<forall>f. delivered it maxlen (r_zset (red w) (home_feed_key f)) \<longrightarrow> delivered it maxlen (r_zset (red w') (home_feed_key f))) \<and>
    (\<forall>f\<in>set fs. delivered it maxlen (r_zset (red w') (home_feed_key f)))) w"
proof -
  obtain r w' where run: "run_state (add_to_feeds fs it maxlen ttl) w = (r, w')" by fastforce
  have wl: "wf_zset (zlive t (red w) k)" for t k using assms(1) by (simp add: zlive_def)
  note z = add_to_feeds_zset [OF assms, of fs it w'] and d = delivered_feed_step [OF wl assms(2)]
  have "r = Inr () \<longrightarrow> (\<forall>k. wf_zset (r_zset (red w') k)) \<and> clock w \<le> clock w' \<and>
    (\<forall>f. delivered it maxlen (r_zset (red w) (home_feed_key f)) \<longrightarrow> delivered it maxlen (r_zset (red w') (home_feed_key f))) \<and>
    (\<forall>f\<in>set fs. delivered it maxlen (r_zset (red w') (home_feed_key f)))"
    using z run d wf_feed_step [OF wl] assms(1) by simp
  then show ?thesis by (simp add: wp_def run)
qed

text \<open>If \<open>FanOut\<close> returns no error, then under every schedule of the goroutines it made one round
  trip per batch and every follower's feed holds the post (or \<open>MaxFeedLen\<close> newer ones).\<close>

theorem fan_out_reaches_everyone:
  assumes "\<forall>k. wf_zset (r_zset (red w) k)" "run_state (fan_out sched c followers it p) w = ((trips, None), w')"
  shows "trips = int (length (batches followers (fan_batch (policy_defaults p)))) \<and>
    list_all (\<lambda>f. delivered it (max_feed_len (policy_defaults p)) (r_zset (red w') (home_feed_key f))) followers"
proof -
  let ?p = "policy_defaults p"
  let ?P = "\<lambda>f w. delivered it (max_feed_len ?p) (r_zset (red w) (home_feed_key f))"
  let ?bs = "batches followers (fan_batch ?p)"
  have "wp (fan_loop (\<lambda>b. add_to_feeds b it (max_feed_len ?p) (feed_ttl ?p)) (nat (parallelism ?p)) c sched ?bs False [] 0 None)
      (reached ?P c (?bs @ []) 0 w) w"
  proof (rule fan_loop_reaches [where J = "\<lambda>w. \<forall>k. wf_zset (r_zset (red w) k)"])
    fix b and u :: world
    assume "\<forall>k. wf_zset (r_zset (red u) k)"
    then show "wp (add_to_feeds b it (max_feed_len ?p) (feed_ttl ?p)) (\<lambda>r w'. r = Inr () \<longrightarrow>
        (\<forall>k. wf_zset (r_zset (red w') k)) \<and> clock u \<le> clock w' \<and> (\<forall>f. ?P f u \<longrightarrow> ?P f w') \<and> (\<forall>f\<in>set b. ?P f w')) u"
      by (rule add_to_feeds_law [OF _ policy_defaults_pos(4,5)])
  qed (use assms(1) in simp_all)
  then have "wp (fan_out sched c followers it p) (\<lambda>r w'. snd r = None \<longrightarrow>
      (\<forall>f\<in>set (concat ?bs). ?P f w') \<and> fst r = int (length ?bs)) w"
    unfolding fan_out_def Let_def wp_bind wp_ctx_err wp_ret
    by (rule wp_mono) (auto simp: reached_def)
  from wp_run [OF this assms(2)] show ?thesis
    using batches_partition [of followers "fan_batch ?p"] by (simp add: list_all_iff)
qed

text \<open>With Redis up and no cancellation \<open>FanOut\<close> succeeds, under every schedule.\<close>

theorem fan_out_succeeds:
  assumes "reliable Redis w"
  shows "snd (fst (run_state (fan_out sched None followers it p) w)) = None"
proof -
  have "wp (add_to_feeds b it n ttl) (\<lambda>r w'. r = Inr () \<and> reliable Redis w') w" if "reliable Redis w" for b n ttl w
    using that reliable_after [OF that, of Redis]
    by (simp add: add_to_feeds_def pipelined_def wp_def reliable_next [OF that] Let_def exec_cmds_def outcomes_def del: after_call_simps)
  then have "wp (fan_out sched None followers it p) (\<lambda>r w'. snd r = None) w"
    unfolding fan_out_def Let_def wp_bind wp_ctx_err wp_ret expired.simps
    using fan_loop_succeeds [where J = "reliable Redis"] assms by simp
  then show ?thesis by (simp add: wp_def split_beta)
qed


section \<open>A small instance\<close>

definition demo_feeds :: world where
  "demo_feeds = quiet_world\<lparr>db := empty_db, red := empty_redis\<lparr>r_zset := (\<lambda>k.
     if k = home_feed_key ''ann'' then [(''a'', 4), (''b'', 5), (''c'', 5)] else [])\<rparr>\<rparr>"

lemma demo_feeds_ok: "wf_feeds demo_feeds" "\<forall>k. wf_zset (r_zset (red demo_feeds) k)" "reliable y demo_feeds"
  by (auto simp: demo_feeds_def wf_feeds_def wf_zset_def)

lemma demo_next: "next_out y demo_feeds = Done" "shd (outs demo_feeds y) = (Done, 0)" "stl (outs demo_feeds y) = outs demo_feeds y"
  "clock demo_feeds = 0"
  by (simp_all add: next_out_def demo_feeds_def quiet_world_def)

lemma after_demo: "after_call Redis demo_feeds = demo_feeds"
  using demo_next by (simp add: after_call_def)

lemma demo_zset: "zlive t (red demo_feeds) (home_feed_key ''ann'') = [(''a'', 4), (''b'', 5), (''c'', 5)]"
  by (simp add: zlive_def demo_feeds_def empty_redis_def)

definition demo_item :: item where
  "demo_item = \<lparr>it_id = ''p'', it_author = ''u'', it_at = 5\<rparr>"

definition demo_policy :: policy where
  "demo_policy = \<lparr>celebrity_threshold = 0, fan_batch = 1, parallelism = 0, max_feed_len = 3, feed_ttl = 0\<rparr>"

theorem feed_items_is_reference_witness:
  "fst (run_state (feed_items (home_feed_key ''ann'') (5, ''c'') 1) demo_feeds) = Inr [\<lparr>it_id = ''b'', it_author = [], it_at = 5\<rparr>]"
proof -
  let ?r = "run_state (feed_items (home_feed_key ''ann'') (5, ''c'') 1) demo_feeds"
  have r: "?r = (fst ?r, snd ?r)" by simp
  have z: "fst ?r = Inr (take (nat 1) (items_before (feed_list (snd ?r) (home_feed_key ''ann'')) (5, ''c''))) \<and> red (snd ?r) = red demo_feeds"
    by (rule feed_items_is_reference [OF demo_feeds_ok(1,3) _ r]) simp
  have "merge_feeds 0 [map item_of_z (zlive t (red demo_feeds) (home_feed_key ''ann''))] = map item_of_z [(''c'', 5), (''b'', 5), (''a'', 4)]" for t
    unfolding demo_zset using merge_zset [of "[(''a'', 4), (''b'', 5), (''c'', 5)]"] by (simp add: wf_zset_def)
  then show ?thesis using z by (simp add: feed_list_def items_before_def is_set_def item_of_z_def)
qed

theorem add_to_feeds_exact_witness:
  "set (zlive 0 (red (snd (run_state (add_to_feeds [''ann''] demo_item 3 9) demo_feeds))) (home_feed_key ''ann'')) =
     {(''b'', 5), (''c'', 5), (''p'', 5)}"
proof -
  define w' where "w' = snd (run_state (add_to_feeds [''ann''] demo_item 3 9) demo_feeds)"
  have run: "run_state (add_to_feeds [''ann''] demo_item 3 9) demo_feeds = (Inr (), w')" and clk: "clock w' = 0"
    by (simp_all add: w'_def add_to_feeds_def pipelined_def demo_next after_demo Let_def exec_cmds_def)
  have "zlive 0 (red w') (home_feed_key ''ann'') = [(''b'', 5), (''c'', 5), (''p'', 5)]"
    using add_to_feeds_exact [OF demo_feeds_ok(2) _ _ run, of "home_feed_key ''ann''"]
    by (simp add: Let_def clk demo_zset feed_step_def zremrange_def zadd_def demo_item_def)
  then show ?thesis unfolding w'_def by simp
qed

theorem fan_out_reaches_everyone_witness:
  "fst (run_state (fan_out (sconst 0) None [''bob'', ''ann''] demo_item demo_policy) demo_feeds) = (2, None)"
proof -
  let ?r = "run_state (fan_out (sconst 0) None [''bob'', ''ann''] demo_item demo_policy) demo_feeds"
  have two: "batches [''bob'', ''ann''] 1 = [[''bob''], [''ann'']]"
    by (simp add: batches_def batch_loop.simps)
  have "snd (fst ?r) = None"
    by (simp add: fan_out_def fan_loop.simps run_simps two demo_policy_def policy_defaults_def add_to_feeds_def pipelined_def
        demo_next after_demo Let_def ctx_err_def exec_cmds_def next_out_def after_call_def)
  then have "?r = ((fst (fst ?r), None), snd ?r)" by (metis prod.collapse)
  then have "fst (fst ?r) = int (length (batches [''bob'', ''ann''] (fan_batch (policy_defaults demo_policy))))"
    using fan_out_reaches_everyone [OF demo_feeds_ok(2)] by blast
  then show ?thesis using \<open>snd (fst ?r) = None\<close> two by (simp add: demo_policy_def policy_defaults_def prod_eq_iff)
qed

theorem fan_out_succeeds_witness:
  "snd (fst (run_state (fan_out (sconst 0) None [''bob'', ''ann''] demo_item demo_policy) demo_feeds)) = None"
  by (rule fan_out_succeeds [OF demo_feeds_ok(3)])

end
