(* ===== verification/SocialGraph.thy ===== *)
theory SocialGraph
  imports Paging
begin

text \<open>
  \<open>shared/socialgraph/socialgraph.go\<close> (the queries over the follows table that other services
  make) and \<open>services/social/service/follow.go\<close> (its owner).  Text columns are compared bytewise.
\<close>

section \<open>Queries\<close>

definition pg_query :: "(world \<Rightarrow> 'a) \<Rightarrow> 'a io" where
  "pg_query f = ext_call PG (\<lambda>w. (Inr (f w), w))"

definition follower_key :: "follow_row \<Rightarrow> cursor" where
  "follower_key f = (f_at f, f_from f)"

definition following_key :: "follow_row \<Rightarrow> cursor" where
  "following_key f = (f_at f, f_to f)"

definition user_exists :: "string \<Rightarrow> bool io" where
  "user_exists u = pg_query (\<lambda>w. list_ex (\<lambda>r. u_id r = u) (t_users (db w)))"

definition follower_count_up_to :: "string \<Rightarrow> int \<Rightarrow> int io" where
  "follower_count_up_to u mx = pg_query (\<lambda>w. int (length (take (nat mx) (filter (\<lambda>f. f_to f = u) (t_follows (db w))))))"

definition followers_of :: "string \<Rightarrow> world \<Rightarrow> follow_row list" where
  "followers_of u w = filter (\<lambda>f. f_to f = u) (t_follows (db w))"

definition followees_of :: "string \<Rightarrow> world \<Rightarrow> follow_row list" where
  "followees_of u w = filter (\<lambda>f. f_from f = u) (t_follows (db w))"

type_synonym id_page = "string list \<times> cursor option"

text \<open>\<open>page\<close>: one row more than the limit tells whether there is a next page.\<close>

definition graph_page ::
  "(world \<Rightarrow> follow_row list) \<Rightarrow> (follow_row \<Rightarrow> cursor) \<Rightarrow> cursor \<Rightarrow> int \<Rightarrow> id_page io" where
  "graph_page rows key after limit =
     tryE (pg_query (\<lambda>w. select_desc key (cursor_opt after) (limit + 1) (rows w))) (\<lambda>got.
       (case cut_page key limit got of (xs, nx) \<Rightarrow> ret (map (\<lambda>x. snd (key x)) xs, nx)))"

definition followers :: "string \<Rightarrow> cursor \<Rightarrow> int \<Rightarrow> id_page io" where
  "followers u after limit = graph_page (followers_of u) follower_key after limit"

definition following :: "string \<Rightarrow> cursor \<Rightarrow> int \<Rightarrow> id_page io" where
  "following u after limit = graph_page (followees_of u) following_key after limit"

text \<open>\<open>AllFollowers\<close>.  Every iteration but the last adds at least one id, so \<open>max\<close> iterations are
  enough: \<open>None\<close>, the fuel ran out, is never the result (\<open>all_followers_exact\<close>).\<close>

fun all_followers_loop :: "nat \<Rightarrow> string \<Rightarrow> int \<Rightarrow> string list \<Rightarrow> cursor \<Rightarrow> string list option io" where
  "all_followers_loop fuel u mx out cur =
     (if int (length out) < mx then
        (case fuel of
           0 \<Rightarrow> ret None
         | Suc m \<Rightarrow>
             (let n = (if mx - int (length out) < 1000 then mx - int (length out) else 1000)
              in tryE (followers u cur n) (\<lambda>p.
                   (case snd p of
                      None \<Rightarrow> ret (Some (out @ fst p))
                    | Some c \<Rightarrow> all_followers_loop m u mx (out @ fst p) c))))
      else ret (Some out))"

declare all_followers_loop.simps [simp del]

definition all_followers :: "string \<Rightarrow> int \<Rightarrow> string list option io" where
  "all_followers u mx = all_followers_loop (nat mx) u mx [] (0, [])"

definition followed_among :: "string \<Rightarrow> string list \<Rightarrow> string list io" where
  "followed_among u candidates =
     (if candidates = [] then ret []
      else pg_query (\<lambda>w. map f_to (filter (\<lambda>f. f_from f = u \<and> f_to f \<in> set candidates) (t_follows (db w)))))"

section \<open>The social service\<close>

definition upd_follows :: "(follow_row list \<Rightarrow> follow_row list) \<Rightarrow> world \<Rightarrow> world" where
  "upd_follows f = upd_db (\<lambda>d. d\<lparr>t_follows := f (t_follows d)\<rparr>)"

definition is_follow :: "string \<Rightarrow> string \<Rightarrow> follow_row \<Rightarrow> bool" where
  "is_follow a b f \<longleftrightarrow> f_from f = a \<and> f_to f = b"

definition follow_id :: "string \<Rightarrow> string \<Rightarrow> string" where
  "follow_id a b = a @ '':'' @ b"

text \<open>The insert returns the number of rows affected; it refuses a self-follow (\<open>CHECK\<close>).\<close>

definition insert_follow :: "string \<Rightarrow> string \<Rightarrow> int io" where
  "insert_follow a b = ext_call PG (\<lambda>w.
     if a = b then (Inl CheckViolation, w)
     else if list_ex (is_follow a b) (t_follows (db w)) then (Inr 0, w)
     else (Inr 1, upd_follows (\<lambda>rows. rows @ [\<lparr>f_from = a, f_to = b, f_at = clock w\<rparr>]) w))"

definition add_follow :: "string \<Rightarrow> string \<Rightarrow> string io" where
  "add_follow a b =
     (if a = b then fail ErrCannotFollowSelf
      else tryE (user_exists b) (\<lambda>ex.
        if \<not> ex then fail ErrUserNotFound
        else tryE (insert_follow a b) (\<lambda>n.
          if n = 0 then fail ErrAlreadyFollowing else ret (follow_id a b))))"

definition remove_follow :: "string \<Rightarrow> string \<Rightarrow> unit io" where
  "remove_follow a b =
     tryE (ext_call PG (\<lambda>w. (Inr (int (count_where (is_follow a b) (t_follows (db w)))),
         upd_follows (filter (\<lambda>f. \<not> is_follow a b f)) w))) (\<lambda>n.
       if n = 0 then fail ErrNotFollowing else ret ())"

text \<open>\<open>list\<close>; JSON is an argument, as in \<open>Paging\<close>.\<close>

definition follow_list :: "(cursor \<Rightarrow> string) \<Rightarrow> (string \<Rightarrow> cursor option) \<Rightarrow> (cursor \<Rightarrow> int \<Rightarrow> id_page io) \<Rightarrow>
    int \<Rightarrow> string \<Rightarrow> (string list \<times> string) io" where
  "follow_list marshal unmarshal fn limit cursor =
     (case cursor_decode unmarshal cursor of
        Inl e \<Rightarrow> fail e
      | Inr after \<Rightarrow> tryE (fn after (page_limit limit 50 200)) (\<lambda>p.
          ret (fst p, case snd p of None \<Rightarrow> [] | Some c \<Rightarrow> cursor_encode marshal c)))"

definition service_followers :: "(cursor \<Rightarrow> string) \<Rightarrow> (string \<Rightarrow> cursor option) \<Rightarrow> string \<Rightarrow> int \<Rightarrow> string \<Rightarrow> (string list \<times> string) io" where
  "service_followers marshal unmarshal u = follow_list marshal unmarshal (followers u)"

definition service_following :: "(cursor \<Rightarrow> string) \<Rightarrow> (string \<Rightarrow> cursor option) \<Rightarrow> string \<Rightarrow> int \<Rightarrow> string \<Rightarrow> (string list \<times> string) io" where
  "service_following marshal unmarshal u = follow_list marshal unmarshal (following u)"

section \<open>The table\<close>

text \<open>Primary key and \<open>CHECK\<close> of the follows table; ids are not empty.\<close>

definition follows_wf :: "world \<Rightarrow> bool" where
  "follows_wf w \<longleftrightarrow> distinct (map (\<lambda>f. (f_from f, f_to f)) (t_follows (db w))) \<and>
     list_all (\<lambda>f. f_from f \<noteq> f_to f \<and> f_from f \<noteq> [] \<and> f_to f \<noteq> []) (t_follows (db w))"

lemma upd_follows_simps [simp]:
  "t_follows (db (upd_follows f w)) = f (t_follows (db w))" "t_users (db (upd_follows f w)) = t_users (db w)"
  "clock (upd_follows f w) = clock w" "outs (upd_follows f w) = outs w" "next_out y (upd_follows f w) = next_out y w"
  by (simp_all add: upd_follows_def)

lemma follows_wf_cong: "t_follows (db w') = t_follows (db w) \<Longrightarrow> follows_wf w' = follows_wf w"
  by (simp add: follows_wf_def)

lemma distinct_followers: "follows_wf w \<Longrightarrow> distinct (map follower_key (followers_of u w))"
  by (fastforce simp: follows_wf_def followers_of_def follower_key_def distinct_map inj_on_def)

lemma distinct_followees: "follows_wf w \<Longrightarrow> distinct (map following_key (followees_of u w))"
  by (fastforce simp: follows_wf_def followees_of_def following_key_def distinct_map inj_on_def)

text \<open>Follow and unfollow keep the table well formed (no pair twice, nobody follows themselves),
  whatever the outcome of the calls; on success exactly the one row was added or removed; without a
  lost reply an error leaves the table as it was.\<close>

theorem follow_unfollow_table:
  assumes "follows_wf w" "a \<noteq> []" "b \<noteq> []"
    and "run_state (add_follow a b) w = (r, w1)" "run_state (remove_follow a b) w = (q, w2)"
  shows "follows_wf w1 \<and> follows_wf w2 \<and>
    (\<forall>i. r = Inr i \<longrightarrow> i = follow_id a b \<and> a \<noteq> b \<and> (\<exists>u\<in>set (t_users (db w)). u_id u = b) \<and>
       (\<exists>t. t_follows (db w1) = t_follows (db w) @ [\<lparr>f_from = a, f_to = b, f_at = t\<rparr>])) \<and>
    (r = Inl ErrAlreadyFollowing \<longrightarrow> (\<exists>f\<in>set (t_follows (db w)). is_follow a b f)) \<and>
    (no_lost PG w \<and> isl r \<longrightarrow> t_follows (db w1) = t_follows (db w)) \<and>
    (q = Inr () \<longrightarrow> (\<exists>f\<in>set (t_follows (db w)). is_follow a b f) \<and>
       t_follows (db w2) = filter (\<lambda>f. \<not> is_follow a b f) (t_follows (db w))) \<and>
    (no_lost PG w \<and> isl q \<longrightarrow> t_follows (db w2) = t_follows (db w))"
proof -
  have filter_wf: "follows_wf (upd_follows (filter P) v)" if "follows_wf v" for P v
    using that by (auto simp: follows_wf_def distinct_map inj_on_def list_all_iff)
  have add_wf: "follows_wf (upd_follows (\<lambda>rows. rows @ [\<lparr>f_from = a, f_to = b, f_at = t\<rparr>]) v)"
    if "follows_wf v" "a \<noteq> b" "\<not> list_ex (is_follow a b) (t_follows (db v))" for v t
    using that assms(2,3) by (auto simp: follows_wf_def list_ex_iff is_follow_def)
  have wfa: "follows_wf (after_call PG v) = follows_wf v" for v by (simp add: follows_wf_def)
  have nl: "no_lost PG w \<Longrightarrow> next_out PG w \<noteq> Lost" "no_lost PG w \<Longrightarrow> next_out PG (after_call PG w) \<noteq> Lost"
    by (simp_all add: no_lost_next)
  have "wp (add_follow a b) (\<lambda>r w1. follows_wf w1 \<and>
    (\<forall>i. r = Inr i \<longrightarrow> i = follow_id a b \<and> a \<noteq> b \<and> (\<exists>u\<in>set (t_users (db w)). u_id u = b) \<and>
       (\<exists>t. t_follows (db w1) = t_follows (db w) @ [\<lparr>f_from = a, f_to = b, f_at = t\<rparr>])) \<and>
    (r = Inl ErrAlreadyFollowing \<longrightarrow> (\<exists>f\<in>set (t_follows (db w)). is_follow a b f)) \<and>
    (no_lost PG w \<and> isl r \<longrightarrow> t_follows (db w1) = t_follows (db w))) w"
    using assms(1) nl filter_wf add_wf
    by (auto simp: add_follow_def user_exists_def pg_query_def insert_follow_def wp_simps wfa list_ex_iff
        split: outcome.split)
  moreover have "wp (remove_follow a b) (\<lambda>q w2. follows_wf w2 \<and>
    (q = Inr () \<longrightarrow> (\<exists>f\<in>set (t_follows (db w)). is_follow a b f) \<and>
       t_follows (db w2) = filter (\<lambda>f. \<not> is_follow a b f) (t_follows (db w))) \<and>
    (no_lost PG w \<and> isl q \<longrightarrow> t_follows (db w2) = t_follows (db w))) w"
    using assms(1) nl filter_wf
    by (auto simp: remove_follow_def wp_simps wfa count_where_def filter_empty_conv filter_id_conv split: outcome.split)
  ultimately show ?thesis using wp_run [OF _ assms(4)] wp_run [OF _ assms(5)] by blast
qed


section \<open>Paging\<close>

definition rows_page :: "(world \<Rightarrow> follow_row list) \<Rightarrow> (follow_row \<Rightarrow> cursor) \<Rightarrow> world \<Rightarrow> cursor option \<Rightarrow> int \<Rightarrow>
    follow_row list \<times> cursor option" where
  "rows_page rows key w after n = cut_page key n (select_desc key after (n + 1) (rows w))"

lemma rows_pager:
  assumes "\<And>w. follows_wf w \<Longrightarrow> distinct (map key (rows w))"
  shows "keyset_pager (\<lambda>a b. b < (a :: cursor)) key (\<lambda>w. sort_desc key (rows w)) (rows_page rows key) follows_wf"
  by unfold_locales (auto simp: rows_page_def select_desc_page intro: sort_desc_sorted assms)

interpretation follower_pager: keyset_pager "\<lambda>a b. b < (a :: cursor)" follower_key
  "\<lambda>w. sort_desc follower_key (followers_of u w)" "rows_page (followers_of u) follower_key" follows_wf for u
  by (rule rows_pager) (rule distinct_followers)

interpretation following_pager: keyset_pager "\<lambda>a b. b < (a :: cursor)" following_key
  "\<lambda>w. sort_desc following_key (followees_of u w)" "rows_page (followees_of u) following_key" follows_wf for u
  by (rule rows_pager) (rule distinct_followees)

lemma wp_pg_query [wp_simps]:
  "wp (pg_query f) Q w = (if next_out PG w = Done then Q (Inr (f (after_call PG w))) (after_call PG w)
     else Q (Inl ErrIO) (after_call PG w))"
  by (simp add: pg_query_def wp_simps split: outcome.split)

lemma run_pg_query: "run_state (pg_query f) w =
    ((if next_out PG w = Done then Inr (f (after_call PG w)) else Inl ErrIO), after_call PG w)"
  by (simp add: pg_query_def ext_call_def split: outcome.split)

lemma run_graph_page:
  assumes "rows (after_call PG w) = rows w"
  shows "run_state (graph_page rows key after limit) w =
    ((if next_out PG w = Done
      then (case rows_page rows key w (cursor_opt after) limit of (xs, nx) \<Rightarrow> Inr (map (\<lambda>x. snd (key x)) xs, nx))
      else Inl ErrIO), after_call PG w)"
  using assms by (simp add: graph_page_def run_tryE run_pg_query rows_page_def split: prod.split)

lemma followers_client_walk:
  assumes json: "\<And>c. unmarshal (marshal c) = Some c" "\<And>c. marshal c \<noteq> []"
    and "\<forall>w\<in>set ws. follows_wf w" "cursor_decode unmarshal cur = Inr after"
    and "client_walk (service_followers marshal unmarshal u limit) ws cur = (ids, True)"
    and "follower_pager.walk u (page_limit limit 50 200) ws (cursor_opt after) = (rows, b)"
  shows "ids = map f_from rows \<and> b"
proof (rule client_walk_pager [OF follower_pager.keyset_pager_axioms _ json _ _ assms(3-6)])
  show "0 < page_limit limit 50 200" by (simp add: page_limit_def)
next
  fix w and x :: follow_row
  assume "follows_wf w" "x \<in> set (sort_desc follower_key (followers_of u w))"
  then show "snd (follower_key x) \<noteq> []"
    by (auto simp: follows_wf_def list_all_iff follower_key_def followers_of_def)
next
  fix w cur' after' xs nx
  assume "cursor_decode unmarshal cur' = Inr after'"
    and "rows_page (followers_of u) follower_key w (cursor_opt after') (page_limit limit 50 200) = (xs, nx)"
  then show "fst (run_state (service_followers marshal unmarshal u limit cur') w) \<in>
      {Inr (map f_from xs, case nx of None \<Rightarrow> [] | Some c \<Rightarrow> cursor_encode marshal c)} \<union> range Inl"
    by (simp add: service_followers_def follow_list_def followers_def run_tryE run_graph_page followers_of_def
        follower_key_def)
qed

text \<open>C13. A client that pages through a follower list to its end sees every follower that was there
  during the whole walk exactly once, whatever follows and unfollows happen between the pages.\<close>

theorem paging_sees_followers_once:
  assumes "\<And>c. unmarshal (marshal c) = Some c" "\<And>c. marshal c \<noteq> []"
    and "\<forall>w\<in>set ws. follows_wf w \<and> f \<in> set (t_follows (db w))"
    and "client_walk (service_followers marshal unmarshal (f_to f) limit) ws [] = (ids, True)"
  shows "count_list ids (f_from f) = 1"
proof -
  let ?n = "page_limit limit 50 200"
  have n: "0 < ?n" by (simp add: page_limit_def)
  have wf: "\<forall>w\<in>set ws. follows_wf w" and f: "\<forall>w\<in>set ws. f \<in> set (sort_desc follower_key (followers_of (f_to f) w))"
    using assms(3) by (simp_all add: followers_of_def)
  obtain rows b where walk: "follower_pager.walk (f_to f) ?n ws None = (rows, b)" by fastforce
  have "ids = map f_from rows \<and> b"
    by (rule followers_client_walk [OF assms(1,2) wf _ assms(4), of "(0, [])"])
      (simp_all add: cursor_decode_def cursor_opt_def walk)
  then have ids: "ids = map f_from rows" "b" by simp_all
  have one: "count_list rows f = 1"
    using follower_pager.walk_once [OF wf n, of "f_to f" f] ids(2) walk f by simp
  have same: "x = f" if "x \<in> set rows" "f_from x = f_from f" for x
  proof -
    have "\<exists>w\<in>set ws. x \<in> set (followers_of (f_to f) w)"
      using follower_pager.walk_rows [OF wf n, of x "f_to f" None] walk that(1) by simp
    then obtain w where w: "w \<in> set ws" "x \<in> set (followers_of (f_to f) w)" by blast
    then have "(f_from x, f_to x) = (f_from f, f_to f)" "f \<in> set (t_follows (db w))" "x \<in> set (t_follows (db w))"
      using that(2) assms(3) by (auto simp: followers_of_def)
    then show ?thesis using assms(3) w(1) by (auto simp: follows_wf_def distinct_map inj_on_def)
  qed
  have "count_list (map f_from xs) (f_from f) = count_list xs f" if "set xs \<subseteq> set rows" for xs
    using that same by (induction xs) auto
  then show ?thesis using one ids(1) by simp
qed


section \<open>Reading all followers\<close>

lemma followers_of_after [simp]: "followers_of u (after_call y w) = followers_of u w"
  by (simp add: followers_of_def)

lemma filter_after_drop:
  fixes key :: "'a \<Rightarrow> 'k::linorder"
  assumes "sorted_wrt (\<lambda>x y. key y < key x) xs" "0 < i" "i \<le> length xs"
  shows "filter (\<lambda>x. key x < key (xs ! (i - 1))) xs = drop i xs"
proof -
  let ?c = "key (xs ! (i - 1))"
  have a: "?c \<le> key x" if "x \<in> set (take i xs)" for x
  proof -
    have "\<exists>j<i. x = xs ! j" using that assms(3) by (auto simp: in_set_conv_nth)
    then obtain j where j: "j < i" "x = xs ! j" by blast
    show ?thesis
    proof (cases "j = i - 1")
      case False
      then have "j < i - 1" "i - 1 < length xs" using j(1) assms(2,3) by linarith+
      then show ?thesis using assms(1) j(2) by (simp add: sorted_wrt_iff_nth_less less_imp_le)
    qed (simp add: j(2))
  qed
  have b: "key x < ?c" if "x \<in> set (drop i xs)" for x
  proof -
    have "\<exists>j<length xs - i. x = xs ! (i + j)" using that by (auto simp: in_set_conv_nth)
    then obtain j where j: "j < length xs - i" "x = xs ! (i + j)" by blast
    then show ?thesis using assms by (auto simp: sorted_wrt_iff_nth_less)
  qed
  have "filter (\<lambda>x. key x < ?c) (take i xs @ drop i xs) = drop i xs"
    unfolding filter_append using a b by (auto simp: filter_empty_conv filter_id_conv not_less)
  then show ?thesis by simp
qed

lemma all_followers_loop_exact:
  assumes "follows_wf w" and S: "S = sort_desc follower_key (followers_of u w)"
    and "out = map f_from (take i S)" "i \<le> length S" "int i \<le> mx" "mx - int i \<le> int fuel"
    and "cur = (if i = 0 then (0, []) else follower_key (S ! (i - 1)))"
  shows "wp (all_followers_loop fuel u mx out cur) (\<lambda>r w'. db w' = db w \<and>
    r \<noteq> Inr None \<and> (\<forall>xs. r = Inr (Some xs) \<longrightarrow> xs = map f_from (take (nat mx) S)) \<and> (reliable PG w \<longrightarrow> \<not> isl r)) w"
  using assms
proof (induction fuel arbitrary: w out i cur)
  case 0
  then show ?case by (simp add: all_followers_loop.simps wp_ret)
next
  case (Suc m)
  have srt: "sorted_wrt (\<lambda>x y. follower_key y < follower_key x) S"
    unfolding Suc.prems(2) by (intro sort_desc_sorted distinct_followers Suc.prems(1))
  have len: "length out = i" using Suc.prems(3,4) by simp
  show ?case
  proof (cases "int i < mx")
    case False
    then have "nat mx = i" using Suc.prems(5) by simp
    then show ?thesis using False Suc.prems(3) len by (subst all_followers_loop.simps) (simp add: wp_ret)
  next
    case True
    define n where "n = (if mx - int i < 1000 then mx - int i else 1000)"
    have n: "0 < n" "n \<le> mx - int i" using True by (simp_all add: n_def)
    have ne: "snd (follower_key x) \<noteq> []" if "x \<in> set S" for x
      using that Suc.prems(1) by (auto simp: Suc.prems(2) follows_wf_def list_all_iff follower_key_def followers_of_def)
    have "select_desc follower_key (cursor_opt cur) (n + 1) (followers_of u w) = take (nat (n + 1)) (drop i S)"
    proof (cases "i = 0")
      case True
      then show ?thesis using Suc.prems(7) by (simp add: select_desc_page cursor_opt_def after_cursor_def Suc.prems(2))
    next
      case False
      then have "snd cur \<noteq> []" using ne [of "S ! (i - 1)"] Suc.prems(4,7) by simp
      then show ?thesis
        using filter_after_drop [OF srt, of i] False Suc.prems(4,7)
        by (simp add: select_desc_page cursor_opt_def after_cursor_def Suc.prems(2))
    qed
    then have pg: "rows_page (followers_of u) follower_key w (cursor_opt cur) n = (take (nat n) (drop i S),
        if n < int (length (drop i S)) then Some (follower_key (drop i S ! nat (n - 1))) else None)"
      using n(1) by (auto simp: rows_page_def cut_page_spec min_def)
    let ?w = "after_call PG w"
    have wp: "wp (followers u cur n) (\<lambda>r w'. w' = ?w \<and> r = (if next_out PG w = Done
        then Inr (map f_from (take (nat n) (drop i S)),
          if n < int (length (drop i S)) then Some (follower_key (drop i S ! nat (n - 1))) else None) else Inl ErrIO)) w"
      by (simp add: wp_def followers_def run_graph_page pg follower_key_def)
    have rel: "\<not> reliable PG w" if "next_out PG w \<noteq> Done" using that reliable_next by blast
    have more: "map f_from (take i S) @ map f_from (take (nat n) (drop i S)) = map f_from (take (i + nat n) S)"
      by (simp add: take_add)
    have step0: "wp (all_followers_loop m u mx (map f_from (take (i + nat n) S)) (follower_key (drop i S ! nat (n - 1)))) (\<lambda>r w'. db w' = db ?w \<and>
        r \<noteq> Inr None \<and> (\<forall>xs. r = Inr (Some xs) \<longrightarrow> xs = map f_from (take (nat mx) S)) \<and> (reliable PG ?w \<longrightarrow> \<not> isl r)) ?w"
      if "n < int (length (drop i S))"
    proof (rule Suc.IH)
      show "follows_wf ?w" using Suc.prems(1) by (simp add: follows_wf_def)
      show "S = sort_desc follower_key (followers_of u ?w)" using Suc.prems(2) by (simp add: followers_of_def)
      have "i + nat (n - 1) = i + nat n - 1" using n(1) by simp
      then show "follower_key (drop i S ! nat (n - 1)) = (if i + nat n = 0 then (0, []) else follower_key (S ! (i + nat n - 1)))"
        using n(1) that by simp
    qed (use that n Suc.prems(5,6) in auto)
    have step: "wp (all_followers_loop m u mx (map f_from (take (i + nat n) S)) (follower_key (drop i S ! nat (n - 1)))) (\<lambda>r w'. db w' = db ?w \<and>
        r \<noteq> Inr None \<and> (\<forall>xs. r = Inr (Some xs) \<longrightarrow> xs = map f_from (take (nat mx) S)) \<and> (reliable PG w \<longrightarrow> \<not> isl r)) ?w"
      if "n < int (length (drop i S))"
      using outcomes_after_call [of PG w PG] by (intro wp_mono [OF step0 [OF that]]) blast
    have last: "take (nat mx) S = take (i + nat n) S" if "\<not> n < int (length (drop i S))"
    proof -
      have "length S \<le> i + nat n" "length S \<le> nat mx" using that n Suc.prems(4) by auto
      then show ?thesis by simp
    qed
    show ?thesis unfolding all_followers_loop.simps [of "Suc m"] len
      using True step last rel more map_append [of f_from "take i S" "drop i S"]
      by (auto simp: n_def [symmetric] Let_def more Suc.prems(3) wp_ret simp del: map_append
          intro!: wp_tryI [OF wp] split: if_splits elim!: wp_mono)
  qed
qed

text \<open>\<open>AllFollowers\<close> returns (its loop ends) and, unless a query fails, gives exactly the newest
  \<open>max\<close> followers, newest first, across any number of pages of 1000.\<close>

theorem all_followers_exact:
  assumes "follows_wf w" "0 \<le> mx" "run_state (all_followers u mx) w = (r, w')"
  shows "r \<noteq> Inr None \<and>
    (\<forall>xs. r = Inr (Some xs) \<longrightarrow> xs = map f_from (take (nat mx) (sort_desc follower_key (followers_of u w)))) \<and>
    (reliable PG w \<longrightarrow> \<not> isl r)"
proof -
  have "wp (all_followers u mx) (\<lambda>r w'. db w' = db w \<and> r \<noteq> Inr None \<and>
    (\<forall>xs. r = Inr (Some xs) \<longrightarrow> xs = map f_from (take (nat mx) (sort_desc follower_key (followers_of u w)))) \<and>
    (reliable PG w \<longrightarrow> \<not> isl r)) w"
    unfolding all_followers_def
    by (rule all_followers_loop_exact [OF assms(1) refl, where i = 0]) (use assms(2) in simp_all)
  from wp_run [OF this assms(3)] show ?thesis by simp
qed


section \<open>A small instance\<close>

definition demo_follow :: follow_row where
  "demo_follow = \<lparr>f_from = ''bob'', f_to = ''ann'', f_at = 7\<rparr>"

definition demo_user :: "string \<Rightarrow> user_row" where
  "demo_user u = \<lparr>u_id = u, u_name = [], u_hash = ''h'', u_age = 0, u_gender = []\<rparr>"

definition demo_social :: world where
  "demo_social = quiet_world\<lparr>db := empty_db\<lparr>t_users := [demo_user ''ann'', demo_user ''bob''], t_follows := [demo_follow]\<rparr>,
     red := empty_redis\<rparr>"

lemma demo_social_ok: "follows_wf demo_social" "reliable y demo_social" "t_follows (db demo_social) = [demo_follow]"
  by (simp_all add: demo_social_def follows_wf_def demo_follow_def)

lemma demo_social_next: "next_out y demo_social = Done" "after_call PG demo_social = demo_social" "clock demo_social = 0"
  by (simp_all add: next_out_def after_call_def demo_social_def quiet_world_def fun_upd_def cong: if_cong)

text \<open>An injective encoding in the place of JSON.\<close>

definition demo_marshal :: "cursor \<Rightarrow> string" where
  "demo_marshal c = (if fst c < 0 then CHR ''-'' else CHR ''+'') # replicate (nat \<bar>fst c\<bar>) CHR ''1'' @ CHR '':'' # snd c"

definition demo_unmarshal :: "string \<Rightarrow> cursor option" where
  "demo_unmarshal s = (case s of [] \<Rightarrow> None | c # t \<Rightarrow>
     (let n = int (length (takeWhile (\<lambda>x. x = CHR ''1'') t))
      in Some (if c = CHR ''-'' then - n else n, tl (dropWhile (\<lambda>x. x = CHR ''1'') t))))"

lemma demo_json: "demo_unmarshal (demo_marshal c) = Some c" "demo_marshal c \<noteq> []"
proof -
  have t: "takeWhile (\<lambda>x. x = CHR ''1'') (replicate n CHR ''1'' @ CHR '':'' # s) = replicate n CHR ''1''"
    "dropWhile (\<lambda>x. x = CHR ''1'') (replicate n CHR ''1'' @ CHR '':'' # s) = CHR '':'' # s" for n s
    by (induction n) simp_all
  show "demo_unmarshal (demo_marshal c) = Some c"
    by (cases c) (auto simp: demo_unmarshal_def demo_marshal_def t)
  show "demo_marshal c \<noteq> []" by (simp add: demo_marshal_def)
qed

theorem paging_sees_followers_once_witness:
  "count_list (fst (client_walk (service_followers demo_marshal demo_unmarshal ''ann'' 10) [demo_social] [])) ''bob'' = 1"
proof -
  let ?c = "client_walk (service_followers demo_marshal demo_unmarshal ''ann'' 10) [demo_social] []"
  have "?c = ([''bob''], True)"
    by (simp add: service_followers_def follow_list_def cursor_decode_def followers_def run_tryE run_graph_page
        demo_social_next page_limit_def rows_page_def cut_page_spec)
      (simp add: followers_of_def demo_social_ok(3) demo_follow_def select_desc_def sort_desc_def cursor_opt_def
        after_cursor_def follower_key_def)
  then show ?thesis
    using paging_sees_followers_once [OF demo_json, of "[demo_social]" demo_follow 10] demo_social_ok
    by (simp add: demo_follow_def)
qed

theorem follow_unfollow_table_witness:
  "fst (run_state (add_follow ''ann'' ''bob'') demo_social) = Inr ''ann:bob'' \<and>
   follows_wf (snd (run_state (add_follow ''ann'' ''bob'') demo_social))"
proof -
  let ?a = "run_state (add_follow ''ann'' ''bob'') demo_social" and ?r = "run_state (remove_follow ''ann'' ''bob'') demo_social"
  have "follows_wf (snd ?a)"
    using follow_unfollow_table [OF demo_social_ok(1), of "''ann''" "''bob''" "fst ?a" "snd ?a" "fst ?r" "snd ?r"] by simp
  moreover have "fst ?a = Inr ''ann:bob''"
    by (simp add: add_follow_def user_exists_def insert_follow_def run_simps run_pg_query ext_call_def demo_social_next
        follow_id_def) (simp add: demo_social_def demo_user_def demo_follow_def is_follow_def)
  ultimately show ?thesis by simp
qed

theorem all_followers_exact_witness:
  "fst (run_state (all_followers ''ann'' 5) demo_social) = Inr (Some [''bob''])"
proof -
  let ?r = "run_state (all_followers ''ann'' 5) demo_social"
  have "?r = (fst ?r, snd ?r)" by simp
  from all_followers_exact [OF demo_social_ok(1) _ this] demo_social_ok(2)
  have "fst ?r \<noteq> Inr None" "\<not> isl (fst ?r)"
    "\<forall>xs. fst ?r = Inr (Some xs) \<longrightarrow> xs = map f_from (take 5 (sort_desc follower_key (followers_of ''ann'' demo_social)))"
    by simp_all
  moreover have "map f_from (take 5 (sort_desc follower_key (followers_of ''ann'' demo_social))) = [''bob'']"
    by (simp add: followers_of_def demo_social_ok(3) demo_follow_def sort_desc_def)
  ultimately show ?thesis by (cases "fst ?r") auto
qed

text \<open>C14. A page cursor survives its encoding: base64 of the JSON, unpadded and URL-safe, decodes to the
  same position, provided \<open>encoding/json\<close> gives back what it was given.\<close>

theorem page_cursor_round_trip:
  assumes "unmarshal (marshal c) = Some c" "marshal c \<noteq> []"
  shows "cursor_decode unmarshal (cursor_encode marshal c) = Inr c"
  using assms by (rule cursor_round_trip)

theorem page_cursor_round_trip_witness:
  "cursor_decode demo_unmarshal (cursor_encode demo_marshal (3, ''bob'')) = Inr (3, ''bob'')"
  by (rule page_cursor_round_trip) (rule demo_json)+

end
