(* ===== verification/Message.thy ===== *)
theory Message
  imports SocialGraph
begin

text \<open>
  \<open>services/message/service/message.go\<close>: direct conversations, their messages in sequence order,
  read markers and the inbox.  One definition per SQL statement, in the order of the code; the
  transaction of \<open>SendMessage\<close> is \<open>in_tx\<close> of \<open>World\<close>.
\<close>

section \<open>Ids\<close>

definition conversation_id :: "string \<Rightarrow> string \<Rightarrow> string" where
  "conversation_id a b = (let (a, b) = (if a > b then (b, a) else (a, b)) in ''dm:'' @ a @ '':'' @ b)"

definition message_id :: "string \<Rightarrow> int \<Rightarrow> string" where
  "message_id conv n = conv @ '':'' @ format_int n"

text \<open>\<open>strings.Split\<close> and \<open>strings.TrimPrefix\<close>.\<close>

fun split_on :: "char \<Rightarrow> string \<Rightarrow> string list" where
  "split_on c [] = [[]]"
| "split_on c (x # xs) = (if x = c then [] # split_on c xs
     else (case split_on c xs of [] \<Rightarrow> [[x]] | p # ps \<Rightarrow> (x # p) # ps))"

definition trim_prefix :: "string \<Rightarrow> string \<Rightarrow> string" where
  "trim_prefix p s = (if take (length p) s = p then drop (length p) s else s)"

definition other_participant :: "string \<Rightarrow> string \<Rightarrow> string" where
  "other_participant conv me =
     (let parts = split_on CHR '':'' (trim_prefix ''dm:'' conv)
      in if length parts = 2 \<and> parts ! 0 = me then parts ! 1
         else if length parts = 2 then parts ! 0 else [])"

text \<open>\<open>utf8.RuneCountInString\<close>: an ill-formed byte counts as one rune.\<close>

definition byte_in :: "nat \<Rightarrow> nat \<Rightarrow> string \<Rightarrow> nat \<Rightarrow> bool" where
  "byte_in lo hi s i \<longleftrightarrow> i < length s \<and> lo \<le> of_char (s ! i) \<and> of_char (s ! i) \<le> hi"

definition rune_size :: "string \<Rightarrow> nat" where
  "rune_size s =
     (if byte_in 0xC2 0xDF s 0 \<and> byte_in 0x80 0xBF s 1 then 2
      else if (byte_in 0xE0 0xE0 s 0 \<and> byte_in 0xA0 0xBF s 1 \<or> byte_in 0xE1 0xEC s 0 \<and> byte_in 0x80 0xBF s 1 \<or>
               byte_in 0xED 0xED s 0 \<and> byte_in 0x80 0x9F s 1 \<or> byte_in 0xEE 0xEF s 0 \<and> byte_in 0x80 0xBF s 1) \<and>
              byte_in 0x80 0xBF s 2 then 3
      else if (byte_in 0xF0 0xF0 s 0 \<and> byte_in 0x90 0xBF s 1 \<or> byte_in 0xF1 0xF3 s 0 \<and> byte_in 0x80 0xBF s 1 \<or>
               byte_in 0xF4 0xF4 s 0 \<and> byte_in 0x80 0x8F s 1) \<and>
              byte_in 0x80 0xBF s 2 \<and> byte_in 0x80 0xBF s 3 then 4
      else 1)"

function rune_count :: "string \<Rightarrow> int" where
  "rune_count s = (if s = [] then 0 else 1 + rune_count (drop (rune_size s) s))"
  by pat_completeness auto
termination
  by (relation "measure length") (auto simp: rune_size_def)

declare rune_count.simps [simp del]

section \<open>Sending\<close>

record message =
  m_id :: string
  m_conv :: string
  m_seq :: int
  m_sender :: string
  m_receiver :: string
  m_content :: string
  m_at :: int

definition max_content_len :: int where
  "max_content_len = 4000"

definition upd_messages :: "(message_row list \<Rightarrow> message_row list) \<Rightarrow> world \<Rightarrow> world" where
  "upd_messages f = upd_db (\<lambda>d. d\<lparr>t_messages := f (t_messages d)\<rparr>)"

definition upd_convs :: "(conv_row list \<Rightarrow> conv_row list) \<Rightarrow> world \<Rightarrow> world" where
  "upd_convs f = upd_db (\<lambda>d. d\<lparr>t_convs := f (t_convs d)\<rparr>)"

definition upd_members :: "(member_row list \<Rightarrow> member_row list) \<Rightarrow> world \<Rightarrow> world" where
  "upd_members f = upd_db (\<lambda>d. d\<lparr>t_members := f (t_members d)\<rparr>)"

definition insert_conversation :: "string \<Rightarrow> int io" where
  "insert_conversation conv = ext_call PG (\<lambda>w.
     if list_ex (\<lambda>v. v_id v = conv) (t_convs (db w)) then (Inr 0, w)
     else (Inr 1, upd_convs (\<lambda>rows. rows @ [\<lparr>v_id = conv, v_last_seq = 0, v_last_at = None\<rparr>]) w))"

definition new_member :: "string \<Rightarrow> string \<Rightarrow> member_row" where
  "new_member conv u = \<lparr>b_conv = conv, b_user = u, b_read = 0, b_last_at = None\<rparr>"

definition insert_members :: "string \<Rightarrow> string \<Rightarrow> string \<Rightarrow> unit io" where
  "insert_members conv a b = ext_call PG (\<lambda>w.
     if a = b \<or> list_ex (\<lambda>r. b_conv r = conv \<and> (b_user r = a \<or> b_user r = b)) (t_members (db w))
     then (Inl UniqueViolation, w)
     else (Inr (), upd_members (\<lambda>rows. rows @ [new_member conv a, new_member conv b]) w))"

definition select_last_seq :: "string \<Rightarrow> int io" where
  "select_last_seq conv = ext_call PG (\<lambda>w.
     (case find (\<lambda>v. v_id v = conv) (t_convs (db w)) of
        None \<Rightarrow> Inl ErrIO | Some v \<Rightarrow> Inr (v_last_seq v), w))"

definition has_client_key :: "string \<Rightarrow> string \<Rightarrow> string \<Rightarrow> message_row \<Rightarrow> bool" where
  "has_client_key conv sender key g \<longleftrightarrow> g_conv g = conv \<and> g_sender g = sender \<and> g_client g = Some key"

definition select_by_key :: "string \<Rightarrow> string \<Rightarrow> string \<Rightarrow> message_row option io" where
  "select_by_key conv sender key = pg_query (\<lambda>w. find (has_client_key conv sender key) (t_messages (db w)))"

text \<open>The insert answers \<open>clock_timestamp()\<close>; primary key, unique index on the client key and the
  length check are the table's.\<close>

definition insert_message :: "string \<Rightarrow> int \<Rightarrow> string \<Rightarrow> string \<Rightarrow> string option \<Rightarrow> int io" where
  "insert_message conv n sender content key = ext_call PG (\<lambda>w.
     if list_ex (\<lambda>g. g_conv g = conv \<and> g_seq g = n) (t_messages (db w)) \<or>
        (\<exists>k\<in>set_option key. list_ex (has_client_key conv sender k) (t_messages (db w)))
     then (Inl UniqueViolation, w)
     else if rune_count content < 1 \<or> rune_count content > 4000 then (Inl CheckViolation, w)
     else (Inr (clock w), upd_messages (\<lambda>rows. rows @ [\<lparr>g_conv = conv, g_seq = n, g_sender = sender,
             g_content = content, g_at = clock w, g_client = key\<rparr>]) w))"

definition update_conversation :: "string \<Rightarrow> int \<Rightarrow> int \<Rightarrow> unit io" where
  "update_conversation conv n t = ext_call PG (\<lambda>w.
     (Inr (), upd_convs (update_where (\<lambda>v. v_id v = conv) (\<lambda>v. v\<lparr>v_last_seq := n, v_last_at := Some t\<rparr>)) w))"

definition update_members :: "string \<Rightarrow> int \<Rightarrow> string \<Rightarrow> int \<Rightarrow> unit io" where
  "update_members conv t sender n = ext_call PG (\<lambda>w.
     (Inr (), upd_members (update_where (\<lambda>r. b_conv r = conv)
        (\<lambda>r. r\<lparr>b_last_at := Some t, b_read := (if b_user r = sender then n else b_read r)\<rparr>)) w))"

definition client_key :: "string \<Rightarrow> string option" where
  "client_key client = (if client \<noteq> [] then Some client else None)"

text \<open>The body of the transaction: sequence number, time and whether it is a replay.\<close>

definition append_message :: "string \<Rightarrow> int \<Rightarrow> string \<Rightarrow> string \<Rightarrow> string option \<Rightarrow> (int \<times> int \<times> bool) io" where
  "append_message conv n sender content key =
     tryE (insert_message conv n sender content key) (\<lambda>t.
     tryE (update_conversation conv n t) (\<lambda>_.
     tryE (update_members conv t sender n) (\<lambda>_.
       ret (n, t, False))))"

definition store_locked :: "string \<Rightarrow> string \<Rightarrow> string \<Rightarrow> string option \<Rightarrow> (int \<times> int \<times> bool) io" where
  "store_locked conv sender content key =
     tryE (select_last_seq conv) (\<lambda>last_seq.
     tryE (case key of None \<Rightarrow> ret None | Some k \<Rightarrow> select_by_key conv sender k) (\<lambda>prev.
       (case prev of
          Some g \<Rightarrow> if g_content g \<noteq> content then fail ErrKeyReused else ret (g_seq g, g_at g, True)
        | None \<Rightarrow> append_message conv (last_seq + 1) sender content key)))"

definition store_message :: "string \<Rightarrow> string \<Rightarrow> string \<Rightarrow> string \<Rightarrow> string option \<Rightarrow> (int \<times> int \<times> bool) io" where
  "store_message conv sender receiver content key =
     tryE (insert_conversation conv) (\<lambda>n.
     tryE (if n = 1 then (let (a, b) = (if sender > receiver then (receiver, sender) else (sender, receiver))
             in insert_members conv a b) else ret ()) (\<lambda>_.
       store_locked conv sender content key))"

definition send_message :: "string \<Rightarrow> string \<Rightarrow> string \<Rightarrow> string \<Rightarrow> (message \<times> bool) io" where
  "send_message sender receiver content client =
     (if sender = receiver then fail ErrCannotMessageSelf
      else if content = [] \<or> rune_count content > max_content_len then fail ErrInvalidContent
      else tryE (user_exists receiver) (\<lambda>ex.
        if \<not> ex then fail ErrUserNotFound
        else (let conv = conversation_id sender receiver
              in tryE (in_tx (store_message conv sender receiver content (client_key client))) (\<lambda>(n, t, replayed).
                   ret (\<lparr>m_id = message_id conv n, m_conv = conv, m_seq = n, m_sender = sender, m_receiver = receiver,
                         m_content = content, m_at = t\<rparr>, replayed)))))"

section \<open>Reading\<close>

record message_page =
  pg_conv :: string
  pg_messages :: "message list"
  pg_next_before :: int
  pg_has_more :: bool
  pg_last_read :: int

definition conv_messages :: "string \<Rightarrow> world \<Rightarrow> message_row list" where
  "conv_messages conv w = filter (\<lambda>g. g_conv g = conv) (t_messages (db w))"

definition message_of_row :: "string \<Rightarrow> string \<Rightarrow> message_row \<Rightarrow> message" where
  "message_of_row me other g = \<lparr>m_id = message_id (g_conv g) (g_seq g), m_conv = g_conv g, m_seq = g_seq g,
     m_sender = g_sender g, m_receiver = (if g_sender g = me then other else me), m_content = g_content g, m_at = g_at g\<rparr>"

definition select_last_read :: "string \<Rightarrow> string \<Rightarrow> int io" where
  "select_last_read conv u = pg_query (\<lambda>w.
     (case find (\<lambda>r. b_conv r = conv \<and> b_user r = u) (t_members (db w)) of None \<Rightarrow> 0 | Some r \<Rightarrow> b_read r))"

definition get_messages :: "string \<Rightarrow> string \<Rightarrow> int \<Rightarrow> int \<Rightarrow> int \<Rightarrow> message_page io" where
  "get_messages me other before after limit0 =
     (let limit = page_limit limit0 50 200;
          conv = conversation_id me other;
          before = (if before \<le> 0 then 2 ^ 63 - 1 else before)
      in tryE (pg_query (\<lambda>w.
                 if after > 0 then select_asc g_seq (Some after) (limit + 1) (conv_messages conv w)
                 else select_desc g_seq (Some before) (limit + 1) (conv_messages conv w))) (\<lambda>rows.
           (let msgs0 = map (message_of_row me other) rows;
                more = (int (length msgs0) > limit);
                msgs = (if more then take (nat limit) msgs0 else msgs0);
                msgs = (if after > 0 then msgs else rev msgs)
            in tryE (select_last_read conv other) (\<lambda>last_read.
                 ret \<lparr>pg_conv = conv, pg_messages = msgs,
                      pg_next_before = (if \<not> after > 0 \<and> more then m_seq (hd msgs) else 0),
                      pg_has_more = (after > 0 \<and> more), pg_last_read = last_read\<rparr>))))"

definition mark_read :: "string \<Rightarrow> string \<Rightarrow> int \<Rightarrow> unit io" where
  "mark_read me other n =
     (let conv = conversation_id me other;
          joined = (\<lambda>w r. b_conv r = conv \<and> b_user r = me \<and> list_ex (\<lambda>v. v_id v = conv) (t_convs (db w)));
          last_of = (\<lambda>w. case find (\<lambda>v. v_id v = conv) (t_convs (db w)) of None \<Rightarrow> 0 | Some v \<Rightarrow> v_last_seq v)
      in tryE (ext_call PG (\<lambda>w. (Inr (int (count_where (joined w) (t_members (db w)))),
             upd_members (update_where (joined w) (\<lambda>r. r\<lparr>b_read := max (b_read r) (min n (last_of w))\<rparr>)) w))) (\<lambda>rows.
           if rows = 0 then fail ErrConversationNotFound else ret ()))"

record inbox_row =
  i_conv :: string
  i_with :: string
  i_last_seq :: int
  i_message :: string
  i_sender :: string
  i_at :: int
  i_unread :: int

text \<open>The join of members, conversations and their last messages.\<close>

definition inbox_rows :: "string \<Rightarrow> world \<Rightarrow> inbox_row list" where
  "inbox_rows me w = concat (map (\<lambda>r. concat (map (\<lambda>v. map (\<lambda>g.
       \<lparr>i_conv = b_conv r, i_with = other_participant (b_conv r) me, i_last_seq = v_last_seq v, i_message = g_content g,
        i_sender = g_sender g, i_at = the (b_last_at r), i_unread = v_last_seq v - b_read r\<rparr>)
     (filter (\<lambda>g. g_conv g = v_id v \<and> g_seq g = v_last_seq v) (t_messages (db w))))
     (filter (\<lambda>v. v_id v = b_conv r) (t_convs (db w)))))
     (filter (\<lambda>r. b_user r = me \<and> b_last_at r \<noteq> None) (t_members (db w))))"

definition inbox_key :: "inbox_row \<Rightarrow> cursor" where
  "inbox_key i = (i_at i, i_conv i)"

definition list_conversations :: "(cursor \<Rightarrow> string) \<Rightarrow> (string \<Rightarrow> cursor option) \<Rightarrow> string \<Rightarrow> int \<Rightarrow> string \<Rightarrow>
    (inbox_row list \<times> string) io" where
  "list_conversations marshal unmarshal me limit0 cursor =
     (case cursor_decode unmarshal cursor of
        Inl e \<Rightarrow> fail e
      | Inr cur \<Rightarrow>
          (let limit = page_limit limit0 20 100
           in tryE (pg_query (\<lambda>w. select_desc inbox_key (cursor_opt cur) (limit + 1) (inbox_rows me w))) (\<lambda>convs.
                (case cut_page inbox_key limit convs of (xs, nx) \<Rightarrow>
                   ret (xs, case nx of None \<Rightarrow> [] | Some c \<Rightarrow> cursor_encode marshal c)))))"


section \<open>The invariant of the tables\<close>

text \<open>The sequence numbers of a conversation are \<open>1, 2, \<dots>, last_seq\<close> in the order of insertion; read
  markers lie between 0 and the last message; a client key names one message of its sender.\<close>

definition conv_wf :: "database \<Rightarrow> conv_row \<Rightarrow> bool" where
  "conv_wf d v \<longleftrightarrow> 0 \<le> v_last_seq v \<and>
     map g_seq (filter (\<lambda>g. g_conv g = v_id v) (t_messages d)) = [1..v_last_seq v] \<and>
     (\<forall>r\<in>set (t_members d). b_conv r = v_id v \<longrightarrow> 0 \<le> b_read r \<and> b_read r \<le> v_last_seq v)"

definition msg_wf :: "database \<Rightarrow> bool" where
  "msg_wf d \<longleftrightarrow> distinct (map v_id (t_convs d)) \<and> (\<forall>v\<in>set (t_convs d). conv_wf d v) \<and>
     g_conv ` set (t_messages d) \<subseteq> v_id ` set (t_convs d) \<and> b_conv ` set (t_members d) \<subseteq> v_id ` set (t_convs d) \<and>
     distinct (map (\<lambda>r. (b_conv r, b_user r)) (t_members d)) \<and>
     (\<forall>g\<in>set (t_messages d). \<forall>h\<in>set (t_messages d). g_client g \<noteq> None \<longrightarrow>
        (g_conv g, g_sender g, g_client g) = (g_conv h, g_sender h, g_client h) \<longrightarrow> g = h)"

text \<open>What the transaction does to the tables.\<close>

definition ensure_conv :: "string \<Rightarrow> string \<Rightarrow> string \<Rightarrow> database \<Rightarrow> database" where
  "ensure_conv conv a b d =
     (if list_ex (\<lambda>v. v_id v = conv) (t_convs d) then d
      else d\<lparr>t_convs := t_convs d @ [\<lparr>v_id = conv, v_last_seq = 0, v_last_at = None\<rparr>],
             t_members := t_members d @ [new_member conv (min a b), new_member conv (max a b)]\<rparr>)"

definition last_seq :: "string \<Rightarrow> database \<Rightarrow> int" where
  "last_seq conv d = (case find (\<lambda>v. v_id v = conv) (t_convs d) of None \<Rightarrow> 0 | Some v \<Rightarrow> v_last_seq v)"

definition deliver :: "message_row \<Rightarrow> database \<Rightarrow> database" where
  "deliver g d = d\<lparr>t_messages := t_messages d @ [g],
     t_convs := update_where (\<lambda>v. v_id v = g_conv g) (\<lambda>v. v\<lparr>v_last_seq := g_seq g, v_last_at := Some (g_at g)\<rparr>) (t_convs d),
     t_members := update_where (\<lambda>r. b_conv r = g_conv g)
        (\<lambda>r. r\<lparr>b_last_at := Some (g_at g), b_read := (if b_user r = g_sender g then g_seq g else b_read r)\<rparr>) (t_members d)\<rparr>"

definition stored :: "string \<Rightarrow> string \<Rightarrow> string option \<Rightarrow> database \<Rightarrow> message_row option" where
  "stored conv sender key d = (case key of None \<Rightarrow> None | Some k \<Rightarrow> find (has_client_key conv sender k) (t_messages d))"

definition sent :: "string \<Rightarrow> string \<Rightarrow> string \<Rightarrow> string \<Rightarrow> string option \<Rightarrow> database \<Rightarrow> int \<times> int \<times> bool \<Rightarrow> database \<Rightarrow> bool" where
  "sent conv sender receiver content key d res d' \<longleftrightarrow> (case res of (n, t, replayed) \<Rightarrow>
     (let d1 = ensure_conv conv sender receiver d in
      case stored conv sender key d of
        Some g \<Rightarrow> replayed \<and> g_content g = content \<and> n = g_seq g \<and> t = g_at g \<and> d' = d1
      | None \<Rightarrow> \<not> replayed \<and> n = last_seq conv d1 + 1 \<and>
          d' = deliver \<lparr>g_conv = conv, g_seq = n, g_sender = sender, g_content = content, g_at = t, g_client = key\<rparr> d1))"

lemma upd_tables [simp]:
  "db (upd_messages f w) = (db w)\<lparr>t_messages := f (t_messages (db w))\<rparr>"
  "db (upd_convs h w) = (db w)\<lparr>t_convs := h (t_convs (db w))\<rparr>"
  "db (upd_members k w) = (db w)\<lparr>t_members := k (t_members (db w))\<rparr>"
  by (simp_all add: upd_messages_def upd_convs_def upd_members_def)

lemma max_min_pair: "(if a > b then (b, a) else (a, b)) = (min a b, max a (b :: string))"
  by (auto simp: min_def max_def)

lemma ensure_conv_messages [simp]: "t_messages (ensure_conv conv a b d) = t_messages d"
  by (simp add: ensure_conv_def)

lemma fst_if_Inr: "fst (if c then (Inl x, w) else p) = Inr y \<Longrightarrow> \<not> c"
  by auto

lemma store_message_sent:
  assumes "a \<noteq> b"
  shows "wp (store_message conv a b content key) (\<lambda>r w'. \<forall>x. r = Inr x \<longrightarrow> sent conv a b content key (db w) x (db w')) w"
proof -
  let ?Q = "\<lambda>r w'. \<forall>x. r = Inr x \<longrightarrow> sent conv a b content key (db w) x (db w')"
  have app: "wp (append_message conv (last_seq conv (db v) + 1) a content key) ?Q v"
    if v: "db v = ensure_conv conv a b (db w)" and none: "stored conv a key (db w) = None" for v
    unfolding append_message_def insert_message_def
  proof (rule wp_try_call, simp, goal_cases)
    case (1 t)
    let ?n = "last_seq conv (db v) + 1"
    let ?f = "\<lambda>rows. rows @ [\<lparr>g_conv = conv, g_seq = ?n, g_sender = a, g_content = content, g_at = t, g_client = key\<rparr>]"
    let ?u = "after_call PG v"
    let ?c = "list_ex (\<lambda>g. g_conv g = conv \<and> g_seq g = ?n) (t_messages (db ?u)) \<or>
        (\<exists>k\<in>set_option key. list_ex (has_client_key conv a k) (t_messages (db ?u)))"
      and ?e = "rune_count content < 1 \<or> rune_count content > 4000"
    have c1: "\<not> ?c" using 1 by (rule fst_if_Inr)
    then have c2: "\<not> ?e" using 1 unfolding if_not_P [OF c1] by (rule_tac fst_if_Inr)
    note c = c1 c2
    have t: "t = clock ?u" using 1 unfolding if_not_P [OF c(1)] if_not_P [OF c(2)] by simp
    show ?case unfolding if_not_P [OF c(1)] if_not_P [OF c(2)] snd_conv update_conversation_def update_members_def
      apply (rule wp_try_call)
       apply simp
      apply (rule wp_try_call)
       apply simp
      apply (simp only: wp_ret snd_conv)
      apply (simp only: sent_def none Let_def)
      apply (simp only: upd_tables after_call_simps v)
      apply (simp add: t)
      apply (simp add: deliver_def cong: if_cong)
      done
  qed
  have locked: "wp (store_locked conv a content key) ?Q u" if u: "db u = ensure_conv conv a b (db w)" for u
    unfolding store_locked_def select_last_seq_def
  proof (rule wp_try_call, simp, goal_cases)
    case (1 n)
    let ?v = "after_call PG u"
    have n: "n = last_seq conv (db u)" using 1 by (auto simp: last_seq_def split: option.splits)
    have look: "wp (case key of None \<Rightarrow> ret None | Some k \<Rightarrow> select_by_key conv a k)
        (\<lambda>r w'. db w' = db u \<and> (\<forall>p. r = Inr p \<longrightarrow> p = stored conv a key (db w))) ?v"
      by (cases key) (simp_all add: wp_ret select_by_key_def wp_pg_query stored_def u)
    show ?case unfolding snd_conv
    proof (rule wp_tryI [OF look], goal_cases)
      case (1 p v')
      then have p: "p = stored conv a key (db w)" and v': "db v' = ensure_conv conv a b (db w)" using u by simp_all
      show ?case
      proof (cases p)
        case None
        then show ?thesis using app [OF v'] p n u v' by simp
      next
        case (Some g)
        then show ?thesis using p v' by (simp add: wp_ret sent_def)
      qed
    qed simp
  qed
  show ?thesis unfolding store_message_def insert_conversation_def
  proof (rule wp_try_call, simp, goal_cases)
    case (1 n)
    show ?case
    proof (cases "list_ex (\<lambda>v. v_id v = conv) (t_convs (db w))")
      case True
      have "wp (store_locked conv a content key) ?Q (after_call PG w)"
        by (rule locked) (simp add: ensure_conv_def True)
      then show ?thesis using 1 True by (simp add: wp_tryE wp_ret)
    next
      case False
      then have n: "n = 1" using 1 by simp
      show ?thesis unfolding max_min_pair insert_members_def n if_P [OF refl] Let_def case_prod_conv
      proof (rule wp_try_call, simp, rule locked, goal_cases)
        case (1 x)
        from fst_if_Inr [OF this] show ?case using False by (simp add: ensure_conv_def)
      qed
    qed
  qed
qed


lemma conv_wf_empty:
  assumes "conv \<notin> g_conv ` set (t_messages d)" "\<forall>r\<in>set (t_members d). b_conv r = conv \<longrightarrow> b_read r = 0"
  shows "conv_wf d \<lparr>v_id = conv, v_last_seq = 0, v_last_at = t\<rparr>"
proof -
  have "filter (\<lambda>g. g_conv g = conv) (t_messages d) = []" using assms(1) by (auto simp: filter_empty_conv)
  then show ?thesis using assms(2) by (simp add: conv_wf_def)
qed

lemma msg_wf_ensure:
  assumes "msg_wf d" "a \<noteq> b"
  shows "msg_wf (ensure_conv conv a b d)" "conv \<in> v_id ` set (t_convs (ensure_conv conv a b d))"
proof -
  show "conv \<in> v_id ` set (t_convs (ensure_conv conv a b d))"
    by (auto simp: ensure_conv_def list_ex_iff image_iff)
  show "msg_wf (ensure_conv conv a b d)"
  proof (cases "list_ex (\<lambda>v. v_id v = conv) (t_convs d)")
    case True
    then show ?thesis using assms(1) by (simp add: ensure_conv_def)
  next
    case False
    then have new: "conv \<notin> v_id ` set (t_convs d)" by (auto simp: list_ex_iff)
    let ?d = "ensure_conv conv a b d"
    have d: "t_convs ?d = t_convs d @ [\<lparr>v_id = conv, v_last_seq = 0, v_last_at = None\<rparr>]"
      "t_members ?d = t_members d @ [new_member conv (min a b), new_member conv (max a b)]"
      using False by (simp_all add: ensure_conv_def)
    note wf = assms(1) [unfolded msg_wf_def]
    have nm: "conv \<notin> g_conv ` set (t_messages d)" "conv \<notin> b_conv ` set (t_members d)" using wf new by blast+
    have "conv_wf ?d v" if "v \<in> set (t_convs d)" for v
    proof -
      have "v_id v \<noteq> conv" using that new by auto
      then show ?thesis using wf that by (auto simp: conv_wf_def d new_member_def)
    qed
    moreover have "conv_wf ?d \<lparr>v_id = conv, v_last_seq = 0, v_last_at = None\<rparr>"
      using nm by (intro conv_wf_empty) (auto simp: d new_member_def)
    moreover have "distinct (map (\<lambda>r. (b_conv r, b_user r)) (t_members ?d))"
      using wf nm(2) assms(2) by (auto simp: d new_member_def min_def max_def)
    ultimately show ?thesis using wf new by (auto simp: msg_wf_def d new_member_def)
  qed
qed

lemma conv_messages_last:
  assumes "msg_wf d" "conv \<in> v_id ` set (t_convs d)"
  shows "map g_seq (filter (\<lambda>g. g_conv g = conv) (t_messages d)) = [1..last_seq conv d]" "0 \<le> last_seq conv d"
    and "\<forall>v\<in>set (t_convs d). v_id v = conv \<longrightarrow> v_last_seq v = last_seq conv d"
proof -
  obtain v where v: "find (\<lambda>v. v_id v = conv) (t_convs d) = Some v" "v \<in> set (t_convs d)" "v_id v = conv"
    using find_key [OF assms(2)] by blast
  have "last_seq conv d = v_last_seq v" by (simp add: last_seq_def v(1))
  then show "map g_seq (filter (\<lambda>g. g_conv g = conv) (t_messages d)) = [1..last_seq conv d]" "0 \<le> last_seq conv d"
    using assms(1) v by (auto simp: msg_wf_def conv_wf_def)
  have "inj_on v_id (set (t_convs d))" using assms(1) by (simp add: msg_wf_def distinct_map)
  then show "\<forall>u\<in>set (t_convs d). v_id u = conv \<longrightarrow> v_last_seq u = last_seq conv d"
    using v \<open>last_seq conv d = v_last_seq v\<close> by (metis inj_onD)
qed

lemma msg_wf_deliver:
  assumes "msg_wf d" "g_conv g \<in> v_id ` set (t_convs d)" "g_seq g = last_seq (g_conv g) d + 1"
    and "\<And>h. h \<in> set (t_messages d) \<Longrightarrow> g_client g \<noteq> None \<Longrightarrow>
      (g_conv h, g_sender h, g_client h) \<noteq> (g_conv g, g_sender g, g_client g)"
  shows "msg_wf (deliver g d)"
proof -
  note wf = assms(1) [unfolded msg_wf_def] and last = conv_messages_last [OF assms(1,2)]
  let ?f = "\<lambda>v. v\<lparr>v_last_seq := g_seq g, v_last_at := Some (g_at g)\<rparr>"
  have ids: "map v_id (t_convs (deliver g d)) = map v_id (t_convs d)"
    by (simp add: deliver_def map_update_where)
  have keys: "map (\<lambda>r. (b_conv r, b_user r)) (t_members (deliver g d)) = map (\<lambda>r. (b_conv r, b_user r)) (t_members d)"
    by (simp add: deliver_def map_update_where)
  have "conv_wf (deliver g d) u" if u: "u \<in> set (t_convs (deliver g d))" for u
  proof -
    obtain v where v: "v \<in> set (t_convs d)" "u = (if v_id v = g_conv g then ?f v else v)"
      using u by (auto simp: deliver_def set_update_where)
    have mem: "conv_wf d v" using wf v(1) by blast
    show ?thesis
    proof (cases "v_id v = g_conv g")
      case True
      have "[1..last_seq (g_conv g) d + 1] = [1..last_seq (g_conv g) d] @ [last_seq (g_conv g) d + 1]"
        using last(2) by (simp add: upto_rec2)
      moreover have "v_last_seq v = last_seq (g_conv g) d" using last(3) v(1) True by blast
      ultimately show ?thesis
        using mem True v(2) last(1,2) assms(3)
        by (auto simp: conv_wf_def deliver_def set_update_where)
    next
      case False
      then show ?thesis using mem v(2) by (auto simp: conv_wf_def deliver_def set_update_where)
    qed
  qed
  moreover have "g_conv ` set (t_messages (deliver g d)) \<subseteq> v_id ` set (t_convs (deliver g d))"
    using wf assms(2) arg_cong [OF ids, of set] by (auto simp: deliver_def)
  moreover have "b_conv ` set (t_members (deliver g d)) \<subseteq> v_id ` set (t_convs (deliver g d))"
  proof -
    have "b_conv ` set (t_members (deliver g d)) = b_conv ` set (t_members d)"
      using arg_cong [OF keys, of "\<lambda>l. fst ` set l"] by (simp add: image_image)
    then show ?thesis using wf arg_cong [OF ids, of set] by simp
  qed
  moreover have "h = k" if "h \<in> set (t_messages (deliver g d))" "k \<in> set (t_messages (deliver g d))" "g_client h \<noteq> None"
    "(g_conv h, g_sender h, g_client h) = (g_conv k, g_sender k, g_client k)" for h k
    using that assms(4) [of h] assms(4) [of k] wf by (auto simp: deliver_def)
  ultimately show ?thesis using wf by (auto simp: msg_wf_def ids keys)
qed

lemma stored_None:
  assumes "stored conv a key d = None" "h \<in> set (t_messages d)" "key \<noteq> None"
  shows "(g_conv h, g_sender h, g_client h) \<noteq> (conv, a, key)"
  using assms by (auto simp: stored_def find_None_iff has_client_key_def)

lemma sent_wf:
  assumes "sent conv a b content key d x d'" "msg_wf d" "a \<noteq> b"
  shows "msg_wf d'"
proof (cases "stored conv a key d")
  case None
  note e = msg_wf_ensure [OF assms(2,3), of conv]
  have "d' = deliver \<lparr>g_conv = conv, g_seq = last_seq conv (ensure_conv conv a b d) + 1, g_sender = a, g_content = content,
      g_at = fst (snd x), g_client = key\<rparr> (ensure_conv conv a b d)"
    using assms(1) None by (auto simp: sent_def Let_def)
  then show ?thesis using e stored_None [OF None] by (auto intro!: msg_wf_deliver)
next
  case (Some g)
  then show ?thesis using assms(1) msg_wf_ensure [OF assms(2,3)] by (auto simp: sent_def Let_def)
qed


section \<open>Properties of sending and reading\<close>

lemma db_after_update [simp]: "(w\<lparr>db := d\<rparr>) = upd_db (\<lambda>_. d) w"
  by (simp add: upd_db_def)

text \<open>What a send leaves behind: the tables as they were, or the effect of one committed transaction,
  also when the reply to the commit was lost.\<close>

lemma send_message_db:
  assumes "run_state (send_message a b content client) w = (r, w')"
  shows "(case r of
      Inl _ \<Rightarrow> db w' = db w \<or> (a \<noteq> b \<and> (\<exists>x. sent (conversation_id a b) a b content (client_key client) (db w) x (db w')))
    | Inr (m, replayed) \<Rightarrow> a \<noteq> b \<and> content \<noteq> [] \<and> rune_count content \<le> 4000 \<and>
        m = \<lparr>m_id = message_id (conversation_id a b) (m_seq m), m_conv = conversation_id a b, m_seq = m_seq m,
             m_sender = a, m_receiver = b, m_content = content, m_at = m_at m\<rparr> \<and>
        sent (conversation_id a b) a b content (client_key client) (db w) (m_seq m, m_at m, replayed) (db w'))"
proof -
  let ?S = "\<lambda>x d. sent (conversation_id a b) a b content (client_key client) (db w) x d"
  have tx: "wp (in_tx (store_message (conversation_id a b) a b content (client_key client))) (\<lambda>r w'.
      case r of Inl _ \<Rightarrow> db w' = db w \<or> (\<exists>x. ?S x (db w')) | Inr x \<Rightarrow> ?S x (db w')) u"
    if "a \<noteq> b" "db u = db w" for u
    by (rule wp_in_txI, rule wp_mono [OF store_message_sent [OF that(1)]])
      (use that in \<open>auto simp del: db_after_update split: sum.split\<close>)
  have "wp (send_message a b content client) (\<lambda>r w'. case r of
      Inl _ \<Rightarrow> db w' = db w \<or> (a \<noteq> b \<and> (\<exists>x. ?S x (db w')))
    | Inr (m, replayed) \<Rightarrow> a \<noteq> b \<and> content \<noteq> [] \<and> rune_count content \<le> 4000 \<and>
        m = \<lparr>m_id = message_id (conversation_id a b) (m_seq m), m_conv = conversation_id a b, m_seq = m_seq m,
             m_sender = a, m_receiver = b, m_content = content, m_at = m_at m\<rparr> \<and> ?S (m_seq m, m_at m, replayed) (db w')) w"
    (is "wp _ ?Q w")
  proof (cases "a = b \<or> content = [] \<or> rune_count content > 4000")
    case True
    then show ?thesis by (auto simp: send_message_def max_content_len_def wp_ret)
  next
    case False
    then have ne: "a \<noteq> b" "content \<noteq> []" "\<not> rune_count content > 4000" by simp_all
    have look: "wp (user_exists b) (\<lambda>_ u. db u = db w) w"
      by (simp add: user_exists_def wp_pg_query)
    have body: "wp (tryE (in_tx (store_message (conversation_id a b) a b content (client_key client))) (\<lambda>(n, t, replayed).
         ret (\<lparr>m_id = message_id (conversation_id a b) n, m_conv = conversation_id a b, m_seq = n, m_sender = a,
               m_receiver = b, m_content = content, m_at = t\<rparr>, replayed))) ?Q u" if "db u = db w" for u
    proof (rule wp_tryI [OF tx [OF ne(1) that]], goal_cases)
      case (1 x w')
      then show ?case using ne by (cases x) (simp only: case_prod_conv wp_ret sum.case, simp)
    next
      case (2 e w')
      then show ?case using ne by simp
    qed
    have bad: "\<not> (content = [] \<or> rune_count content > max_content_len)" using ne by (simp add: max_content_len_def)
    show ?thesis unfolding send_message_def Let_def if_not_P [OF ne(1)] if_not_P [OF bad]
    proof (rule wp_tryI [OF look], goal_cases)
      case (1 x u)
      then show ?case by (cases x) (simp_all add: body, simp add: wp_ret)
    qed simp
  qed
  from wp_run [OF this assms] show ?thesis .
qed

text \<open>Read markers only move forward.\<close>

definition read_forward :: "database \<Rightarrow> database \<Rightarrow> bool" where
  "read_forward d d' \<longleftrightarrow> (\<forall>r\<in>set (t_members d). \<exists>r'\<in>set (t_members d').
     (b_conv r', b_user r') = (b_conv r, b_user r) \<and> b_read r \<le> b_read r')"

lemma read_forward_refl [simp]: "read_forward d d"
  by (auto simp: read_forward_def)

lemma read_forward_update:
  assumes "\<And>r. r \<in> set (t_members d) \<Longrightarrow> P r \<Longrightarrow> (b_conv (f r), b_user (f r)) = (b_conv r, b_user r) \<and> b_read r \<le> b_read (f r)"
  shows "t_members d' = update_where P f (t_members d) \<Longrightarrow> read_forward d d'"
proof -
  assume eq: "t_members d' = update_where P f (t_members d)"
  show ?thesis unfolding read_forward_def eq set_update_where
  proof
    fix r assume r: "r \<in> set (t_members d)"
    have "(b_conv (if P r then f r else r), b_user (if P r then f r else r)) = (b_conv r, b_user r) \<and>
        b_read r \<le> b_read (if P r then f r else r)"
      using assms [OF r] by simp
    then show "\<exists>r'\<in>(\<lambda>r. if P r then f r else r) ` set (t_members d).
        (b_conv r', b_user r') = (b_conv r, b_user r) \<and> b_read r \<le> b_read r'"
      by (rule bexI) (rule imageI [OF r])
  qed
qed

lemma read_forward_trans: "read_forward d e \<Longrightarrow> read_forward e f \<Longrightarrow> read_forward d f"
  unfolding read_forward_def by (metis order_trans)

lemma read_forward_ensure: "read_forward d (ensure_conv conv a b d)"
  by (auto simp: read_forward_def ensure_conv_def)

lemma read_forward_deliver:
  assumes "msg_wf d" "g_conv g \<in> v_id ` set (t_convs d)" "g_seq g = last_seq (g_conv g) d + 1"
  shows "read_forward d (deliver g d)"
proof (rule read_forward_update)
  show "t_members (deliver g d) = update_where (\<lambda>r. b_conv r = g_conv g)
      (\<lambda>r. r\<lparr>b_last_at := Some (g_at g), b_read := (if b_user r = g_sender g then g_seq g else b_read r)\<rparr>) (t_members d)"
    by (simp add: deliver_def)
  show "(b_conv (r\<lparr>b_last_at := Some (g_at g), b_read := (if b_user r = g_sender g then g_seq g else b_read r)\<rparr>),
        b_user (r\<lparr>b_last_at := Some (g_at g), b_read := (if b_user r = g_sender g then g_seq g else b_read r)\<rparr>)) = (b_conv r, b_user r) \<and>
      b_read r \<le> b_read (r\<lparr>b_last_at := Some (g_at g), b_read := (if b_user r = g_sender g then g_seq g else b_read r)\<rparr>)"
    if r: "r \<in> set (t_members d)" "b_conv r = g_conv g" for r
  proof -
    obtain v where v: "v \<in> set (t_convs d)" "v_id v = g_conv g" using assms(2) by auto
    then have "b_read r \<le> v_last_seq v" using assms(1) r by (auto simp: msg_wf_def conv_wf_def)
    also have "\<dots> = last_seq (g_conv g) d" using conv_messages_last(3) [OF assms(1,2)] v by blast
    finally show ?thesis using assms(3) by simp
  qed
qed

lemma sent_read_forward:
  assumes "sent conv a b content key d x d'" "msg_wf d" "a \<noteq> b"
  shows "read_forward d d'"
proof (cases "stored conv a key d")
  case None
  note e = msg_wf_ensure [OF assms(2,3), of conv]
  have "d' = deliver \<lparr>g_conv = conv, g_seq = last_seq conv (ensure_conv conv a b d) + 1, g_sender = a, g_content = content,
      g_at = fst (snd x), g_client = key\<rparr> (ensure_conv conv a b d)"
    using assms(1) None by (auto simp: sent_def Let_def)
  then show ?thesis using read_forward_trans [OF read_forward_ensure read_forward_deliver] e by simp
next
  case (Some g)
  then show ?thesis using assms(1) read_forward_ensure by (auto simp: sent_def Let_def)
qed

lemma msg_wf_members:
  assumes "msg_wf d" "\<And>v. v \<in> set (t_convs d) \<Longrightarrow> conv_wf (d\<lparr>t_members := m\<rparr>) v"
    and "map (\<lambda>r. (b_conv r, b_user r)) m = map (\<lambda>r. (b_conv r, b_user r)) (t_members d)"
    and "b_conv ` set m = b_conv ` set (t_members d)"
  shows "msg_wf (d\<lparr>t_members := m\<rparr>)"
  using assms unfolding msg_wf_def by (intro conjI) (simp_all, blast)

text \<open>C15. Sending and marking read keep the message tables well formed, whatever calls fail: the
  sequence numbers of every conversation stay \<open>1, \<dots>, last_seq\<close> without gaps in insertion order, read
  markers stay between 0 and the last message and only move forward, a client key names one message.\<close>

theorem conversations_stay_well_formed:
  assumes "msg_wf (db w)" "run_state (send_message a b content client) w = (r, w1)"
    and "run_state (mark_read me other n) w = (q, w2)"
  shows "msg_wf (db w1) \<and> read_forward (db w) (db w1) \<and> msg_wf (db w2) \<and> read_forward (db w) (db w2) \<and>
    t_messages (db w2) = t_messages (db w)"
proof -
  have "msg_wf (db w1) \<and> read_forward (db w) (db w1)"
    using send_message_db [OF assms(2)] sent_wf [OF _ assms(1)] sent_read_forward [OF _ assms(1)] assms(1)
    by (auto split: sum.splits)
  moreover have "msg_wf (db w2) \<and> read_forward (db w) (db w2) \<and> t_messages (db w2) = t_messages (db w)"
  proof -
    let ?conv = "conversation_id me other"
    let ?P = "\<lambda>r. b_conv r = ?conv \<and> b_user r = me \<and> list_ex (\<lambda>v. v_id v = ?conv) (t_convs (db w))"
    let ?f = "\<lambda>r. r\<lparr>b_read := max (b_read r) (min n (last_seq ?conv (db w)))\<rparr>"
    let ?d = "(db w)\<lparr>t_members := update_where ?P ?f (t_members (db w))\<rparr>"
    have run: "wp (mark_read me other n) (\<lambda>_ u. db u = db w \<or> db u = ?d) w"
      by (simp add: mark_read_def Let_def wp_simps last_seq_def split: outcome.split)
    have "conv_wf ?d v" if v: "v \<in> set (t_convs (db w))" for v
    proof -
      have "v_last_seq v = last_seq ?conv (db w)" if "v_id v = ?conv"
        using conv_messages_last(3) [OF assms(1), of ?conv] v that by (metis image_eqI)
      moreover have "conv_wf (db w) v" using assms(1) v by (simp add: msg_wf_def)
      ultimately show ?thesis by (auto simp: conv_wf_def set_update_where)
    qed
    moreover have "map (\<lambda>r. (b_conv r, b_user r)) (update_where ?P ?f (t_members (db w))) = map (\<lambda>r. (b_conv r, b_user r)) (t_members (db w))"
      by (rule map_update_where) simp
    moreover have "b_conv ` set (update_where ?P ?f (t_members (db w))) = b_conv ` set (t_members (db w))"
      using arg_cong [OF calculation(2), of "\<lambda>l. fst ` set l"] by (simp add: image_image)
    ultimately have "msg_wf ?d" using assms(1) by (intro msg_wf_members) simp_all
    moreover have "read_forward (db w) ?d" by (rule read_forward_update [where P = ?P and f = ?f]) simp_all
    ultimately have "wp (mark_read me other n) (\<lambda>_ u. msg_wf (db u) \<and> read_forward (db w) (db u) \<and> t_messages (db u) = t_messages (db w)) w"
      using assms(1) by (intro wp_mono [OF run]) auto
    from wp_run [OF this assms(3)] show ?thesis .
  qed
  ultimately show ?thesis by blast
qed


lemma deliver_ids: "v_id ` set (t_convs (deliver g d)) = v_id ` set (t_convs d)"
proof -
  have "map v_id (t_convs (deliver g d)) = map v_id (t_convs d)" by (simp add: deliver_def map_update_where)
  from arg_cong [OF this, of set] show ?thesis by simp
qed

lemma filter_client_key:
  assumes "msg_wf d" "stored conv a (Some k) d = Some g"
  shows "\<forall>h\<in>set (t_messages d). has_client_key conv a k h \<longrightarrow> h = g" "g \<in> set (t_messages d)" "has_client_key conv a k g"
proof -
  have f: "find (has_client_key conv a k) (t_messages d) = Some g" using assms(2) by (simp add: stored_def)
  from find_in_set [OF f] show g: "g \<in> set (t_messages d)" "has_client_key conv a k g" by simp_all
  show "\<forall>h\<in>set (t_messages d). has_client_key conv a k h \<longrightarrow> h = g"
  proof (intro ballI impI)
    fix h assume h: "h \<in> set (t_messages d)" "has_client_key conv a k h"
    have "\<forall>g\<in>set (t_messages d). \<forall>h\<in>set (t_messages d). g_client g \<noteq> None \<longrightarrow>
        (g_conv g, g_sender g, g_client g) = (g_conv h, g_sender h, g_client h) \<longrightarrow> g = h"
      using assms(1) unfolding msg_wf_def by (elim conjE)
    from bspec [OF bspec [OF this h(1)] g(1)] show "h = g" using h(2) g(2) by (simp add: has_client_key_def)
  qed
qed

text \<open>C16. A successful send stored exactly one message under the next sequence number, or, with a client
  key that was used before for the same text, stored nothing and answers the first message; in both
  cases exactly one message carries the key.\<close>

theorem send_message_effect:
  assumes "msg_wf (db w)" "run_state (send_message a b content client) w = (Inr (m, replayed), w')"
  shows "m_seq m \<le> last_seq (conversation_id a b) (db w') \<and> m_content m = content \<and> m_receiver m = b \<and>
    (if replayed then t_messages (db w') = t_messages (db w)
     else t_messages (db w') = t_messages (db w) @ [\<lparr>g_conv = conversation_id a b, g_seq = m_seq m, g_sender = a,
            g_content = content, g_at = m_at m, g_client = client_key client\<rparr>] \<and>
          m_seq m = 1 + int (length (conv_messages (conversation_id a b) w))) \<and>
    (client \<noteq> [] \<longrightarrow> card {g \<in> set (t_messages (db w')). has_client_key (conversation_id a b) a client g} = 1)"
proof -
  let ?conv = "conversation_id a b" and ?k = "client_key client"
  have r: "a \<noteq> b" and m: "m_content m = content" "m_receiver m = b"
    and sent: "sent ?conv a b content ?k (db w) (m_seq m, m_at m, replayed) (db w')"
    using send_message_db [OF assms(2)] by (auto simp: message.defs dest: arg_cong [of m _ m_content] arg_cong [of m _ m_receiver])
  let ?d = "ensure_conv ?conv a b (db w)"
  note wf1 = msg_wf_ensure [OF assms(1) r, of ?conv]
  have last: "last_seq ?conv ?d = int (length (conv_messages ?conv w))" "0 \<le> last_seq ?conv ?d"
  proof -
    show "0 \<le> last_seq ?conv ?d" by (rule conv_messages_last(2) [OF wf1])
    then have "int (length (map g_seq (filter (\<lambda>g. g_conv g = ?conv) (t_messages ?d)))) = last_seq ?conv ?d"
      unfolding conv_messages_last(1) [OF wf1] by simp
    then show "last_seq ?conv ?d = int (length (conv_messages ?conv w))" by (simp add: conv_messages_def)
  qed
  show ?thesis
  proof (cases "stored ?conv a ?k (db w)")
    case None
    let ?g = "\<lparr>g_conv = ?conv, g_seq = m_seq m, g_sender = a, g_content = content, g_at = m_at m, g_client = ?k\<rparr>"
    have s: "\<not> replayed" "m_seq m = last_seq ?conv ?d + 1" "db w' = deliver ?g ?d"
      using sent None by (simp_all add: sent_def Let_def)
    have wf2: "msg_wf (db w')" by (rule sent_wf [OF sent assms(1) r])
    have "?conv \<in> v_id ` set (t_convs (db w'))" using wf1(2) by (simp add: s(3) deliver_ids)
    then have "[1..last_seq ?conv (db w')] = map g_seq (filter (\<lambda>g. g_conv g = ?conv) (t_messages (db w')))"
      using conv_messages_last(1) [OF wf2] by simp
    moreover have "?g \<in> set (filter (\<lambda>g. g_conv g = ?conv) (t_messages (db w')))" by (simp add: s(3) deliver_def)
    ultimately have "m_seq m \<in> set [1..last_seq ?conv (db w')]" by (metis (no_types, lifting) image_eqI message_row.select_convs(2) list.set_map)
    then have le: "m_seq m \<le> last_seq ?conv (db w')" by simp
    have "card {g \<in> set (t_messages (db w')). has_client_key ?conv a client g} = 1" if "client \<noteq> []"
    proof -
      have "{g \<in> set (t_messages (db w')). has_client_key ?conv a client g} = {?g}"
        using stored_None [OF None, where h = h for h] that
        by (auto simp: s(3) deliver_def has_client_key_def client_key_def)
      then show ?thesis by simp
    qed
    then show ?thesis using s m le last(1) by (simp add: deliver_def)
  next
    case (Some g)
    then obtain k where k: "?k = Some k" by (cases ?k) (simp_all add: stored_def)
    have s: "replayed" "m_seq m = g_seq g" "db w' = ?d" using sent Some by (simp_all add: sent_def Let_def)
    note fk = filter_client_key [OF assms(1) Some [unfolded k]]
    have "{g \<in> set (t_messages (db w')). has_client_key ?conv a client g} = {g}" if "client \<noteq> []"
    proof -
      have kc: "k = client" using k that by (simp add: client_key_def)
      have "h = g" if "h \<in> set (t_messages (db w))" "has_client_key ?conv a client h" for h
        using bspec [OF fk(1) that(1)] that(2) kc by simp
      moreover have "g \<in> set (t_messages (db w))" "has_client_key ?conv a client g" using fk(2,3) kc by simp_all
      ultimately show ?thesis unfolding s(3) ensure_conv_messages by blast
    qed
    moreover have "g_seq g \<in> set [1..last_seq ?conv ?d]"
      using fk(2,3) unfolding conv_messages_last(1) [OF wf1, symmetric] by (auto simp: has_client_key_def)
    ultimately show ?thesis using s m by simp
  qed
qed

text \<open>C17. A retried send with a key that is already stored stores nothing more, whatever calls of it fail,
  and can only answer the stored message.\<close>

theorem resend_stores_nothing:
  assumes "msg_wf (db w)" "client \<noteq> []" "g \<in> set (t_messages (db w))" "has_client_key (conversation_id a b) a client g"
    and "run_state (send_message a b content client) w = (r, w')"
  shows "t_messages (db w') = t_messages (db w) \<and>
    (\<forall>m replayed. r = Inr (m, replayed) \<longrightarrow> replayed \<and> m_seq m = g_seq g \<and> content = g_content g)"
proof -
  have st: "stored (conversation_id a b) a (client_key client) (db w) = Some g"
  proof -
    have "find (has_client_key (conversation_id a b) a client) (t_messages (db w)) \<noteq> None"
      using assms(3,4) by (auto simp: find_None_iff)
    then obtain h where h: "stored (conversation_id a b) a (Some client) (db w) = Some h" by (auto simp: stored_def)
    have "g = h" using filter_client_key(1) [OF assms(1) h] assms(3,4) by blast
    then show ?thesis using h assms(2) by (simp add: client_key_def)
  qed
  have same: "t_messages (db w') = t_messages (db w)"
    if "sent (conversation_id a b) a b content (client_key client) (db w) x (db w')" for x
    using that st by (auto simp: sent_def Let_def)
  show ?thesis
  proof (cases r)
    case (Inl e)
    then show ?thesis using send_message_db [OF assms(5)] same by auto
  next
    case (Inr p)
    obtain m replayed where p: "p = (m, replayed)" by fastforce
    have s: "sent (conversation_id a b) a b content (client_key client) (db w) (m_seq m, m_at m, replayed) (db w')"
      using send_message_db [OF assms(5)] Inr p by simp
    then show ?thesis using same [OF s] Inr p st by (simp add: sent_def Let_def)
  qed
qed


section \<open>Windows of a conversation\<close>

lemma conv_messages_upto:
  assumes "msg_wf (db w)"
  shows "map g_seq (conv_messages conv w) = [1..last_seq conv (db w)]"
proof (cases "conv \<in> v_id ` set (t_convs (db w))")
  case True
  then show ?thesis using conv_messages_last(1) [OF assms] by (simp add: conv_messages_def)
next
  case False
  then have "conv \<notin> g_conv ` set (t_messages (db w))" using assms by (auto simp: msg_wf_def)
  then have "conv_messages conv w = []" by (auto simp: conv_messages_def filter_empty_conv)
  moreover have "find (\<lambda>v. v_id v = conv) (t_convs (db w)) = None" using False by (auto simp: find_None_iff)
  ultimately show ?thesis by (simp add: last_seq_def)
qed

lemma filter_upto: "filter (\<lambda>x. a < x) [1..L] = [max 1 (a + 1)..L]" "filter (\<lambda>x. x < b) [1..L] = [1..min L (b - 1)]" for a b L :: int
  by (rule sorted_distinct_set_unique; auto simp: sorted_wrt_filter)+

lemma take_upto: "take n [i..j] = [i..min j (i + int n - 1)]" for i j :: int
proof (induction n arbitrary: i)
  case (Suc n)
  show ?case
  proof (cases "i \<le> j")
    case True
    then have "[i..min j (i + int n)] = i # [i + 1..min j (i + int n)]" by (subst upto_rec1) simp_all
    then show ?thesis using True Suc [of "i + 1"] by (simp add: upto_rec1 [of i j] algebra_simps)
  qed simp
qed simp

lemma take_rev_upto: "rev (take n (rev [i..j])) = [max i (j - int n + 1)..j]" for i j :: int
proof (induction n arbitrary: j)
  case (Suc n)
  show ?case
  proof (cases "i \<le> j")
    case True
    have "rev [i..j] = j # rev [i..j - 1]" using True by (simp add: upto_rec2)
    then have "rev (take (Suc n) (rev [i..j])) = [max i (j - 1 - int n + 1)..j - 1] @ [j]" using Suc [of "j - 1"] by simp
    also have "\<dots> = [max i (j - int (Suc n) + 1)..j]" using True by (simp add: upto_rec2 algebra_simps)
    finally show ?thesis .
  qed simp
qed simp

lemma map_filter_key: "map f (filter (\<lambda>x. P (f x)) xs) = filter P (map f xs)"
  by (simp add: filter_map comp_def)

lemma select_asc_upto:
  assumes "map g_seq rows = [1..L]"
  shows "map g_seq (select_asc g_seq (Some a) n rows) = take (nat n) [max 1 (a + 1)..L]"
proof -
  have "sort_key g_seq rows = rows" by (rule sort_key_id_if_sorted) (simp add: assms)
  then show ?thesis
    by (simp add: select_asc_page after_cursor_def take_map [symmetric] map_filter_key [of g_seq "\<lambda>x. a < x"] assms filter_upto)
qed

lemma select_desc_upto:
  assumes "map g_seq rows = [1..L]"
  shows "map g_seq (select_desc g_seq (Some b) n rows) = take (nat n) (rev [1..min L (b - 1)])"
proof -
  have "sort_key g_seq rows = rows" by (rule sort_key_id_if_sorted) (simp add: assms)
  then have "map g_seq (filter (\<lambda>r. g_seq r < b) (sort_desc g_seq rows)) = rev [1..min L (b - 1)]"
    by (simp add: sort_desc_def rev_filter [symmetric] rev_map [symmetric] map_filter_key [of g_seq "\<lambda>x. x < b"] assms filter_upto)
  then show ?thesis by (simp add: select_desc_page after_cursor_def take_map [symmetric])
qed

text \<open>C18. A page of a conversation is an exact window of its sequence numbers: after \<open>s\<close> it holds
  \<open>s+1, s+2, \<dots>\<close> and nothing is skipped when the client continues after the last one; scrolling back it
  ends right before the given number; the continuation is offered exactly when there is more.\<close>

theorem get_messages_window:
  assumes "msg_wf (db w)" "run_state (get_messages me other before after limit0) w = (Inr page, w')"
  defines "L \<equiv> last_seq (conversation_id me other) (db w)" and "n \<equiv> page_limit limit0 50 200"
    and "up_to \<equiv> min (last_seq (conversation_id me other) (db w)) ((if before \<le> 0 then 2 ^ 63 - 1 else before) - 1)"
  shows "set (pg_messages page) \<subseteq> message_of_row me other ` set (conv_messages (conversation_id me other) w) \<and>
    map m_seq (pg_messages page) = (if after > 0 then [after + 1..min L (after + n)] else [max 1 (up_to - n + 1)..up_to]) \<and>
    pg_has_more page = (after > 0 \<and> after + n < L) \<and>
    pg_next_before page = (if after > 0 \<or> up_to \<le> n then 0 else up_to - n + 1)"
proof -
  let ?conv = "conversation_id me other" and ?b = "if before \<le> 0 then 2 ^ 63 - 1 else before"
  define rows where "rows = (if after > 0 then select_asc g_seq (Some after) (n + 1) (conv_messages ?conv w)
      else select_desc g_seq (Some ?b) (n + 1) (conv_messages ?conv w))"
  have n: "0 < n" by (simp add: n_def page_limit_def)
  have up: "map g_seq (conv_messages ?conv w) = [1..L]" unfolding L_def by (rule conv_messages_upto [OF assms(1)])
  have conv: "conv_messages ?conv (after_call PG w) = conv_messages ?conv w" by (simp add: conv_messages_def)
  define msgs where "msgs = (if int (length rows) > n then take (nat n) (map (message_of_row me other) rows)
      else map (message_of_row me other) rows)"
  have page: "pg_messages page = (if after > 0 then msgs else rev msgs) \<and> pg_has_more page = (after > 0 \<and> int (length rows) > n) \<and>
      pg_next_before page = (if \<not> after > 0 \<and> int (length rows) > n then m_seq (hd (rev msgs)) else 0)"
  proof -
    have "(Inr page, w') = run_state (get_messages me other before after limit0) w" using assms(2) by simp
    then show ?thesis
      unfolding get_messages_def Let_def run_tryE run_pg_query conv n_def [symmetric] rows_def [symmetric]
      by (cases "next_out PG w = Done"; cases "next_out PG (after_call PG w) = Done")
        (simp_all add: run_tryE run_pg_query select_last_read_def msgs_def)
  qed
  have sub: "set rows \<subseteq> set (conv_messages ?conv w)"
    by (auto simp: rows_def select_asc_page select_desc_page dest: in_set_takeD split: if_splits)
  have msgs: "msgs = map (message_of_row me other) (take (nat n) rows)"
    using n by (auto simp: msgs_def take_map)
  have seqs: "map m_seq msgs = take (nat n) (map g_seq rows)"
    by (simp add: msgs take_map message_of_row_def comp_def)
  have subset: "set (pg_messages page) \<subseteq> message_of_row me other ` set (conv_messages ?conv w)"
    using page sub by (auto simp: msgs dest: in_set_takeD)
  show ?thesis
  proof (cases "after > 0")
    case True
    have r: "map g_seq rows = [after + 1..min L (after + n + 1)]"
      using True n select_asc_upto [OF up, of after "n + 1"] by (simp add: rows_def take_upto algebra_simps)
    have "length rows = length [after + 1..min L (after + n + 1)]" using arg_cong [OF r, of length] by simp
    then have len: "int (length rows) > n \<longleftrightarrow> after + n < L" using n by auto
    have "min (min L (after + n + 1)) (after + 1 + int (nat n) - 1) = min L (after + n)" using n by linarith
    then have "map m_seq msgs = [after + 1..min L (after + n)]" unfolding seqs r take_upto by simp
    then show ?thesis using page True subset len by simp
  next
    case False
    have up_to: "min L (?b - 1) = up_to" by (simp add: up_to_def L_def)
    have r: "map g_seq rows = take (nat (n + 1)) (rev [1..up_to])"
      using False select_desc_upto [OF up, of ?b "n + 1"] by (simp only: rows_def if_False up_to)
    have len: "int (length rows) > n \<longleftrightarrow> up_to > n"
      using arg_cong [OF r, of length] n by auto
    have "map m_seq (rev msgs) = rev (take (nat n) (rev [1..up_to]))"
      using n by (simp add: rev_map [symmetric] seqs r min_def)
    then have w: "map m_seq (rev msgs) = [max 1 (up_to - n + 1)..up_to]" using n by (simp add: take_rev_upto)
    have "m_seq (hd (rev msgs)) = up_to - n + 1" if "up_to > n"
    proof -
      have "\<exists>zs. map m_seq (rev msgs) = (up_to - n + 1) # zs" using w that n by (simp add: upto_rec1)
      then show ?thesis by (cases "rev msgs") auto
    qed
    then show ?thesis using page False subset len w by auto
  qed
qed


section \<open>Conversation ids and the inbox\<close>

lemma split_on_simps:
  assumes "c \<notin> set a"
  shows "split_on c a = [a]" "split_on c (a @ c # b) = a # split_on c b"
  using assms by (induction a) auto

text \<open>A pair of users has one conversation id, whoever asks, different pairs have different ones, and
  the other participant is read back from it; user ids hold no colon.\<close>

theorem conversation_id_names_pair:
  assumes "CHR '':'' \<notin> set a" "CHR '':'' \<notin> set b" "CHR '':'' \<notin> set c" "CHR '':'' \<notin> set d"
  shows "(conversation_id a b = conversation_id c d \<longleftrightarrow> {a, b} = {c, d}) \<and>
    other_participant (conversation_id a b) a = b \<and> other_participant (conversation_id a b) b = a"
proof -
  have split: "split_on CHR '':'' (x @ CHR '':'' # y) = [x, y]" if "CHR '':'' \<notin> set x" "CHR '':'' \<notin> set y" for x y
    using that by (simp add: split_on_simps)
  have id: "conversation_id x y = ''dm:'' @ min x y @ CHR '':'' # max x y" for x y
    by (simp add: conversation_id_def max_min_pair)
  have mm: "CHR '':'' \<notin> set (min x y)" "CHR '':'' \<notin> set (max x y)" if "CHR '':'' \<notin> set x" "CHR '':'' \<notin> set y" for x y :: string
    using that by (simp_all add: min_def max_def)
  have inj: "x = x' \<and> y = y'" if e: "x @ CHR '':'' # y = x' @ CHR '':'' # y'"
    and f: "CHR '':'' \<notin> set x" "CHR '':'' \<notin> set y" "CHR '':'' \<notin> set x'" "CHR '':'' \<notin> set y'" for x y x' y'
    using arg_cong [OF e, of "split_on CHR '':''"] f by (simp add: split)
  have "conversation_id a b = conversation_id c d \<longleftrightarrow> min a b = min c d \<and> max a b = max c d"
    using inj [of "min a b" "max a b" "min c d" "max c d"] mm assms by (auto simp: id)
  also have "\<dots> \<longleftrightarrow> {a, b} = {c, d}" by (auto simp: min_def max_def doubleton_eq_iff)
  finally have "conversation_id a b = conversation_id c d \<longleftrightarrow> {a, b} = {c, d}" .
  moreover have "split_on CHR '':'' (trim_prefix ''dm:'' (conversation_id a b)) = [min a b, max a b]"
    using mm assms by (simp add: id trim_prefix_def split)
  then have "other_participant (conversation_id a b) a = b \<and> other_participant (conversation_id a b) b = a"
    by (auto simp: other_participant_def Let_def min_def max_def)
  ultimately show ?thesis by blast
qed

text \<open>The inbox shows, for every conversation, the number of messages after the reader's marker.\<close>

theorem inbox_counts_unread:
  assumes "msg_wf (db w)" "i \<in> set (inbox_rows me w)"
  shows "\<exists>r\<in>set (t_members (db w)). b_user r = me \<and> b_conv r = i_conv i \<and>
    i_unread i = int (length (filter (\<lambda>g. g_seq g > b_read r) (conv_messages (i_conv i) w))) \<and>
    i_last_seq i = int (length (conv_messages (i_conv i) w))"
proof -
  have "\<exists>r v. r \<in> set (t_members (db w)) \<and> b_user r = me \<and> v \<in> set (t_convs (db w)) \<and> v_id v = b_conv r \<and>
      i_conv i = b_conv r \<and> i_last_seq i = v_last_seq v \<and> i_unread i = v_last_seq v - b_read r"
    using assms(2) by (force simp: inbox_rows_def)
  then obtain r v where r: "r \<in> set (t_members (db w))" "b_user r = me" and v: "v \<in> set (t_convs (db w))" "v_id v = b_conv r"
    and i: "i_conv i = b_conv r" "i_last_seq i = v_last_seq v" "i_unread i = v_last_seq v - b_read r" by blast
  have wf: "0 \<le> v_last_seq v" "map g_seq (conv_messages (b_conv r) w) = [1..v_last_seq v]" "0 \<le> b_read r" "b_read r \<le> v_last_seq v"
    using assms(1) v r(1) by (auto simp: msg_wf_def conv_wf_def conv_messages_def)
  have "map g_seq (filter (\<lambda>g. g_seq g > b_read r) (conv_messages (b_conv r) w)) = [b_read r + 1..v_last_seq v]"
    using map_filter_key [of g_seq "\<lambda>x. b_read r < x" "conv_messages (b_conv r) w"] wf by (simp add: filter_upto)
  then have "int (length (filter (\<lambda>g. g_seq g > b_read r) (conv_messages (b_conv r) w))) = v_last_seq v - b_read r"
    using wf(4) length_map [of g_seq "filter (\<lambda>g. g_seq g > b_read r) (conv_messages (b_conv r) w)"] by simp
  moreover have "int (length (conv_messages (b_conv r) w)) = v_last_seq v"
    using arg_cong [OF wf(2), of length] wf(1) by simp
  ultimately show ?thesis using r i by (intro bexI [of _ r]) simp_all
qed


section \<open>A small instance\<close>

definition demo_chat :: world where
  "demo_chat = quiet_world\<lparr>db := empty_db\<lparr>t_users := [demo_user ''ann'', demo_user ''bob''],
     t_convs := [\<lparr>v_id = ''dm:ann:bob'', v_last_seq = 1, v_last_at = Some 0\<rparr>],
     t_members := [\<lparr>b_conv = ''dm:ann:bob'', b_user = ''ann'', b_read = 0, b_last_at = Some 0\<rparr>,
       \<lparr>b_conv = ''dm:ann:bob'', b_user = ''bob'', b_read = 1, b_last_at = Some 0\<rparr>],
     t_messages := [\<lparr>g_conv = ''dm:ann:bob'', g_seq = 1, g_sender = ''bob'', g_content = ''hi'', g_at = 0, g_client = Some ''k''\<rparr>]\<rparr>,
     red := empty_redis\<rparr>"

lemma demo_chat_wf: "msg_wf (db demo_chat)"
  by (simp add: demo_chat_def msg_wf_def conv_wf_def)

lemma demo_chat_next: "next_out y demo_chat = Done" "after_call PG demo_chat = demo_chat"
  by (simp_all add: next_out_def after_call_def demo_chat_def quiet_world_def fun_upd_def cong: if_cong)

theorem conversations_stay_well_formed_witness:
  "msg_wf (db (snd (run_state (send_message ''ann'' ''bob'' ''yo'' []) demo_chat)))"
proof -
  let ?s = "run_state (send_message ''ann'' ''bob'' ''yo'' []) demo_chat" and ?m = "run_state (mark_read ''ann'' ''bob'' 1) demo_chat"
  show ?thesis
    using conversations_stay_well_formed [OF demo_chat_wf, of "''ann''" "''bob''" "''yo''" "[]" "fst ?s" "snd ?s" "''ann''" "''bob''" 1 "fst ?m" "snd ?m"]
    by simp
qed

lemma demo_id: "conversation_id ''bob'' ''ann'' = ''dm:ann:bob''" "conversation_id ''ann'' ''bob'' = ''dm:ann:bob''"
  by (simp_all add: conversation_id_def)

lemma run_demo_send: "run_state (send_message ''bob'' ''ann'' ''hi'' ''k'') demo_chat =
    (Inr (\<lparr>m_id = message_id ''dm:ann:bob'' 1, m_conv = ''dm:ann:bob'', m_seq = 1, m_sender = ''bob'', m_receiver = ''ann'',
       m_content = ''hi'', m_at = 0\<rparr>, True), demo_chat)"
proof -
  have c: "rune_count ''hi'' = 2" by (simp add: rune_count.simps rune_size_def byte_in_def)
  have d: "t_users (db demo_chat) = [demo_user ''ann'', demo_user ''bob'']"
    "t_convs (db demo_chat) = [\<lparr>v_id = ''dm:ann:bob'', v_last_seq = 1, v_last_at = Some 0\<rparr>]"
    "t_messages (db demo_chat) = [\<lparr>g_conv = ''dm:ann:bob'', g_seq = 1, g_sender = ''bob'', g_content = ''hi'', g_at = 0, g_client = Some ''k''\<rparr>]"
    by (simp_all add: demo_chat_def)
  show ?thesis
    by (simp add: send_message_def c max_content_len_def user_exists_def run_tryE run_pg_query demo_chat_next d demo_user_def demo_id
        in_tx_def ext_call_def store_message_def insert_conversation_def run_ret store_locked_def select_last_seq_def client_key_def
        select_by_key_def has_client_key_def Let_def)
qed

theorem send_message_effect_witness:
  "card {g \<in> set (t_messages (db demo_chat)). has_client_key ''dm:ann:bob'' ''bob'' ''k'' g} = 1"
  using send_message_effect [OF demo_chat_wf run_demo_send] by (simp add: demo_id)

theorem resend_stores_nothing_witness:
  "t_messages (db (snd (run_state (send_message ''bob'' ''ann'' ''other'' ''k'') demo_chat))) = t_messages (db demo_chat)"
proof -
  let ?s = "run_state (send_message ''bob'' ''ann'' ''other'' ''k'') demo_chat"
  have "?s = (fst ?s, snd ?s)" by simp
  from resend_stores_nothing [OF demo_chat_wf _ _ _ this, of "hd (t_messages (db demo_chat))"]
  show ?thesis by (simp add: demo_chat_def has_client_key_def demo_id)
qed

theorem get_messages_window_witness:
  "\<exists>page w'. run_state (get_messages ''ann'' ''bob'' 0 0 10) demo_chat = (Inr page, w') \<and> map m_seq (pg_messages page) = [1]"
proof -
  obtain page where run: "run_state (get_messages ''ann'' ''bob'' 0 0 10) demo_chat = (Inr page, demo_chat)"
    by (simp add: get_messages_def Let_def run_tryE run_pg_query demo_chat_next select_last_read_def)
  have "last_seq ''dm:ann:bob'' (db demo_chat) = 1" by (simp add: last_seq_def demo_chat_def)
  then have "map m_seq (pg_messages page) = [1]"
    using get_messages_window [OF demo_chat_wf run] by (simp add: demo_id page_limit_def)
  show ?thesis by (intro exI conjI) (rule run, fact)
qed

theorem conversation_id_names_pair_witness:
  "other_participant (conversation_id ''bob'' ''ann'') ''bob'' = ''ann''"
  using conversation_id_names_pair [of "''bob''" "''ann''" "''bob''" "''ann''"] by simp

theorem inbox_counts_unread_witness:
  "map i_unread (inbox_rows ''ann'' demo_chat) = [1] \<and>
   (\<exists>r\<in>set (t_members (db demo_chat)). b_user r = ''ann'' \<and> b_conv r = ''dm:ann:bob'')"
proof -
  have one: "inbox_rows ''ann'' demo_chat = [\<lparr>i_conv = ''dm:ann:bob'', i_with = ''bob'', i_last_seq = 1, i_message = ''hi'',
      i_sender = ''bob'', i_at = 0, i_unread = 1\<rparr>]" (is "_ = [?i]")
    by (simp add: inbox_rows_def demo_chat_def other_participant_def trim_prefix_def)
  have "?i \<in> set (inbox_rows ''ann'' demo_chat)" by (simp add: one)
  from inbox_counts_unread [OF demo_chat_wf this] one show ?thesis by auto
qed

end
