(* ===== verification/Posts.thy ===== *)
theory Posts
  imports PostStore OutboxPG FeedStore Message
begin

text \<open>
  \<open>services/post/service/post.go\<close>: creating, deleting, cleaning up, liking and sharing posts, and the
  reads.  Every change and its event are written in one transaction; the event is then published
  on the fast path, whose failure is only logged.
\<close>

section \<open>Media\<close>

text \<open>\<open>shared/backend/gcs.go\<close>.  Signing a URL is the client library's; deleting an object that does not
  exist is an error.\<close>

record gcs =
  public_base :: string
  bucket_name :: string
  sign_url :: "string \<Rightarrow> string option"

definition save_to_gcs :: "gcs \<Rightarrow> string \<Rightarrow> string \<Rightarrow> string io" where
  "save_to_gcs g content name =
     tryE (ext_call GCS (\<lambda>w. (Inr (), w\<lparr>bucket := (bucket w)(name := Some content)\<rparr>))) (\<lambda>_.
       ret (if public_base g \<noteq> [] then public_base g @ ''/'' @ bucket_name g @ ''/'' @ name
            else case sign_url g name of
              Some url \<Rightarrow> url
            | None \<Rightarrow> ''https://storage.googleapis.com/'' @ bucket_name g @ ''/'' @ name))"

definition delete_from_gcs :: "string \<Rightarrow> unit io" where
  "delete_from_gcs name = ext_call GCS (\<lambda>w.
     if bucket w name = None then (Inl ErrIO, w) else (Inr (), w\<lparr>bucket := (bucket w)(name := None)\<rparr>))"

section \<open>Creating a post\<close>

definition user_feed_cache_key :: "string \<Rightarrow> string" where
  "user_feed_cache_key u = ''user_feed:'' @ u"

definition fast_path_grace :: int where
  "fast_path_grace = 10000000"

definition publish_after_commit :: "relay \<Rightarrow> ctx \<Rightarrow> orec \<Rightarrow> unit io" where
  "publish_after_commit r c rec = handleE (publish_now pg_mark_published pg_mark_failed r c rec) (\<lambda>_. ret ()) ret"

definition ignore_err :: "'a io \<Rightarrow> unit io" where
  "ignore_err m = handleE m (\<lambda>_. ret ()) (\<lambda>_. ret ())"

definition new_row :: "post \<Rightarrow> post_row" where
  "new_row p = \<lparr>p_id = post_id p, p_user = post_user p, p_message = post_message p, p_url = post_url p,
     p_type = post_type p, p_at = post_at p, p_deleted_at = None, p_cleanup = CNone, p_attempts = 0, p_likes = 0,
     p_shares = 0, p_embedding = None, p_version = 1\<rparr>"

definition insert_post :: "post \<Rightarrow> unit io" where
  "insert_post p = ext_call PG (\<lambda>w.
     if list_ex (\<lambda>r. p_id r = post_id p) (t_posts (db w)) then (Inl UniqueViolation, w)
     else (Inr (), upd_posts (\<lambda>rows. rows @ [new_row p]) w))"

definition created_event :: "post \<Rightarrow> event" where
  "created_event p = PostCreated (post_id p) (post_user p) (post_message p) (post_url p) (post_type p) (post_at p)"

definition persist_new_post :: "relay \<Rightarrow> ctx \<Rightarrow> post \<Rightarrow> post io" where
  "persist_new_post r c p0 = Monad_Syntax.bind now (\<lambda>t.
     let p = p0\<lparr>post_at := unix t, post_deleted_at := None\<rparr>
     in handleE (in_tx (tryE (insert_post p) (\<lambda>_.
            enqueue ''post'' (post_id p) ''post.created'' (post_user p) (created_event p) (t + fast_path_grace))))
          (\<lambda>e. handleE (delete_from_gcs (post_id p)) (\<lambda>_. fail e) (\<lambda>_. fail e))
          (\<lambda>rec. tryE (ignore_err (redis_delete (user_feed_cache_key (post_user p)))) (\<lambda>_.
                 tryE (publish_after_commit r c rec) (\<lambda>_. ret p))))"

definition save_post :: "gcs \<Rightarrow> relay \<Rightarrow> ctx \<Rightarrow> post \<Rightarrow> string \<Rightarrow> post io" where
  "save_post g r c p0 file = Monad_Syntax.bind new_uuid (\<lambda>i.
     tryE (save_to_gcs g file i) (\<lambda>url. persist_new_post r c (p0\<lparr>post_id := i, post_url := url\<rparr>)))"

text \<open>The model that draws the image and the download are the functions \<open>draw\<close> and \<open>fetch\<close>.\<close>

definition blank_post :: post where
  "blank_post = \<lparr>post_id = [], post_user = [], post_message = [], post_url = [], post_type = [], post_likes = 0,
     post_shares = 0, post_at = 0, post_deleted_at = None\<rparr>"

definition generate_image_and_save_post :: "(string \<Rightarrow> string) \<Rightarrow> (string \<Rightarrow> string) \<Rightarrow> gcs \<Rightarrow> relay \<Rightarrow> ctx \<Rightarrow> string \<Rightarrow> string \<Rightarrow> post io" where
  "generate_image_and_save_post draw fetch g r c user prompt =
     tryE (ext_call OpenAI (\<lambda>w. (Inr (draw prompt), w))) (\<lambda>image_url.
     tryE (ext_call OpenAI (\<lambda>w. (Inr (fetch image_url), w))) (\<lambda>body.
     Monad_Syntax.bind new_uuid (\<lambda>i.
     tryE (save_to_gcs g body i) (\<lambda>url.
       persist_new_post r c (blank_post\<lparr>post_id := i, post_user := user, post_message := prompt, post_type := ''image'',
         post_url := url\<rparr>)))))"

section \<open>Deleting a post\<close>

definition select_for_delete :: "string \<Rightarrow> string io" where
  "select_for_delete i = ext_call PG (\<lambda>w.
     (case find_post i w of
        None \<Rightarrow> Inl ErrPostNotFound
      | Some r \<Rightarrow> if p_deleted_at r \<noteq> None then Inl ErrPostNotFound else Inr (p_user r), w))"

definition soft_delete :: "int \<Rightarrow> post_row \<Rightarrow> post_row" where
  "soft_delete t r = r\<lparr>p_deleted_at := Some t, p_cleanup := CPending, p_attempts := 0, p_version := p_version r + 1\<rparr>"

definition update_deleted :: "string \<Rightarrow> int \<Rightarrow> unit io" where
  "update_deleted i t = ext_call PG (\<lambda>w. (Inr (), upd_posts (update_where (\<lambda>r. p_id r = i) (soft_delete t)) w))"

definition delete_post :: "relay \<Rightarrow> ctx \<Rightarrow> string \<Rightarrow> string \<Rightarrow> bool io" where
  "delete_post r c i user =
     (if i = [] \<or> user = [] then ret False
      else tryE (in_tx (tryE (select_for_delete i) (\<lambda>owner.
             if owner \<noteq> user then fail ErrNotPostOwner
             else Monad_Syntax.bind now (\<lambda>t.
               tryE (update_deleted i t) (\<lambda>_.
                 enqueue ''post'' i ''post.deleted'' owner (PostDeleted i owner (unix t)) (t + fast_path_grace)))))) (\<lambda>rec.
           tryE (ignore_err (redis_delete (user_feed_cache_key user))) (\<lambda>_.
           tryE (publish_after_commit r c rec) (\<lambda>_. ret True))))"

text \<open>\<open>CleanupDeletedPosts\<close>: one transaction per post, around the call to the object store.\<close>

definition cleanup_candidates :: "world \<Rightarrow> post_row list" where
  "cleanup_candidates w = sort_key (\<lambda>r. case p_deleted_at r of None \<Rightarrow> 0 | Some t \<Rightarrow> t)
     (filter (\<lambda>r. p_cleanup r = CPending) (t_posts (db w)))"

definition claim_cleanup :: "(string \<times> int) option io" where
  "claim_cleanup = pg_query (\<lambda>w. case cleanup_candidates w of [] \<Rightarrow> None | r # _ \<Rightarrow> Some (p_id r, p_attempts r))"

definition mark_cleanup :: "string \<Rightarrow> (post_row \<Rightarrow> post_row) \<Rightarrow> unit io" where
  "mark_cleanup i f = ext_call PG (\<lambda>w. (Inr (), upd_posts (update_where (\<lambda>r. p_id r = i) f) w))"

definition cleanup_one :: "bool io" where
  "cleanup_one = in_tx (tryE claim_cleanup (\<lambda>found. case found of
       None \<Rightarrow> ret False
     | Some (i, attempts) \<Rightarrow>
         handleE (delete_from_gcs i)
           (\<lambda>_. tryE (mark_cleanup i (\<lambda>r. r\<lparr>p_cleanup := (if attempts + 1 \<ge> 5 then CFailed else CPending),
                                          p_attempts := p_attempts r + 1\<rparr>)) (\<lambda>_. ret True))
           (\<lambda>_. tryE (mark_cleanup i (\<lambda>r. r\<lparr>p_cleanup := CCompleted\<rparr>)) (\<lambda>_. ret True))))"

text \<open>The loop over \<open>done\<close>, at most \<open>left\<close> more times.\<close>

fun cleanup_loop :: "nat \<Rightarrow> int \<Rightarrow> (world, int \<times> err option) state" where
  "cleanup_loop 0 n = State_Monad.return (n, None)"
| "cleanup_loop (Suc left) n = Monad_Syntax.bind cleanup_one (\<lambda>r. case r of
       Inl e \<Rightarrow> State_Monad.return (n, Some e)
     | Inr got \<Rightarrow> if got then cleanup_loop left (n + 1) else State_Monad.return (n, None))"

definition cleanup_deleted_posts :: "int \<Rightarrow> (world, int \<times> err option) state" where
  "cleanup_deleted_posts limit = cleanup_loop (nat limit) 0"

section \<open>Likes and shares\<close>

definition upd_likes :: "(like_row list \<Rightarrow> like_row list) \<Rightarrow> world \<Rightarrow> world" where
  "upd_likes f = upd_db (\<lambda>d. d\<lparr>t_likes := f (t_likes d)\<rparr>)"

definition upd_shares :: "(share_row list \<Rightarrow> share_row list) \<Rightarrow> world \<Rightarrow> world" where
  "upd_shares f = upd_db (\<lambda>d. d\<lparr>t_shares := f (t_shares d)\<rparr>)"

definition is_like :: "string \<Rightarrow> string \<Rightarrow> like_row \<Rightarrow> bool" where
  "is_like i u l \<longleftrightarrow> l_post l = i \<and> l_user l = u"

definition insert_like :: "string \<Rightarrow> string \<Rightarrow> int io" where
  "insert_like i u = ext_call PG (\<lambda>w.
     if list_ex (is_like i u) (t_likes (db w)) then (Inr 0, w)
     else if find_post i w = None then (Inl ForeignKeyViolation, w)
     else (Inr 1, upd_likes (\<lambda>rows. rows @ [\<lparr>l_post = i, l_user = u, l_at = clock w\<rparr>]) w))"

definition like_post :: "relay \<Rightarrow> ctx \<Rightarrow> string \<Rightarrow> string \<Rightarrow> bool io" where
  "like_post r c i user =
     (if i = [] \<or> user = [] then ret False
      else tryE (in_tx (tryE (post_owner i) (\<lambda>owner.
             tryE (insert_like i user) (\<lambda>n.
               if n = 0 then fail ErrAlreadyLiked
               else Monad_Syntax.bind now (\<lambda>t.
                 enqueue ''post'' i ''post.liked'' i (PostLiked i user owner (unix t)) (t + fast_path_grace)))))) (\<lambda>rec.
           tryE (ignore_err (bump_counter i ''like_count'' 1)) (\<lambda>_.
           tryE (publish_after_commit r c rec) (\<lambda>_. ret True))))"

definition delete_like :: "string \<Rightarrow> string \<Rightarrow> int io" where
  "delete_like i u = ext_call PG (\<lambda>w. (Inr (int (count_where (is_like i u) (t_likes (db w)))),
     upd_likes (filter (\<lambda>l. \<not> is_like i u l)) w))"

definition unlike_post :: "string \<Rightarrow> string \<Rightarrow> unit io" where
  "unlike_post i user =
     tryE (delete_like i user) (\<lambda>n.
       if n = 0 then fail ErrNotLiked
       else ignore_err (bump_counter i ''like_count'' (- 1)))"

definition insert_share :: "string \<Rightarrow> string \<Rightarrow> string \<Rightarrow> string \<Rightarrow> int io" where
  "insert_share s i u platform = ext_call PG (\<lambda>w.
     if \<not> list_ex (\<lambda>r. p_id r = i \<and> live r) (t_posts (db w)) then (Inr 0, w)
     else if list_ex (\<lambda>x. s_id x = s) (t_shares (db w)) then (Inl UniqueViolation, w)
     else (Inr 1, upd_shares (\<lambda>rows. rows @ [\<lparr>s_id = s, s_post = i, s_user = u, s_platform = platform, s_at = clock w\<rparr>]) w))"

definition share_post :: "string \<Rightarrow> string \<Rightarrow> string \<Rightarrow> bool io" where
  "share_post i user platform =
     (if i = [] \<or> user = [] then ret False
      else Monad_Syntax.bind new_uuid (\<lambda>s.
        tryE (insert_share s i user platform) (\<lambda>n.
          if n = 0 then fail ErrPostNotFound
          else tryE (ignore_err (bump_counter i ''shared_count'' 1)) (\<lambda>_. ret True))))"

section \<open>Reads\<close>

definition post_key :: "post_row \<Rightarrow> cursor" where
  "post_key r = (p_at r, p_id r)"

definition user_posts_limit :: int where
  "user_posts_limit = 100"

definition load_user_posts :: "string \<Rightarrow> post list io" where
  "load_user_posts u = pg_query (\<lambda>w. map scan_post (select_desc post_key None user_posts_limit
     (filter (\<lambda>r. p_user r = u \<and> live r) (t_posts (db w)))))"

text \<open>\<open>SearchPostByUserId\<close> for one caller (the single flight of concurrent ones is \<open>Cache\<close>); JSON and
  the jitter of the TTL are arguments.\<close>

definition search_post_by_user_id :: "(post list \<Rightarrow> string) \<Rightarrow> (string \<Rightarrow> post list option) \<Rightarrow> int \<Rightarrow> string \<Rightarrow> post list io" where
  "search_post_by_user_id marshal unmarshal ttl u =
     (let key = user_feed_cache_key u;
          load = tryE (load_user_posts u) (\<lambda>posts.
            tryE (ignore_err (redis_set key (marshal posts) ttl)) (\<lambda>_. ret posts))
      in handleE (redis_get key) (\<lambda>_. load) (\<lambda>v. case v of
           None \<Rightarrow> load
         | Some raw \<Rightarrow> (case unmarshal raw of None \<Rightarrow> load | Some posts \<Rightarrow> ret posts)))"

definition recent_limit :: int where
  "recent_limit = 50"

text \<open>The ranking by Elasticsearch is an argument.\<close>

definition search_post_by_keywords :: "(world \<Rightarrow> string \<Rightarrow> int \<Rightarrow> string list) \<Rightarrow> string \<Rightarrow> post list io" where
  "search_post_by_keywords rank keywords =
     (if keywords = [] then pg_query (\<lambda>w. map scan_post (select_desc post_key None recent_limit (filter live (t_posts (db w)))))
      else tryE (ext_call Search (\<lambda>w. (Inr (rank w keywords recent_limit), w))) live_posts_by_id)"

definition semantic_search :: "(string \<Rightarrow> 'v) \<Rightarrow> (world \<Rightarrow> 'v \<Rightarrow> int \<Rightarrow> string list) \<Rightarrow> string \<Rightarrow> int \<Rightarrow> post list io" where
  "semantic_search vectorise nearest text k =
     tryE (ext_call OpenAI (\<lambda>w. (Inr (vectorise text), w))) (\<lambda>v.
     tryE (ext_call Search (\<lambda>w. (Inr (nearest w v k), w))) live_posts_by_id)"


section \<open>What the operations leave behind\<close>

text \<open>The facts a request may change: the posts without their counters, the likes, the shares and the
  events, in the order they were written.  The counters have their own accounts (\<open>PostStore\<close>), the
  status of an outbox row belongs to the relay (\<open>Outbox\<close>).\<close>

definition content_of :: "post_row \<Rightarrow> post_row" where
  "content_of r = r\<lparr>p_likes := 0, p_shares := 0\<rparr>"

type_synonym facts = "post_row list \<times> like_row list \<times> share_row list \<times> event list"

definition facts :: "world \<Rightarrow> facts" where
  "facts w = (map content_of (t_posts (db w)), t_likes (db w), t_shares (db w), map o_payload (t_outbox (db w)))"

lemma facts_cong: "db w' = db w \<Longrightarrow> facts w' = facts w"
  by (simp add: facts_def)

lemma facts_simps [simp]: "facts (after_call y w) = facts w" "facts (upd_db (\<lambda>_. db w) u) = facts w"
  "facts (put_str k x w) = facts w" "facts (put_set k xs w) = facts w" "facts (add_member k m w) = facts w"
  by (simp_all add: facts_def)

lemma facts_outbox: "(\<And>r. o_payload (f r) = o_payload r) \<Longrightarrow> facts (upd_outbox (update_where P f) w) = facts w"
  by (simp add: facts_def upd_outbox_def map_update_where)

definition quiet_step :: "world \<Rightarrow> 'r \<Rightarrow> world \<Rightarrow> bool" where
  "quiet_step w r w' \<longleftrightarrow> facts w' = facts w \<and> bucket w' = bucket w"

lemma quiet_step_trans: "quiet_step w r u \<Longrightarrow> quiet_step u q v \<Longrightarrow> quiet_step w p v"
  by (simp add: quiet_step_def)

lemma wp_ignore_err:
  assumes "wp m (quiet_step w) w"
  shows "wp (ignore_err m) (\<lambda>r w'. r = Inr () \<and> quiet_step w r w') w"
  unfolding ignore_err_def by (rule wp_handleI [OF assms]) (simp_all add: wp_ret quiet_step_def)

lemma bucket_upd [simp]: "bucket (upd_outbox f w) = bucket w" "bucket (upd_posts h w) = bucket w"
  by (simp_all add: upd_outbox_def upd_posts_def)

lemma quiet_publish: "wp (publish_after_commit r c rec) (\<lambda>x w'. x = Inr () \<and> quiet_step w x w') w"
proof -
  have mark: "wp (pg_mark_published i) (quiet_step u) u" "wp (pg_mark_failed i a n d) (quiet_step u) u" for i a n d u
    by (simp_all add: pg_mark_published_def pg_mark_failed_def wp_simps quiet_step_def facts_outbox split: outcome.split)
  have bus: "facts (u\<lparr>bus := b\<rparr>) = facts u" for u b by (simp add: facts_def)
  have pub: "wp (publish t k e) (quiet_step w) w" for t k e
    by (simp add: publish_def wp_simps quiet_step_def bus split: outcome.split)
  have rf: "wp (relay_fail pg_mark_failed r rec) (quiet_step w) u" if "quiet_step w () u" for u
    unfolding relay_fail_def Let_def wp_bind wp_now
    by (rule wp_tryI [OF mark(2)]) (use that in \<open>auto simp: wp_ret quiet_step_def\<close>)
  have "wp (publish_now pg_mark_published pg_mark_failed r c rec) (quiet_step w) w"
    unfolding publish_now_def
    by (rule wp_handleI [OF pub])
      (use rf in \<open>auto simp: wp_bind wp_ctx_err wp_ret quiet_step_def intro!: wp_mono [OF mark(1)]\<close>)
  then show ?thesis unfolding publish_after_commit_def by (rule wp_handleI) (simp_all add: wp_ret quiet_step_def)
qed

lemma quiet_redis_delete: "wp (redis_delete k) (quiet_step w) w"
  by (simp add: wp_simps quiet_step_def put_str_def facts_def split: outcome.split)

lemma facts_add_column: "facts (upd_posts (update_where P (add_column f n)) w) = facts w"
proof -
  have "content_of (add_column f n r) = content_of r" for r by (simp add: content_of_def add_column_def)
  then have "map content_of (update_where P (add_column f n) rows) = map content_of rows" for rows
    by (simp add: map_update_where)
  then show ?thesis by (simp add: facts_def upd_posts_def)
qed

lemma quiet_bump: "wp (bump_counter i f n) (quiet_step w) w"
proof -
  have incrby: "wp (redis_incr_by k m) (quiet_step u) u" for k m u
    by (auto simp: wp_simps incr_str_def quiet_step_def split: outcome.split option.split)
  have sadd: "wp (redis_sadd k m) (quiet_step u) u" for k m u
    by (simp add: wp_simps quiet_step_def add_member_def split: outcome.split)
  have sink: "wp (pg_sink_add i f n) (quiet_step u) u" for u
    by (auto simp: pg_sink_add_def wp_ret wp_ext_call quiet_step_def facts_add_column split: outcome.split)
  have "wp (incr [] i f n) (quiet_step w) w"
    unfolding incr_def
    by (rule wp_handleI [OF incrby], rule wp_handleI [OF sadd])
      (auto simp: wp_ret quiet_step_def intro!: wp_handleI [OF incrby])
  then show ?thesis unfolding bump_counter_def
    by (rule wp_handleI) (auto simp: wp_ret quiet_step_def intro: wp_mono [OF sink])
qed


section \<open>A post and its event\<close>

definition with_post :: "post \<Rightarrow> facts \<Rightarrow> facts" where
  "with_post p = (\<lambda>(posts, likes, shares, evs). (posts @ [new_row p], likes, shares, evs @ [created_event p]))"

lemma facts_enqueue: "facts (upd_outbox (\<lambda>rows. rows @ [row]) (w\<lparr>oseq := n\<rparr>)) =
    (case facts w of (posts, likes, shares, evs) \<Rightarrow> (posts, likes, shares, evs @ [o_payload row]))"
  by (simp add: facts_def upd_outbox_def)

lemma outcomes_subset_call: "outcomes u y \<subseteq> S \<Longrightarrow> outcomes (after_call z u) y \<subseteq> S"
  using outcomes_after_call by blast

lemma outcomes_upd [simp]: "outcomes (upd_outbox f u) y = outcomes u y" "outcomes (upd_posts g u) y = outcomes u y"
  "outcomes (u\<lparr>oseq := n\<rparr>) y = outcomes u y"
  by (simp_all add: upd_outbox_def upd_posts_def outcomes_def)

lemma outs_upd [simp]: "outs (upd_outbox f u) = outs u" "outs (upd_posts g u) = outs u"
  by (simp_all add: upd_outbox_def upd_posts_def)

text \<open>What an enqueue at the end of a transaction adds.\<close>

lemma wp_enqueue:
  "wp (enqueue ty agg topic key payload nb) (\<lambda>r u. bucket u = bucket w \<and> (\<forall>y. y \<noteq> PG \<longrightarrow> outs u y = outs w y) \<and>
      outcomes u PG \<subseteq> outcomes w PG \<and> (\<forall>x. r = Inr x \<longrightarrow> facts u =
        (case facts w of (posts, likes, shares, evs) \<Rightarrow> (posts, likes, shares, evs @ [payload])))) w"
  using outcomes_after_call [of PG w PG]
  by (auto simp: enqueue_def wp_ext_call Let_def facts_enqueue split: outcome.split prod.split)

lemma persist_new_post_facts:
  assumes "run_state (persist_new_post r c p0) w = (res, w')"
  defines "p \<equiv> p0\<lparr>post_at := unix (clock w), post_deleted_at := None\<rparr>"
  shows "(facts w' = facts w \<or> facts w' = with_post p (facts w)) \<and>
    (\<forall>q. res = Inr q \<longrightarrow> q = p \<and> facts w' = with_post p (facts w) \<and> bucket w' = bucket w) \<and>
    (isl res \<and> no_lost PG w \<longrightarrow> facts w' = facts w \<and> (reliable GCS w \<longrightarrow> bucket w' (post_id p) = None))"
proof -
  let ?F = "\<lambda>u. bucket u = bucket w \<and> outs u GCS = outs w GCS"
  let ?body = "tryE (insert_post p) (\<lambda>_.
    enqueue ''post'' (post_id p) ''post.created'' (post_user p) (created_event p) (clock w + fast_path_grace))"
  have row: "facts (upd_posts (\<lambda>rows. rows @ [new_row p]) u) = (case facts u of (posts, likes, shares, evs) \<Rightarrow>
      (posts @ [new_row p], likes, shares, evs))" for u
    by (simp add: facts_def upd_posts_def content_of_def new_row_def)
  have body: "wp ?body (\<lambda>x u. ?F u \<and> outcomes u PG \<subseteq> outcomes w PG \<and> (\<forall>y. x = Inr y \<longrightarrow> facts u = with_post p (facts w))) (after_call PG w)"
  proof -
    have ins: "wp (insert_post p) (\<lambda>x u. ?F u \<and> outcomes u PG \<subseteq> outcomes w PG \<and>
        (x = Inr () \<longrightarrow> facts u = (case facts w of (posts, likes, shares, evs) \<Rightarrow> (posts @ [new_row p], likes, shares, evs)))) (after_call PG w)"
      by (auto simp: insert_post_def wp_ext_call row outcomes_subset_call split: outcome.split)
    show ?thesis
      by (rule wp_tryI [OF ins]) (auto simp: with_post_def split: prod.splits intro!: wp_mono [OF wp_enqueue])
  qed
  have tx: "wp (in_tx ?body) (\<lambda>x u. ?F u \<and> (case x of Inr y \<Rightarrow> facts u = with_post p (facts w)
      | Inl e \<Rightarrow> db u = db w \<or> (Lost \<in> outcomes w PG \<and> (\<exists>y :: orec. facts u = with_post p (facts w))))) w"
    by (rule wp_in_tx_cases [where P = "\<lambda>y u. facts u = with_post p (facts w)", OF body]) simp_all
  have del: "wp (delete_from_gcs (post_id p)) (\<lambda>_ v. db v = db u \<and> (reliable GCS u \<longrightarrow> bucket v (post_id p) = None)) u" for u
    by (auto simp: delete_from_gcs_def wp_ext_call reliable_next split: outcome.split)
  have "wp (persist_new_post r c p0) (\<lambda>res w'. (facts w' = facts w \<or> facts w' = with_post p (facts w)) \<and>
    (\<forall>q. res = Inr q \<longrightarrow> q = p \<and> facts w' = with_post p (facts w) \<and> bucket w' = bucket w) \<and>
    (isl res \<and> no_lost PG w \<longrightarrow> facts w' = facts w \<and> (reliable GCS w \<longrightarrow> bucket w' (post_id p) = None))) w"
    (is "wp _ ?Q w")
    unfolding persist_new_post_def wp_bind wp_now Let_def p_def [symmetric]
  proof (rule wp_handleI [OF tx], goal_cases)
    case (1 rec u)
    then have u: "facts u = with_post p (facts w)" "bucket u = bucket w" by simp_all
    show ?case
    proof (rule wp_tryI [OF wp_ignore_err [OF quiet_redis_delete]], goal_cases)
      case (1 x v)
      show ?case
        by (rule wp_tryI [OF quiet_publish]) (use 1 u in \<open>auto simp: wp_ret quiet_step_def\<close>)
    qed simp
  next
    case (2 e u)
    have gcs: "outcomes u GCS = outcomes w GCS" using 2 by (simp add: outcomes_def)
    have u: "facts u = facts w \<or> Lost \<in> outcomes w PG \<and> facts u = with_post p (facts w)"
      using 2 by (auto dest: facts_cong)
    have fin: "?Q (Inl e) v" if "db v = db u \<and> (reliable GCS u \<longrightarrow> bucket v (post_id p) = None)" for v
    proof -
      have "facts v = facts u" using that by (intro facts_cong) simp
      then show ?thesis using u that gcs by auto
    qed
    show ?case by (rule wp_handleI [OF del]; unfold wp_ret; rule fin)
  qed
  from wp_run [OF this assms(1)] show ?thesis .
qed

text \<open>C19. Creating a post writes the row and its post.created event together or neither; success means both
  are there and the media was not touched; after an error without a lost reply nothing is stored
  and the media is removed.\<close>

theorem persist_new_post_atomic:
  assumes "run_state (persist_new_post r c p0) w = (res, w')"
  defines "p \<equiv> p0\<lparr>post_at := unix (clock w), post_deleted_at := None\<rparr>"
  shows "(facts w' = facts w \<or> facts w' = with_post p (facts w)) \<and>
    (\<forall>q. res = Inr q \<longrightarrow> q = p \<and> facts w' = with_post p (facts w) \<and> bucket w' = bucket w) \<and>
    (isl res \<and> no_lost PG w \<longrightarrow> facts w' = facts w \<and> (reliable GCS w \<longrightarrow> bucket w' (post_id p) = None))"
  unfolding p_def by (rule persist_new_post_facts [OF assms(1)])


text \<open>A world in which the reply to the fourth database call, the commit, is lost.\<close>

definition demo_post :: post where
  "demo_post = blank_post\<lparr>post_id := ''p1'', post_user := ''ann'', post_url := ''u''\<rparr>"

definition commit_lost_world :: world where
  "commit_lost_world = quiet_world\<lparr>bucket := (\<lambda>_. None)(''p1'' := Some ''image''),
     outs := (\<lambda>_. sconst (Done, 0))(PG := [(Done, 0), (Done, 0), (Done, 0), (Lost, 0)] @- sconst (Done, 0))\<rparr>"

text \<open>C23. The compensation removes too much when only the reply to the commit was lost: the request
  fails, but the post is stored, live, and its media is deleted.\<close>

theorem lost_commit_loses_media:
  "case run_state (persist_new_post rl c demo_post) commit_lost_world of (res, w') \<Rightarrow>
     res = Inl ErrIO \<and> bucket commit_lost_world ''p1'' = Some ''image'' \<and> bucket w' ''p1'' = None \<and>
     (\<exists>r\<in>set (t_posts (db w')). p_id r = ''p1'' \<and> live r)"
proof -
  let ?o = "outs commit_lost_world"
  have o: "outs commit_lost_world = (\<lambda>_. sconst (Done, 0))(PG := [(Done, 0), (Done, 0), (Done, 0), (Lost, 0)] @- sconst (Done, 0))"
    and d: "t_posts (db commit_lost_world) = []" and b: "bucket commit_lost_world ''p1'' = Some ''image''"
    and c: "clock commit_lost_world = 0"
    by (simp_all add: commit_lost_world_def quiet_world_def empty_db_def)
  show ?thesis
    by (simp add: persist_new_post_def run_bind now_def Let_def run_handleE in_tx_def run_tryE ext_call_def next_out_def o
        insert_post_def enqueue_def d demo_post_def blank_post_def delete_from_gcs_def b c new_row_def live_def upd_outbox_def)
qed


section \<open>Deletes and likes\<close>

definition without_post :: "string \<Rightarrow> string \<Rightarrow> int \<Rightarrow> facts \<Rightarrow> facts" where
  "without_post i owner t = (\<lambda>(posts, likes, shares, evs).
     (update_where (\<lambda>r. p_id r = i) (soft_delete t) posts, likes, shares, evs @ [PostDeleted i owner (unix t)]))"

definition with_like :: "string \<Rightarrow> string \<Rightarrow> string \<Rightarrow> int \<Rightarrow> int \<Rightarrow> facts \<Rightarrow> facts" where
  "with_like i user owner t1 t2 = (\<lambda>(posts, likes, shares, evs).
     (posts, likes @ [\<lparr>l_post = i, l_user = user, l_at = t1\<rparr>], shares, evs @ [PostLiked i user owner (unix t2)]))"

lemma facts_soft_delete: "facts (upd_posts (update_where (\<lambda>r. p_id r = i) (soft_delete t)) w) =
    (case facts w of (posts, likes, shares, evs) \<Rightarrow> (update_where (\<lambda>r. p_id r = i) (soft_delete t) posts, likes, shares, evs))"
proof -
  have "map content_of (update_where (\<lambda>r. p_id r = i) (soft_delete t) rows) =
      update_where (\<lambda>r. p_id r = i) (soft_delete t) (map content_of rows)" for rows
    by (induction rows) (simp_all add: update_where_def content_of_def soft_delete_def)
  then show ?thesis by (simp add: facts_def upd_posts_def)
qed

text \<open>The part after a committed transaction: cache, counter and fast path change no fact.\<close>

lemma wp_after_commit:
  assumes "quiet_step w () u" "wp m (quiet_step u) u"
  shows "wp (tryE (ignore_err m) (\<lambda>_. tryE (publish_after_commit r c rec) (\<lambda>_. ret x)))
    (\<lambda>q v. q = Inr x \<and> facts v = facts w \<and> bucket v = bucket w) u"
  by (rule wp_tryI [OF wp_ignore_err [OF assms(2)]], rule wp_tryI [OF quiet_publish])
    (use assms(1) in \<open>auto simp: wp_ret quiet_step_def\<close>)

text \<open>C20. Only the author's own live post is ever deleted; the row is marked and post.deleted recorded
  together or not at all, and a second delete finds no post.\<close>

theorem delete_post_atomic:
  assumes "i \<noteq> []" "user \<noteq> []" "run_state (delete_post rl c i user) w = (res, w')"
  shows "(facts w' = facts w \<or>
      (\<exists>t. facts w' = without_post i user t (facts w)) \<and> (\<exists>r. find_post i w = Some r \<and> live r \<and> p_user r = user)) \<and>
    (res = Inr True \<longrightarrow> (\<exists>t. facts w' = without_post i user t (facts w))) \<and> res \<noteq> Inr False \<and>
    (no_lost PG w \<and> isl res \<longrightarrow> facts w' = facts w)"
proof -
  let ?ok = "\<lambda>u. (\<exists>t. facts u = without_post i user t (facts w)) \<and> (\<exists>r. find_post i w = Some r \<and> live r \<and> p_user r = user)"
  let ?body = "tryE (select_for_delete i) (\<lambda>owner.
             if owner \<noteq> user then fail ErrNotPostOwner
             else Monad_Syntax.bind now (\<lambda>t.
               tryE (update_deleted i t) (\<lambda>_.
                 enqueue ''post'' i ''post.deleted'' owner (PostDeleted i owner (unix t)) (t + fast_path_grace))))"
  have body: "wp ?body (\<lambda>x u. True \<and> outcomes u PG \<subseteq> outcomes w PG \<and> (\<forall>y. x = Inr y \<longrightarrow> ?ok u)) (after_call PG w)"
  proof -
    have sel: "wp (select_for_delete i) (\<lambda>x u. facts u = facts w \<and> outcomes u PG \<subseteq> outcomes w PG \<and>
        (\<forall>o1. x = Inr o1 \<longrightarrow> (\<exists>r. find_post i w = Some r \<and> live r \<and> p_user r = o1))) (after_call PG w)"
      by (auto simp: select_for_delete_def wp_ext_call outcomes_subset_call find_post_def live_def split: outcome.split option.splits)
    have upd: "wp (update_deleted i t) (\<lambda>x v. outcomes v PG \<subseteq> outcomes w PG \<and> (x = Inr () \<longrightarrow> facts v =
        (case facts w of (posts, likes, shares, evs) \<Rightarrow> (update_where (\<lambda>r. p_id r = i) (soft_delete t) posts, likes, shares, evs)))) u"
      if "facts u = facts w" "outcomes u PG \<subseteq> outcomes w PG" for t u
      using that by (auto simp: update_deleted_def wp_ext_call outcomes_subset_call facts_soft_delete split: outcome.split)
    show ?thesis
    proof (rule wp_tryI [OF sel], goal_cases)
      case (1 owner u)
      show ?case
      proof (cases "owner = user")
        case True
        have "wp (tryE (update_deleted i t) (\<lambda>_. enqueue ''post'' i ''post.deleted'' owner (PostDeleted i owner (unix t)) nb))
          (\<lambda>x u. True \<and> outcomes u PG \<subseteq> outcomes w PG \<and> (\<forall>y. x = Inr y \<longrightarrow> ?ok u)) u" for t nb
        proof (rule wp_tryI [OF upd], goal_cases)
          case (3 x v)
          then show ?case using 1 True
            by (intro wp_mono [OF wp_enqueue]) (auto simp: without_post_def split: prod.splits)
        qed (use 1 in simp_all)
        then show ?thesis using True by (simp add: wp_bind wp_now)
      qed (use 1 in \<open>simp add: wp_ret\<close>)
    qed simp
  qed
  have tx: "wp (in_tx ?body) (\<lambda>x u. True \<and> (case x of Inr y \<Rightarrow> ?ok u
      | Inl e \<Rightarrow> db u = db w \<or> (Lost \<in> outcomes w PG \<and> (\<exists>y :: orec. ?ok u)))) w"
    by (rule wp_in_tx_cases [where P = "\<lambda>y u. ?ok u" and F = "\<lambda>_. True", OF body]) simp_all
  have "wp (delete_post rl c i user) (\<lambda>res w'. (facts w' = facts w \<or> ?ok w') \<and>
    (res = Inr True \<longrightarrow> (\<exists>t. facts w' = without_post i user t (facts w))) \<and> res \<noteq> Inr False \<and>
    (no_lost PG w \<and> isl res \<longrightarrow> facts w' = facts w)) w"
  proof -
    have eq: "delete_post rl c i user = tryE (in_tx ?body) (\<lambda>rec.
        tryE (ignore_err (redis_delete (user_feed_cache_key user))) (\<lambda>_.
        tryE (publish_after_commit rl c rec) (\<lambda>_. ret True)))"
      using assms(1,2) by (simp add: delete_post_def)
    show ?thesis unfolding eq
    proof (rule wp_tryI [OF tx], goal_cases)
      case (1 rec u)
      have "quiet_step u () u" by (simp add: quiet_step_def)
      from wp_after_commit [OF this quiet_redis_delete] show ?case
        by (rule wp_mono) (use 1 in auto)
    next
      case (2 e u)
      then show ?case by (auto dest: facts_cong)
    qed
  qed
  from wp_run [OF this assms(3)] show ?thesis .
qed


text \<open>C21. A like and its event are stored together or not at all, only for a live post the user has not
  liked yet; so nobody ever likes a post twice, however often or concurrently the request is sent.\<close>

theorem like_post_atomic:
  assumes "i \<noteq> []" "user \<noteq> []" "run_state (like_post rl c i user) w = (res, w')"
    and "distinct (map (\<lambda>l. (l_post l, l_user l)) (t_likes (db w)))"
  shows "(facts w' = facts w \<or> (\<exists>owner t1 t2. facts w' = with_like i user owner t1 t2 (facts w) \<and>
        (\<exists>r\<in>set (t_posts (db w)). p_id r = i \<and> live r \<and> p_user r = owner))) \<and>
    (res = Inr True \<longrightarrow> (\<exists>owner t1 t2. facts w' = with_like i user owner t1 t2 (facts w))) \<and> res \<noteq> Inr False \<and>
    (no_lost PG w \<and> isl res \<longrightarrow> facts w' = facts w) \<and>
    distinct (map (\<lambda>l. (l_post l, l_user l)) (t_likes (db w')))"
proof -
  let ?fresh = "\<not> list_ex (is_like i user) (t_likes (db w))"
  let ?ok = "\<lambda>u. ?fresh \<and> (\<exists>owner t1 t2. facts u = with_like i user owner t1 t2 (facts w) \<and>
        (\<exists>r\<in>set (t_posts (db w)). p_id r = i \<and> live r \<and> p_user r = owner))"
  let ?body = "tryE (post_owner i) (\<lambda>owner.
             tryE (insert_like i user) (\<lambda>n.
               if n = 0 then fail ErrAlreadyLiked
               else Monad_Syntax.bind now (\<lambda>t.
                 enqueue ''post'' i ''post.liked'' i (PostLiked i user owner (unix t)) (t + fast_path_grace))))"
  have body: "wp ?body (\<lambda>x u. True \<and> outcomes u PG \<subseteq> outcomes w PG \<and> (\<forall>y. x = Inr y \<longrightarrow> ?ok u)) (after_call PG w)"
  proof -
    have own: "wp (post_owner i) (\<lambda>x u. db u = db w \<and> outcomes u PG \<subseteq> outcomes w PG \<and>
        (\<forall>o1. x = Inr o1 \<longrightarrow> (\<exists>r\<in>set (t_posts (db w)). p_id r = i \<and> live r \<and> p_user r = o1))) (after_call PG w)"
      by (auto simp: post_owner_def wp_ext_call outcomes_subset_call split: outcome.split option.splits dest: find_in_set)
    have ins: "wp (insert_like i user) (\<lambda>x v. outcomes v PG \<subseteq> outcomes w PG \<and> (\<forall>n. x = Inr n \<and> n \<noteq> 0 \<longrightarrow> ?fresh \<and> (\<exists>t1. facts v =
        (case facts w of (posts, likes, shares, evs) \<Rightarrow> (posts, likes @ [\<lparr>l_post = i, l_user = user, l_at = t1\<rparr>], shares, evs))))) u"
      if "db u = db w" "outcomes u PG \<subseteq> outcomes w PG" for u
      using that by (auto simp: insert_like_def wp_ext_call outcomes_subset_call facts_def upd_likes_def split: outcome.split)
    show ?thesis
    proof (rule wp_tryI [OF own], goal_cases)
      case (1 owner u)
      show ?case
      proof (rule wp_tryI [OF ins], goal_cases)
        case (3 n v)
        show ?case
        proof (cases "n = 0")
          case False
          then show ?thesis using 1 3
            by (auto simp: wp_bind wp_now intro!: wp_mono [OF wp_enqueue])
              (fastforce simp: with_like_def split: prod.splits)
        qed (use 3 in \<open>simp add: wp_ret\<close>)
      qed (use 1 in simp_all)
    qed simp
  qed
  have tx: "wp (in_tx ?body) (\<lambda>x u. True \<and> (case x of Inr y \<Rightarrow> ?ok u
      | Inl e \<Rightarrow> db u = db w \<or> (Lost \<in> outcomes w PG \<and> (\<exists>y :: orec. ?ok u)))) w"
    by (rule wp_in_tx_cases [where P = "\<lambda>y u. ?ok u" and F = "\<lambda>_. True", OF body]) simp_all
  have "wp (like_post rl c i user) (\<lambda>res w'. (facts w' = facts w \<or> ?ok w') \<and>
    (res = Inr True \<longrightarrow> ?ok w') \<and> res \<noteq> Inr False \<and> (no_lost PG w \<and> isl res \<longrightarrow> facts w' = facts w)) w"
  proof -
    have eq: "like_post rl c i user = tryE (in_tx ?body) (\<lambda>rec.
        tryE (ignore_err (bump_counter i ''like_count'' 1)) (\<lambda>_.
        tryE (publish_after_commit rl c rec) (\<lambda>_. ret True)))"
      using assms(1,2) by (simp add: like_post_def)
    show ?thesis unfolding eq
    proof (rule wp_tryI [OF tx], goal_cases)
      case (1 rec u)
      have "quiet_step u () u" by (simp add: quiet_step_def)
      from wp_after_commit [OF this quiet_bump] show ?case
        by (rule wp_mono) (use 1 in auto)
    next
      case (2 e u)
      then show ?case by (auto dest: facts_cong)
    qed
  qed
  from wp_run [OF this assms(3)] have R: "(facts w' = facts w \<or> ?ok w') \<and>
    (res = Inr True \<longrightarrow> ?ok w') \<and> res \<noteq> Inr False \<and> (no_lost PG w \<and> isl res \<longrightarrow> facts w' = facts w)" .
  have "distinct (map (\<lambda>l. (l_post l, l_user l)) (t_likes (db w')))"
    using conjunct1 [OF R]
  proof (rule disjE)
    assume "facts w' = facts w"
    then show ?thesis using assms(4) by (simp add: facts_def)
  next
    assume "?ok w'"
    then have "t_likes (db w') \<in> (\<lambda>t. t_likes (db w) @ [\<lparr>l_post = i, l_user = user, l_at = t\<rparr>]) ` UNIV"
      "(i, user) \<notin> (\<lambda>l. (l_post l, l_user l)) ` set (t_likes (db w))"
      by (auto simp: facts_def with_like_def list_ex_iff is_like_def image_iff)
    then show ?thesis using assms(4) by auto
  qed
  then show ?thesis using R by blast
qed


text \<open>An unlike removes the caller's like and nothing else, a share adds one row for a live post and
  nothing else, whatever happens to the counters; without a lost reply an error changes nothing.\<close>

theorem unlike_and_share_rows:
  assumes "run_state (unlike_post i user) w = (r, w1)" "run_state (share_post j sharer platform) w = (q, w2)"
  shows "t_likes (db w1) \<in> {t_likes (db w), filter (\<lambda>l. \<not> is_like i user l) (t_likes (db w))} \<and>
    t_shares (db w1) = t_shares (db w) \<and>
    (r = Inr () \<longrightarrow> list_ex (is_like i user) (t_likes (db w)) \<and>
       t_likes (db w1) = filter (\<lambda>l. \<not> is_like i user l) (t_likes (db w))) \<and>
    (no_lost PG w \<and> isl r \<longrightarrow> t_likes (db w1) = t_likes (db w)) \<and>
    t_likes (db w2) = t_likes (db w) \<and>
    (t_shares (db w2) = t_shares (db w) \<or> list_ex (\<lambda>r. p_id r = j \<and> live r) (t_posts (db w)) \<and>
       (\<exists>s t. t_shares (db w2) = t_shares (db w) @ [\<lparr>s_id = s, s_post = j, s_user = sharer, s_platform = platform, s_at = t\<rparr>])) \<and>
    (q = Inr True \<longrightarrow> length (t_shares (db w2)) = Suc (length (t_shares (db w)))) \<and>
    (no_lost PG w \<and> isl q \<longrightarrow> t_shares (db w2) = t_shares (db w))"
proof -
  have upd: "t_likes (db (upd_likes f u)) = f (t_likes (db u))" "t_shares (db (upd_likes f u)) = t_shares (db u)"
    "t_likes (db (upd_shares g u)) = t_likes (db u)" "t_shares (db (upd_shares g u)) = g (t_shares (db u))" for f g u
    by (simp_all add: upd_likes_def upd_shares_def)
  have rows: "t_likes (db v) = t_likes (db u) \<and> t_shares (db v) = t_shares (db u)" if "quiet_step u x v" for u v and x :: "err + unit"
    using that by (simp add: quiet_step_def facts_def)
  have nl: "no_lost PG w \<Longrightarrow> next_out PG w \<noteq> Lost" by (rule no_lost_next)
  have "wp (unlike_post i user) (\<lambda>r w1. t_likes (db w1) \<in> {t_likes (db w), filter (\<lambda>l. \<not> is_like i user l) (t_likes (db w))} \<and>
    t_shares (db w1) = t_shares (db w) \<and>
    (r = Inr () \<longrightarrow> list_ex (is_like i user) (t_likes (db w)) \<and>
       t_likes (db w1) = filter (\<lambda>l. \<not> is_like i user l) (t_likes (db w))) \<and>
    (no_lost PG w \<and> isl r \<longrightarrow> t_likes (db w1) = t_likes (db w))) w"
  proof -
    have del: "wp (delete_like i user) (\<lambda>x u. t_shares (db u) = t_shares (db w) \<and>
        t_likes (db u) \<in> {t_likes (db w), filter (\<lambda>l. \<not> is_like i user l) (t_likes (db w))} \<and>
        (\<forall>n. x = Inr n \<longrightarrow> n = int (count_where (is_like i user) (t_likes (db w))) \<and>
           t_likes (db u) = filter (\<lambda>l. \<not> is_like i user l) (t_likes (db w))) \<and>
        (no_lost PG w \<and> isl x \<longrightarrow> t_likes (db u) = t_likes (db w))) w"
      using nl by (auto simp: delete_like_def wp_ext_call upd split: outcome.split)
    have none: "filter (\<lambda>l. \<not> is_like i user l) (t_likes (db w)) = t_likes (db w)"
      "\<not> list_ex (is_like i user) (t_likes (db w))" if "count_where (is_like i user) (t_likes (db w)) = 0"
      using that by (auto simp: count_where_def filter_empty_conv filter_id_conv list_ex_iff)
    have some: "list_ex (is_like i user) (t_likes (db w))" if "count_where (is_like i user) (t_likes (db w)) \<noteq> 0"
      using that by (auto simp: count_where_def filter_empty_conv list_ex_iff)
    show ?thesis unfolding unlike_post_def
    proof (rule wp_tryI [OF del], goal_cases)
      case (1 n u)
      show ?case
      proof (cases "n = 0")
        case True
        then show ?thesis using 1 none by (simp add: wp_ret)
      next
        case False
        then have n: "count_where (is_like i user) (t_likes (db w)) \<noteq> 0" using 1 by auto
        have "wp (ignore_err (bump_counter i ''like_count'' (- 1))) (\<lambda>r v. r = Inr () \<and> quiet_step u r v) u"
          by (rule wp_ignore_err [OF quiet_bump])
        then show ?thesis using False 1 some [OF n] by (auto elim!: wp_mono dest!: rows)
      qed
    qed simp
  qed
  moreover have "wp (share_post j sharer platform) (\<lambda>q w2. t_likes (db w2) = t_likes (db w) \<and>
    (t_shares (db w2) = t_shares (db w) \<or> list_ex (\<lambda>r. p_id r = j \<and> live r) (t_posts (db w)) \<and>
       (\<exists>s t. t_shares (db w2) = t_shares (db w) @ [\<lparr>s_id = s, s_post = j, s_user = sharer, s_platform = platform, s_at = t\<rparr>])) \<and>
    (q = Inr True \<longrightarrow> length (t_shares (db w2)) = Suc (length (t_shares (db w)))) \<and>
    (no_lost PG w \<and> isl q \<longrightarrow> t_shares (db w2) = t_shares (db w))) w" (is "wp _ ?Q w")
  proof (cases "j = [] \<or> sharer = []")
    case True
    then show ?thesis by (simp add: share_post_def wp_ret)
  next
    case False
    let ?w = "w\<lparr>uuids := stl (uuids w)\<rparr>"
    have nl': "no_lost PG w \<Longrightarrow> next_out PG ?w \<noteq> Lost" using nl by (simp add: next_out_def)
    have ins: "wp (insert_share s j sharer platform) (\<lambda>x u. t_likes (db u) = t_likes (db w) \<and>
        (t_shares (db u) = t_shares (db w) \<or> list_ex (\<lambda>r. p_id r = j \<and> live r) (t_posts (db w)) \<and>
          (\<exists>s t. t_shares (db u) = t_shares (db w) @ [\<lparr>s_id = s, s_post = j, s_user = sharer, s_platform = platform, s_at = t\<rparr>])) \<and>
        (\<forall>n. x = Inr n \<and> n \<noteq> 0 \<longrightarrow> length (t_shares (db u)) = Suc (length (t_shares (db w)))) \<and>
        (no_lost PG w \<and> isl x \<longrightarrow> t_shares (db u) = t_shares (db w)) \<and>
        (x = Inr 0 \<longrightarrow> t_shares (db u) = t_shares (db w))) ?w" for s
      using nl' by (auto simp: insert_share_def wp_ext_call upd split: outcome.split)
    have "wp (tryE (insert_share s j sharer platform) (\<lambda>n.
          if n = 0 then fail ErrPostNotFound
          else tryE (ignore_err (bump_counter j ''shared_count'' 1)) (\<lambda>_. ret True))) ?Q ?w" for s
    proof (rule wp_tryI [OF ins], goal_cases)
      case (1 n u)
      show ?case
      proof (cases "n = 0")
        case True
        then show ?thesis using 1 by (simp add: wp_ret)
      next
        case False
        have "wp (tryE (ignore_err (bump_counter j ''shared_count'' 1)) (\<lambda>_. ret True)) ?Q u"
          by (rule wp_tryI [OF wp_ignore_err [OF quiet_bump]]) (use False 1 in \<open>auto simp: wp_ret dest!: rows\<close>)
        then show ?thesis using False by simp
      qed
    qed auto
    then show ?thesis using False by (simp add: share_post_def wp_bind wp_new_uuid)
  qed
  ultimately show ?thesis using wp_run [OF _ assms(1)] wp_run [OF _ assms(2)] by blast
qed


section \<open>Cleanup of deleted posts\<close>

text \<open>What cleanup may do to one row while the bucket goes from \<open>b\<close> to \<open>b'\<close>.\<close>

definition frozen :: "post_row \<Rightarrow> post_row" where
  "frozen r = r\<lparr>p_cleanup := CNone, p_attempts := 0\<rparr>"

definition cleaned_row :: "(string \<Rightarrow> string option) \<Rightarrow> (string \<Rightarrow> string option) \<Rightarrow> post_row \<Rightarrow> post_row \<Rightarrow> bool" where
  "cleaned_row b b' r r' \<longleftrightarrow> frozen r' = frozen r \<and>
     (p_cleanup r \<noteq> CPending \<longrightarrow> r' = r) \<and>
     (p_cleanup r = CPending \<longrightarrow> p_cleanup r' \<noteq> CNone \<and>
        (p_cleanup r' = CCompleted \<longrightarrow> b (p_id r) \<noteq> None \<and> b' (p_id r) = None) \<and>
        (p_cleanup r' = CPending \<longrightarrow> p_attempts r' < 5) \<and> (p_cleanup r' = CFailed \<longrightarrow> p_attempts r' = 5))"

definition pending_ok :: "world \<Rightarrow> bool" where
  "pending_ok w \<longleftrightarrow> distinct (map p_id (t_posts (db w))) \<and>
     (\<forall>r\<in>set (t_posts (db w)). p_cleanup r = CPending \<longrightarrow> p_deleted_at r \<noteq> None \<and> p_attempts r < 5)"

definition cleaned :: "world \<Rightarrow> world \<Rightarrow> bool" where
  "cleaned w u \<longleftrightarrow> (\<forall>n. bucket u n = bucket w n \<or> bucket u n = None) \<and>
     list_all2 (cleaned_row (bucket w) (bucket u)) (t_posts (db w)) (t_posts (db u))"

lemma cleaned_refl: "pending_ok w \<Longrightarrow> (\<And>n. bucket u n = bucket w n \<or> bucket u n = None) \<Longrightarrow> db u = db w \<Longrightarrow> cleaned w u"
  by (simp add: cleaned_def list_all2_same cleaned_row_def pending_ok_def)

lemma frozen_fields:
  assumes "frozen r' = frozen r"
  shows "p_id r' = p_id r \<and> p_deleted_at r' = p_deleted_at r"
proof -
  have "p_id (frozen x) = p_id x" "p_deleted_at (frozen x) = p_deleted_at x" for x by (simp_all add: frozen_def)
  then show ?thesis using assms by metis
qed

lemma cleaned_row_trans:
  assumes "cleaned_row b b1 r r1" "cleaned_row b1 b2 r1 r2" "\<And>n. b1 n = b n \<or> b1 n = None" "\<And>n. b2 n = b1 n \<or> b2 n = None"
  shows "cleaned_row b b2 r r2"
proof -
  have "p_id r1 = p_id r" using assms(1) frozen_fields [of r1 r] by (simp add: cleaned_row_def)
  then show ?thesis using assms(1,2) assms(3) [of "p_id r"] assms(4) [of "p_id r"] unfolding cleaned_row_def
    by (cases "p_cleanup r = CPending"; cases "p_cleanup r1 = CPending") auto
qed

lemma cleaned_trans:
  assumes "cleaned w u" "cleaned u v"
  shows "cleaned w v"
proof -
  have b: "bucket u n = bucket w n \<or> bucket u n = None" "bucket v n = bucket u n \<or> bucket v n = None" for n
    using assms by (auto simp: cleaned_def)
  then have "bucket v n = bucket w n \<or> bucket v n = None" for n by metis
  moreover have "list_all2 (cleaned_row (bucket w) (bucket v)) (t_posts (db w)) (t_posts (db v))"
  proof (rule list_all2_trans)
    show "list_all2 (cleaned_row (bucket w) (bucket u)) (t_posts (db w)) (t_posts (db u))"
      "list_all2 (cleaned_row (bucket u) (bucket v)) (t_posts (db u)) (t_posts (db v))"
      using assms by (simp_all add: cleaned_def)
  qed (rule cleaned_row_trans [OF _ _ b])
  ultimately show ?thesis by (simp add: cleaned_def)
qed

lemma cleaned_pending_ok:
  assumes "cleaned w u" "pending_ok w"
  shows "pending_ok u"
proof -
  have l2: "list_all2 (cleaned_row (bucket w) (bucket u)) (t_posts (db w)) (t_posts (db u))" using assms(1) by (simp add: cleaned_def)
  have "list_all2 (\<lambda>a b. p_id b = p_id a) (t_posts (db w)) (t_posts (db u))"
    using l2 by (rule list_all2_mono) (auto simp: cleaned_row_def dest: frozen_fields)
  then have "map p_id (t_posts (db u)) = map p_id (t_posts (db w))"
    by (induction rule: list_all2_induct) simp_all
  moreover have "p_deleted_at r' \<noteq> None \<and> p_attempts r' < 5"
    if r': "r' \<in> set (t_posts (db u))" "p_cleanup r' = CPending" for r'
  proof -
    obtain r where r: "r \<in> set (t_posts (db w))" "cleaned_row (bucket w) (bucket u) r r'"
      using l2 r'(1) by (metis list_all2_conv_all_nth in_set_conv_nth)
    then have "p_cleanup r = CPending" using r'(2) by (auto simp: cleaned_row_def)
    then show ?thesis using r r'(2) assms(2) frozen_fields [of r' r] by (auto simp: cleaned_row_def pending_ok_def)
  qed
  ultimately show ?thesis using assms(2) by (simp add: pending_ok_def)
qed

text \<open>One update of the claimed row.\<close>

lemma cleaned_update:
  assumes "pending_ok w" "r0 \<in> set (t_posts (db w))" "p_cleanup r0 = CPending"
    and "\<And>n. bucket u n = bucket w n \<or> bucket u n = None"
    and "db u = (db w)\<lparr>t_posts := update_where (\<lambda>r. p_id r = p_id r0) f (t_posts (db w))\<rparr>"
    and "cleaned_row (bucket w) (bucket u) r0 (f r0)"
  shows "cleaned w u"
proof -
  have "cleaned_row (bucket w) (bucket u) r (if p_id r = p_id r0 then f r else r)" if r: "r \<in> set (t_posts (db w))" for r
  proof (cases "p_id r = p_id r0")
    case True
    have "inj_on p_id (set (t_posts (db w)))" using assms(1) by (simp add: pending_ok_def distinct_map)
    then have "r = r0" using True r assms(2) by (simp add: inj_on_def)
    then show ?thesis using assms(6) by simp
  next
    case False
    then show ?thesis using r assms(1) by (auto simp: cleaned_row_def pending_ok_def)
  qed
  then show ?thesis using assms(4,5) by (simp add: cleaned_def update_where_def list_all2_map2 list_all2_same)
qed

lemma cleanup_one_cleaned:
  assumes "pending_ok w"
  shows "wp cleanup_one (\<lambda>_ u. cleaned w u) w"
proof -
  let ?F = "\<lambda>u. \<forall>n. bucket u n = bucket w n \<or> bucket u n = None"
  have claim: "wp claim_cleanup (\<lambda>x u. db u = db w \<and> bucket u = bucket w \<and> outcomes u PG \<subseteq> outcomes w PG \<and>
      (\<forall>i a. x = Inr (Some (i, a)) \<longrightarrow> (\<exists>r\<in>set (t_posts (db w)). p_cleanup r = CPending \<and> p_id r = i \<and> p_attempts r = a)))
      (after_call PG w)"
  proof -
    have "r \<in> set (t_posts (db w)) \<and> p_cleanup r = CPending" if "cleanup_candidates u = r # rs" "db u = db w" for r rs u
    proof -
      have "r \<in> set (cleanup_candidates u)" using that(1) by simp
      then show ?thesis using that(2) by (simp add: cleanup_candidates_def)
    qed
    then show ?thesis by (fastforce simp: claim_cleanup_def wp_pg_query outcomes_subset_call split: list.splits)
  qed
  have del: "wp (delete_from_gcs i) (\<lambda>x v. db v = db w \<and> ?F v \<and> outcomes v PG \<subseteq> outcomes w PG \<and>
      (x = Inr () \<longrightarrow> bucket w i \<noteq> None \<and> bucket v i = None)) u"
    if "db u = db w" "bucket u = bucket w" "outcomes u PG \<subseteq> outcomes w PG" for i u
    using that
    by (auto simp: delete_from_gcs_def wp_ext_call outcomes_subset_call outcomes_def split: outcome.split)
  have mark: "wp (tryE (mark_cleanup (p_id r0) f) (\<lambda>_. ret True)) (\<lambda>x v. ?F v \<and> outcomes v PG \<subseteq> outcomes w PG \<and>
      (\<forall>y. x = Inr y \<longrightarrow> cleaned w v)) u"
    if r0: "r0 \<in> set (t_posts (db w))" "p_cleanup r0 = CPending" and fr: "db u = db w" "?F u" "outcomes u PG \<subseteq> outcomes w PG"
      and cl: "\<And>v :: world. bucket v = bucket u \<Longrightarrow> cleaned_row (bucket w) (bucket v) r0 (f r0)" for r0 f u
  proof -
    have "cleaned w v" if v: "db v = (db w)\<lparr>t_posts := update_where (\<lambda>r. p_id r = p_id r0) f (t_posts (db w))\<rparr>" "bucket v = bucket u" for v
      using cl [OF v(2)] fr(2) v(2) by (intro cleaned_update [OF assms r0 _ v(1)]) simp_all
    then show ?thesis using fr
      by (simp add: mark_cleanup_def wp_tryE wp_ext_call wp_ret outcomes_subset_call upd_posts_def split: outcome.split)
  qed
  let ?step = "\<lambda>found. case found of None \<Rightarrow> ret False
     | Some (i, attempts) \<Rightarrow> handleE (delete_from_gcs i)
           (\<lambda>_. tryE (mark_cleanup i (\<lambda>r. r\<lparr>p_cleanup := (if attempts + 1 \<ge> 5 then CFailed else CPending),
                                          p_attempts := p_attempts r + 1\<rparr>)) (\<lambda>_. ret True))
           (\<lambda>_. tryE (mark_cleanup i (\<lambda>r. r\<lparr>p_cleanup := CCompleted\<rparr>)) (\<lambda>_. ret True))"
  have body: "wp (tryE claim_cleanup ?step) (\<lambda>x u. ?F u \<and> outcomes u PG \<subseteq> outcomes w PG \<and> (\<forall>y. x = Inr y \<longrightarrow> cleaned w u)) (after_call PG w)"
  proof (rule wp_tryI [OF claim], goal_cases)
    case (1 found u)
    show ?case
    proof (cases found)
      case None
      then show ?thesis using 1 assms by (simp add: wp_ret cleaned_refl)
    next
      case (Some p)
      then obtain r0 where r0: "r0 \<in> set (t_posts (db w))" "p_cleanup r0 = CPending" "p = (p_id r0, p_attempts r0)"
        using 1 by (cases p) auto
      have at: "p_attempts r0 < 5" using assms r0 by (simp add: pending_ok_def)
      show ?thesis unfolding Some r0(3) option.case prod.case
      proof (rule wp_handleI [OF del], goal_cases)
        case (4 x v)
        then show ?case using r0 by (intro mark) (auto simp: cleaned_row_def frozen_def)
      next
        case (5 e v)
        then show ?case using r0 at by (intro mark) (auto simp: cleaned_row_def frozen_def)
      qed (use 1 in simp_all)
    qed
  qed simp
  have "wp cleanup_one (\<lambda>x u. ?F u \<and> (case x of Inr y \<Rightarrow> cleaned w u
      | Inl e \<Rightarrow> db u = db w \<or> (Lost \<in> outcomes w PG \<and> (\<exists>y :: bool. cleaned w u)))) w"
    unfolding cleanup_one_def
    by (rule wp_in_tx_cases [where F = ?F and P = "\<lambda>_ u. cleaned w u", OF body]) (auto simp: cleaned_def)
  then show ?thesis
  proof (rule wp_mono)
    fix x u
    assume *: "?F u \<and> (case x of Inr y \<Rightarrow> cleaned w u | Inl e \<Rightarrow> db u = db w \<or> (Lost \<in> outcomes w PG \<and> (\<exists>y :: bool. cleaned w u)))"
    show "cleaned w u"
    proof (rule ccontr)
      assume no: "\<not> cleaned w u"
      then have same: "db u = db w" using conjunct2 [OF *] by (cases x) simp_all
      have "cleaned w u" using assms _ same by (rule cleaned_refl) (rule spec [OF conjunct1 [OF *]])
      then show False using no by blast
    qed
  qed
qed

lemma cleanup_loop_cleaned:
  "pending_ok w \<Longrightarrow> wp (cleanup_loop m n) (\<lambda>r u. cleaned w u \<and> n \<le> fst r \<and> fst r \<le> n + int m) w"
proof (induction m arbitrary: n w)
  case 0
  then show ?case by (simp add: wp_ret cleaned_refl)
next
  case (Suc m)
  show ?case unfolding cleanup_loop.simps wp_bind
  proof (rule wp_mono [OF cleanup_one_cleaned [OF Suc.prems]], goal_cases)
    case (1 r u)
    have "wp (cleanup_loop m (n + 1)) (\<lambda>r v. cleaned u v \<and> n + 1 \<le> fst r \<and> fst r \<le> n + 1 + int m) u"
      by (rule Suc.IH) (rule cleaned_pending_ok [OF 1 Suc.prems])
    then show ?case using 1 by (cases r) (auto simp: wp_ret intro: cleaned_trans elim!: wp_mono)
  qed
qed

text \<open>C22. Cleanup touches only posts that wait for it: each of them stays pending below five attempts,
  becomes completed only when its media was there and is gone, or failed after the fifth attempt.  In
  particular a post whose media is already gone is never completed.\<close>

theorem cleanup_is_safe:
  assumes "pending_ok w" "run_state (cleanup_deleted_posts limit) w = ((n, e), w')"
  shows "list_all2 (cleaned_row (bucket w) (bucket w')) (t_posts (db w)) (t_posts (db w')) \<and> pending_ok w' \<and>
    0 \<le> n \<and> n \<le> max 0 limit"
proof -
  have "wp (cleanup_deleted_posts limit) (\<lambda>r u. cleaned w u \<and> 0 \<le> fst r \<and> fst r \<le> 0 + int (nat limit)) w"
    unfolding cleanup_deleted_posts_def by (rule cleanup_loop_cleaned [OF assms(1)])
  from wp_run [OF this assms(2)] show ?thesis
    using cleaned_pending_ok [OF _ assms(1), of w'] by (simp add: cleaned_def max_def split: if_splits)
qed

section \<open>A small instance\<close>

definition demo_posts :: world where
  "demo_posts = quiet_world\<lparr>db := empty_db\<lparr>t_posts := [new_row demo_post, soft_delete 5 (new_row (demo_post\<lparr>post_id := ''p2''\<rparr>))]\<rparr>,
     red := empty_redis\<rparr>"

definition demo_relay :: relay where
  "demo_relay = \<lparr>batch_size = 0, relay_max_attempts = 0, relay_base = 0, relay_max = 0\<rparr>"

lemma demo_posts_ok: "pending_ok demo_posts" "bucket demo_posts ''p2'' = None" "t_likes (db demo_posts) = []"
  "t_posts (db demo_posts) = [new_row demo_post, soft_delete 5 (new_row (demo_post\<lparr>post_id := ''p2''\<rparr>))]"
  by (simp_all add: demo_posts_def pending_ok_def new_row_def soft_delete_def demo_post_def blank_post_def quiet_world_def empty_db_def)

theorem persist_new_post_atomic_witness:
  "facts (snd (run_state (persist_new_post demo_relay None demo_post) demo_posts)) \<in>
   {facts demo_posts, with_post (demo_post\<lparr>post_at := unix (clock demo_posts), post_deleted_at := None\<rparr>) (facts demo_posts)}"
proof -
  let ?r = "run_state (persist_new_post demo_relay None demo_post) demo_posts"
  have "?r = (fst ?r, snd ?r)" by simp
  from persist_new_post_atomic [OF this] show ?thesis by simp
qed

theorem delete_post_atomic_witness:
  "facts (snd (run_state (delete_post demo_relay None ''p1'' ''bob'') demo_posts)) = facts demo_posts"
proof -
  let ?r = "run_state (delete_post demo_relay None ''p1'' ''bob'') demo_posts"
  have "?r = (fst ?r, snd ?r)" by simp
  from delete_post_atomic [OF _ _ this]
  have "facts (snd ?r) = facts demo_posts \<or> (\<exists>r. find_post ''p1'' demo_posts = Some r \<and> live r \<and> p_user r = ''bob'')" by auto
  then show ?thesis
    by (simp add: find_post_def demo_posts_ok(4) new_row_def demo_post_def blank_post_def)
qed

theorem like_post_atomic_witness:
  "distinct (map (\<lambda>l. (l_post l, l_user l)) (t_likes (db (snd (run_state (like_post demo_relay None ''p1'' ''bob'') demo_posts)))))"
proof -
  let ?r = "run_state (like_post demo_relay None ''p1'' ''bob'') demo_posts"
  have "?r = (fst ?r, snd ?r)" by simp
  from like_post_atomic [OF _ _ this] show ?thesis by (simp add: demo_posts_ok)
qed

theorem unlike_and_share_rows_witness:
  "t_likes (db (snd (run_state (unlike_post ''p1'' ''bob'') demo_posts))) = [] \<and>
   t_likes (db (snd (run_state (share_post ''p1'' ''bob'' ''x'') demo_posts))) = []"
proof -
  let ?r = "run_state (unlike_post ''p1'' ''bob'') demo_posts" and ?q = "run_state (share_post ''p1'' ''bob'' ''x'') demo_posts"
  have "?r = (fst ?r, snd ?r)" "?q = (fst ?q, snd ?q)" by simp_all
  from unlike_and_share_rows [OF this] show ?thesis by (simp add: demo_posts_ok)
qed

theorem cleanup_is_safe_witness:
  "pending_ok (snd (run_state (cleanup_deleted_posts 3) demo_posts))"
proof -
  let ?r = "run_state (cleanup_deleted_posts 3) demo_posts"
  have "?r = ((fst (fst ?r), snd (fst ?r)), snd ?r)" by simp
  from cleanup_is_safe [OF demo_posts_ok(1) this] show ?thesis by blast
qed

end
