(* ===== verification/Comments.thy ===== *)
theory Comments
  imports Posts Message SocialGraph
begin

text \<open>
  \<open>services/post/service/comments.go\<close>: comments and replies on a post, and the pages of a thread.
  The table carries the constraints of the migration: the comment id is the primary key, the post
  must exist, and a reply's parent must be a comment on the same post.
\<close>

section \<open>The operations\<close>

definition max_comment_len :: int where
  "max_comment_len = 2000"

definition upd_comments :: "(comment_row list \<Rightarrow> comment_row list) \<Rightarrow> world \<Rightarrow> world" where
  "upd_comments f = upd_db (\<lambda>d. d\<lparr>t_comments := f (t_comments d)\<rparr>)"

definition find_comment :: "string \<Rightarrow> world \<Rightarrow> comment_row option" where
  "find_comment i w = find (\<lambda>c. c_id c = i) (t_comments (db w))"

text \<open>The lookup of the parent: its post, root and depth.\<close>

definition select_parent :: "string \<Rightarrow> (string \<times> string \<times> int) option io" where
  "select_parent i = pg_query (\<lambda>w.
     map_option (\<lambda>c. (c_post c, c_root c, c_depth c))
       (find (\<lambda>c. c_id c = i \<and> c_deleted_at c = None) (t_comments (db w))))"

definition on_same_post :: "string \<Rightarrow> string option \<Rightarrow> world \<Rightarrow> bool" where
  "on_same_post pid parent w = (case parent of None \<Rightarrow> True
     | Some p \<Rightarrow> list_ex (\<lambda>c. c_id c = p \<and> c_post c = pid) (t_comments (db w)))"

text \<open>\<open>depth\<close> is a 32-bit column.\<close>

definition insert_comment :: "string \<Rightarrow> string \<Rightarrow> string option \<Rightarrow> string \<Rightarrow> int \<Rightarrow> string \<Rightarrow> string \<Rightarrow> unit io" where
  "insert_comment cid pid parent root depth user content = ext_call PG (\<lambda>w.
     if depth > 2147483647 then (Inl ErrIO, w)
     else if depth < 0 \<or> rune_count content < 1 \<or> rune_count content > 2000 then (Inl CheckViolation, w)
     else if find_comment cid w \<noteq> None then (Inl UniqueViolation, w)
     else if find_post pid w = None \<or> \<not> on_same_post pid parent w then (Inl ForeignKeyViolation, w)
     else (Inr (), upd_comments (\<lambda>rows. rows @ [\<lparr>c_id = cid, c_post = pid, c_parent = parent, c_root = root,
        c_depth = depth, c_user = user, c_content = content, c_at = clock w, c_deleted_at = None\<rparr>]) w))"

text \<open>Where the new comment goes: its parent, root and depth.\<close>

definition comment_place :: "string \<Rightarrow> string \<Rightarrow> string \<Rightarrow> (string option \<times> string \<times> int) io" where
  "comment_place pid parent cid =
     (if parent = [] then ret (None, cid, 0)
      else tryE (select_parent parent) (\<lambda>found. case found of
          None \<Rightarrow> fail ErrCommentNotFound
        | Some (ppost, root, depth) \<Rightarrow>
            if ppost \<noteq> pid then fail ErrCommentNotFound else ret (Some parent, root, depth + 1)))"

definition add_comment :: "string \<Rightarrow> string \<Rightarrow> string \<Rightarrow> string \<Rightarrow> string io" where
  "add_comment pid parent user content =
     (if pid = [] \<or> user = [] \<or> content = [] \<or> rune_count content > max_comment_len then fail ErrInvalidComment
      else tryE (post_owner pid) (\<lambda>_. Monad_Syntax.bind new_uuid (\<lambda>cid.
        tryE (comment_place pid parent cid) (\<lambda>(par, root, depth).
          handleE (insert_comment cid pid par root depth user content)
            (\<lambda>e. if e = ForeignKeyViolation then fail ErrCommentNotFound else fail e)
            (\<lambda>_. ret cid)))))"

text \<open>\<open>model.Comment\<close> as the endpoint returns it.\<close>

record comment =
  comment_id :: string
  comment_parent :: string
  comment_root :: string
  comment_user :: string
  comment_post :: string
  comment_depth :: int
  comment_content :: string
  comment_at :: int

definition scan_comment :: "comment_row \<Rightarrow> comment" where
  "scan_comment c = \<lparr>comment_id = c_id c, comment_parent = (case c_parent c of None \<Rightarrow> [] | Some p \<Rightarrow> p),
     comment_root = c_root c, comment_user = c_user c, comment_post = c_post c, comment_depth = c_depth c,
     comment_content = c_content c, comment_at = unix (c_at c)\<rparr>"

definition comment_key :: "comment_row \<Rightarrow> cursor" where
  "comment_key c = (c_at c, c_id c)"

definition comments_of :: "string \<Rightarrow> world \<Rightarrow> comment_row list" where
  "comments_of pid w = filter (\<lambda>c. c_post c = pid \<and> c_deleted_at c = None) (t_comments (db w))"

definition list_comments :: "(cursor \<Rightarrow> string) \<Rightarrow> (string \<Rightarrow> cursor option) \<Rightarrow> string \<Rightarrow> int \<Rightarrow> string \<Rightarrow>
    (comment list \<times> string) io" where
  "list_comments marshal unmarshal pid limit0 cursor =
     (case cursor_decode unmarshal cursor of
        Inl e \<Rightarrow> fail e
      | Inr cur \<Rightarrow> (let limit = page_limit limit0 50 200 in
          tryE (post_owner pid) (\<lambda>_.
          tryE (pg_query (\<lambda>w. select_asc comment_key (cursor_opt cur) (limit + 1) (comments_of pid w))) (\<lambda>got.
            (case cut_page comment_key limit got of (xs, nx) \<Rightarrow>
              ret (map scan_comment xs, case nx of None \<Rightarrow> [] | Some c \<Rightarrow> cursor_encode marshal c))))))"

section \<open>Threads are trees\<close>

text \<open>What a row must look like among the others: a top-level comment is its own root; a reply has a
  parent on the same post, of the same thread, one level up.\<close>

definition comment_ok :: "comment_row list \<Rightarrow> comment_row \<Rightarrow> bool" where
  "comment_ok rows c \<longleftrightarrow> c_id c \<noteq> [] \<and> 0 \<le> c_depth c \<and> (case c_parent c of
       None \<Rightarrow> c_root c = c_id c \<and> c_depth c = 0
     | Some p \<Rightarrow> (\<exists>q\<in>set rows. c_id q = p \<and> c_post q = c_post c \<and> c_root q = c_root c \<and> c_depth c = c_depth q + 1))"

definition comments_wf :: "world \<Rightarrow> bool" where
  "comments_wf w \<longleftrightarrow> distinct (map c_id (t_comments (db w))) \<and>
     (\<forall>c\<in>set (t_comments (db w)). comment_ok (t_comments (db w)) c)"

text \<open>The comment \<open>n\<close> levels up.\<close>

fun ancestor :: "comment_row list \<Rightarrow> nat \<Rightarrow> comment_row \<Rightarrow> comment_row option" where
  "ancestor rows 0 c = Some c"
| "ancestor rows (Suc n) c = (case c_parent c of None \<Rightarrow> None
     | Some p \<Rightarrow> (case find (\<lambda>q. c_id q = p) rows of None \<Rightarrow> None | Some q \<Rightarrow> ancestor rows n q))"

lemma upd_comments_simps [simp]:
  "t_comments (db (upd_comments f w)) = f (t_comments (db w))"
  "t_posts (db (upd_comments f w)) = t_posts (db w)"
  "red (upd_comments f w) = red w" "outs (upd_comments f w) = outs w" "clock (upd_comments f w) = clock w"
  "outcomes (upd_comments f w) y = outcomes w y"
  by (simp_all add: upd_comments_def)

lemma comments_wf_cong: "t_comments (db w') = t_comments (db w) \<Longrightarrow> comments_wf w' = comments_wf w"
  by (simp add: comments_wf_def)

lemma comment_ok_append: "comment_ok rows c \<Longrightarrow> comment_ok (rows @ cs) c"
  by (auto simp: comment_ok_def split: option.splits)

lemma comments_wf_append:
  assumes "comments_wf w" "comment_ok (t_comments (db w)) c" "find_comment (c_id c) w = None"
  shows "comments_wf (upd_comments (\<lambda>rows. rows @ [c]) w)"
  using assms by (auto simp: comments_wf_def find_comment_def find_None_iff intro: comment_ok_append)

lemma find_by_id:
  assumes "distinct (map c_id rows)" "q \<in> set rows"
  shows "find (\<lambda>c. c_id c = c_id q) rows = Some q"
proof -
  from assms(2) have "c_id q \<in> c_id ` set rows" by simp
  then obtain r where "find (\<lambda>c. c_id c = c_id q) rows = Some r" "r \<in> set rows" "c_id r = c_id q" by (rule find_key)
  then show ?thesis using assms by (auto simp: distinct_map inj_on_def)
qed

text \<open>In a well-formed table the root a comment names is the comment \<open>depth\<close> levels up, a top-level
  comment on the same post.\<close>

lemma ancestor_root:
  assumes "comments_wf w" "c \<in> set (t_comments (db w))"
  shows "\<exists>r\<in>set (t_comments (db w)). ancestor (t_comments (db w)) (nat (c_depth c)) c = Some r \<and>
     c_id r = c_root c \<and> c_parent r = None \<and> c_post r = c_post c"
  using assms(2)
proof (induction "nat (c_depth c)" arbitrary: c)
  case 0
  then have "comment_ok (t_comments (db w)) c" "c_depth c \<le> 0" using assms(1) by (auto simp: comments_wf_def)
  then have "c_parent c = None \<and> c_root c = c_id c"
    using assms(1) by (fastforce simp: comment_ok_def comments_wf_def split: option.splits)
  then show ?case using 0 by auto
next
  case (Suc n)
  then have ok: "comment_ok (t_comments (db w)) c" "0 < c_depth c" using assms(1) by (auto simp: comments_wf_def)
  then obtain p q where q: "c_parent c = Some p" "q \<in> set (t_comments (db w))" "c_id q = p" "c_post q = c_post c"
    "c_root q = c_root c" "c_depth c = c_depth q + 1"
    by (auto simp: comment_ok_def split: option.splits)
  have "nat (c_depth q) = n" using Suc.hyps(2) q(6) by simp
  moreover have "find (\<lambda>c. c_id c = p) (t_comments (db w)) = Some q"
    using find_by_id [of "t_comments (db w)" q] q assms(1) by (simp add: comments_wf_def)
  moreover have "nat (c_depth c) = Suc n" using Suc.hyps(2) by simp
  ultimately show ?case using Suc.hyps(1) [of q] q(1,2,4,5) by auto
qed


text \<open>The effect of a successful insert, and the outcome of the whole operation.\<close>

definition comment_added :: "world \<Rightarrow> string \<Rightarrow> string \<Rightarrow> string \<Rightarrow> string \<Rightarrow> string \<Rightarrow> world \<Rightarrow> bool" where
  "comment_added w pid parent user content cid v \<longleftrightarrow>
     (\<exists>c. t_comments (db v) = t_comments (db w) @ [c] \<and> comment_ok (t_comments (db w)) c \<and> c_id c = cid \<and>
        find_comment cid w = None \<and> c_post c = pid \<and> c_user c = user \<and> c_content c = content \<and>
        c_parent c = (if parent = [] then None else Some parent))"

definition comment_outcome :: "world \<Rightarrow> string \<Rightarrow> string \<Rightarrow> string \<Rightarrow> string \<Rightarrow> err + string \<Rightarrow> world \<Rightarrow> bool" where
  "comment_outcome w pid parent user content r v \<longleftrightarrow> db v = (db w)\<lparr>t_comments := t_comments (db v)\<rparr> \<and>
     (case r of Inr cid \<Rightarrow> comment_added w pid parent user content cid v
      | Inl e \<Rightarrow> db v = db w \<or> (Lost \<in> outcomes w PG \<and> comment_added w pid parent user content (shd (uuids w)) v))"

lemma comment_outcome_same: "db v = db w \<Longrightarrow> comment_outcome w pid parent user content (Inl e) v"
  by (simp add: comment_outcome_def)

lemma wp_insert_comment:
  assumes wf: "comments_wf w" "cid = shd (uuids w)" "cid \<noteq> []"
    and u: "db u = db w" "outcomes u PG \<subseteq> outcomes w PG"
    and par: "par = (if parent = [] then None else Some parent)"
    and top: "parent = [] \<Longrightarrow> root = cid \<and> depth = 0"
    and reply: "parent \<noteq> [] \<Longrightarrow> \<exists>q\<in>set (t_comments (db w)). c_id q = parent \<and> c_post q = pid \<and> c_root q = root \<and>
       depth = c_depth q + 1"
  shows "wp (handleE (insert_comment cid pid par root depth user content)
        (\<lambda>e. if e = ForeignKeyViolation then fail ErrCommentNotFound else fail e) (\<lambda>_. ret cid))
      (comment_outcome w pid parent user content) u"
proof -
  let ?row = "\<lambda>t. \<lparr>c_id = cid, c_post = pid, c_parent = par, c_root = root,
        c_depth = depth, c_user = user, c_content = content, c_at = t, c_deleted_at = None\<rparr>"
  have ok: "comment_ok (t_comments (db w)) (?row t)" for t
  proof (cases "parent = []")
    case True
    then show ?thesis using top par wf(3) by (simp add: comment_ok_def)
  next
    case False
    then obtain q where q: "q \<in> set (t_comments (db w))" "c_id q = parent" "c_post q = pid" "c_root q = root" "depth = c_depth q + 1"
      using reply by blast
    then have "0 \<le> c_depth q" using wf(1) by (auto simp: comments_wf_def comment_ok_def)
    then show ?thesis using False q par wf(3) by (auto simp: comment_ok_def)
  qed
  have added: "comment_added w pid parent user content cid (upd_comments (\<lambda>rows. rows @ [?row t]) v)"
    if "db v = db w" "find_comment cid v = None" for t v
    using that ok [of t] par by (simp add: comment_added_def find_comment_def)
  have lost: "Lost \<in> outcomes w PG" if "next_out PG u = Lost"
    using that u(2) next_out_outcomes [of PG u] by auto
  have frame: "db (upd_comments f v) = (db w)\<lparr>t_comments := t_comments (db (upd_comments f v))\<rparr>" if "db v = db w" for f v
    using that by (simp add: upd_comments_def)
  let ?v = "after_call PG u"
  let ?body = "\<lambda>v. if depth > 2147483647 then (Inl ErrIO, v)
     else if depth < 0 \<or> rune_count content < 1 \<or> rune_count content > 2000 then (Inl CheckViolation, v)
     else if find_comment cid v \<noteq> None then (Inl UniqueViolation, v)
     else if find_post pid v = None \<or> \<not> on_same_post pid par v then (Inl ForeignKeyViolation, v)
     else (Inr (), upd_comments (\<lambda>rows. rows @ [?row (clock v)]) v)"
  have v: "db ?v = db w" using u(1) by simp
  consider (no) e where "?body ?v = (Inl e, ?v)"
    | (yes) "?body ?v = (Inr (), upd_comments (\<lambda>rows. rows @ [?row (clock ?v)]) ?v)" "find_comment cid ?v = None"
  proof -
    assume no: "\<And>e. ?body ?v = (Inl e, ?v) \<Longrightarrow> thesis" and
      yes: "?body ?v = (Inr (), upd_comments (\<lambda>rows. rows @ [?row (clock ?v)]) ?v) \<Longrightarrow> find_comment cid ?v = None \<Longrightarrow> thesis"
    show thesis
    proof (cases "depth > 2147483647 \<or> depth < 0 \<or> rune_count content < 1 \<or> rune_count content > 2000 \<or>
        find_comment cid ?v \<noteq> None \<or> find_post pid ?v = None \<or> \<not> on_same_post pid par ?v")
      case True
      then have "\<exists>e. ?body ?v = (Inl e, ?v)" by (auto split: if_split)
      then show thesis using no by blast
    next
      case False
      then show thesis by (intro yes) simp_all
    qed
  qed
  then show ?thesis
  proof cases
    case no
    then show ?thesis unfolding wp_handleE insert_comment_def wp_ext_call
      using v by (auto simp: wp_ret intro!: comment_outcome_same split: outcome.split)
  next
    case yes
    let ?x = "upd_comments (\<lambda>rows. rows @ [?row (clock ?v)]) ?v"
    have "comment_outcome w pid parent user content (Inr cid) ?x"
      "next_out PG u = Lost \<Longrightarrow> comment_outcome w pid parent user content (Inl ErrIO) ?x"
      using added [OF v yes(2)] frame [OF v] lost wf(2) by (simp_all add: comment_outcome_def)
    moreover have "comment_outcome w pid parent user content (Inl ErrIO) ?v" using v by (rule comment_outcome_same)
    ultimately show ?thesis unfolding wp_handleE insert_comment_def wp_ext_call yes(1)
      by (simp add: wp_ret split: outcome.split)
  qed
qed

lemma wp_add_comment:
  assumes wf: "comments_wf w" "shd (uuids w) \<noteq> []"
  shows "wp (add_comment pid parent user content) (comment_outcome w pid parent user content) w"
proof (cases "pid = [] \<or> user = [] \<or> content = [] \<or> rune_count content > max_comment_len")
  case True
  then show ?thesis by (simp add: add_comment_def wp_simps comment_outcome_same)
next
  case ok: False
  let ?Q = "comment_outcome w pid parent user content" and ?cid = "shd (uuids w)"
  have owner: "wp (post_owner pid) (\<lambda>r v. db v = db w \<and> uuids v = uuids w \<and> outcomes v PG \<subseteq> outcomes w PG) w"
    unfolding post_owner_def wp_ext_call by (auto simp: outcomes_after_call split: outcome.split option.split)
  have rest: "wp (tryE (comment_place pid parent ?cid) (\<lambda>(par, root, depth).
          handleE (insert_comment ?cid pid par root depth user content)
            (\<lambda>e. if e = ForeignKeyViolation then fail ErrCommentNotFound else fail e) (\<lambda>_. ret ?cid))) ?Q u"
    if u: "db u = db w" "outcomes u PG \<subseteq> outcomes w PG" for u :: world
  proof (cases "parent = []")
    case True
    have "wp (handleE (insert_comment ?cid pid None ?cid 0 user content)
            (\<lambda>e. if e = ForeignKeyViolation then fail ErrCommentNotFound else fail e) (\<lambda>_. ret ?cid)) ?Q u"
      by (rule wp_insert_comment [OF wf(1) refl wf(2) u]) (simp_all add: True)
    then show ?thesis by (simp add: comment_place_def True wp_tryE wp_ret)
  next
    case False
    have cut: "db (after_call PG u) = db w" "outcomes (after_call PG u) PG \<subseteq> outcomes w PG"
      using u outcomes_after_call [of PG u PG] by auto
    have place: "wp (comment_place pid parent ?cid) (\<lambda>r v. v = after_call PG u \<and> (\<forall>x. r = Inr x \<longrightarrow>
        (\<exists>q\<in>set (t_comments (db w)). c_id q = parent \<and> c_post q = pid \<and> x = (Some parent, c_root q, c_depth q + 1)))) u"
      using False u(1)
      by (auto simp: comment_place_def select_parent_def wp_tryE wp_pg_query wp_ret dest!: find_in_set split: option.split)
    show ?thesis
    proof (rule wp_tryI [OF place], goal_cases)
      case (1 x v)
      then obtain q where q: "q \<in> set (t_comments (db w))" "c_id q = parent" "c_post q = pid"
        "x = (Some parent, c_root q, c_depth q + 1)" and v: "v = after_call PG u" by blast
      show ?case unfolding v q(4) prod.case
        by (rule wp_insert_comment [OF wf(1) refl wf(2) cut]) (use q False in auto)
    next
      case (2 e v)
      then show ?case using cut by (intro comment_outcome_same) simp
    qed
  qed
  show ?thesis unfolding add_comment_def if_not_P [OF ok]
  proof (rule wp_tryI [OF owner], goal_cases)
    case (1 x v)
    then have v: "db v = db w" "uuids v = uuids w" "outcomes v PG \<subseteq> outcomes w PG" by auto
    show ?case unfolding wp_bind wp_new_uuid v(2)
      by (rule rest) (use v in \<open>simp_all add: outcomes_def\<close>)
  next
    case (2 e v)
    then show ?case by (intro comment_outcome_same) simp
  qed
qed

text \<open>C24. Whatever calls fail, \<open>AddComment\<close> stores at most the one comment it was asked for, under the id
  it returns and below a live parent on the same post; and every thread stays a tree: the root a comment
  names is the top-level comment on its post \<open>depth\<close> replies above it.\<close>

theorem comments_stay_trees:
  assumes "comments_wf w" "shd (uuids w) \<noteq> []"
    and "run_state (add_comment pid parent user content) w = (r, w')"
  shows "comments_wf w' \<and> db w' = (db w)\<lparr>t_comments := t_comments (db w')\<rparr> \<and>
    (\<exists>new. t_comments (db w') = t_comments (db w) @ new \<and> length new \<le> 1 \<and>
      (case r of Inr cid \<Rightarrow> map c_id new = [cid] | Inl _ \<Rightarrow> new = [] \<or> Lost \<in> outcomes w PG) \<and>
      (\<forall>c\<in>set new. c_post c = pid \<and> c_user c = user \<and> c_content c = content \<and>
         c_parent c = (if parent = [] then None else Some parent))) \<and>
    (\<forall>c\<in>set (t_comments (db w')). \<exists>root\<in>set (t_comments (db w')).
      ancestor (t_comments (db w')) (nat (c_depth c)) c = Some root \<and> c_id root = c_root c \<and> c_parent root = None \<and>
      c_post root = c_post c)"
proof -
  have out: "comment_outcome w pid parent user content r w'"
    by (rule wp_run [OF wp_add_comment [OF assms(1,2)] assms(3)])
  let ?new = "\<lambda>cid. comment_added w pid parent user content cid w'"
  have wf: "comments_wf w'" if "?new cid" for cid
  proof -
    from that obtain c where c: "t_comments (db w') = t_comments (db w) @ [c]" "comment_ok (t_comments (db w)) c"
      "find_comment (c_id c) w = None" by (auto simp: comment_added_def)
    have "comments_wf (upd_comments (\<lambda>rows. rows @ [c]) w)" by (rule comments_wf_append [OF assms(1) c(2,3)])
    then show ?thesis using c(1) by (simp add: comments_wf_def)
  qed
  have wf': "comments_wf w'"
    using out assms(1) wf by (auto simp: comment_outcome_def comments_wf_def split: sum.splits)
  have rows: "\<exists>new. t_comments (db w') = t_comments (db w) @ new \<and> length new \<le> 1 \<and>
      (case r of Inr cid \<Rightarrow> map c_id new = [cid] | Inl _ \<Rightarrow> new = [] \<or> Lost \<in> outcomes w PG) \<and>
      (\<forall>c\<in>set new. c_post c = pid \<and> c_user c = user \<and> c_content c = content \<and>
         c_parent c = (if parent = [] then None else Some parent))"
  proof -
    have one: "\<exists>new. t_comments (db w') = t_comments (db w) @ new \<and> length new \<le> 1 \<and> map c_id new = [cid] \<and>
      (\<forall>c\<in>set new. c_post c = pid \<and> c_user c = user \<and> c_content c = content \<and>
         c_parent c = (if parent = [] then None else Some parent))" if new: "?new cid" for cid
    proof -
      obtain c where "t_comments (db w') = t_comments (db w) @ [c]" "c_id c = cid" "c_post c = pid" "c_user c = user"
        "c_content c = content" "c_parent c = (if parent = [] then None else Some parent)"
        using new unfolding comment_added_def by blast
      then show ?thesis by (intro exI [of _ "[c]"]) simp
    qed
    show ?thesis
    proof (cases r)
      case (Inr cid)
      then have "?new cid" using out by (simp add: comment_outcome_def)
      from one [OF this] show ?thesis unfolding Inr sum.case by blast
    next
      case (Inl e)
      then consider "db w' = db w" | "Lost \<in> outcomes w PG" "?new (shd (uuids w))"
        using out by (auto simp: comment_outcome_def)
      then show ?thesis
      proof cases
        case 1
        then show ?thesis unfolding Inl sum.case by (intro exI [of _ "[]"]) simp
      next
        case 2
        from one [OF 2(2)] 2(1) show ?thesis unfolding Inl sum.case by blast
      qed
    qed
  qed
  have "db w' = (db w)\<lparr>t_comments := t_comments (db w')\<rparr>" using out by (simp add: comment_outcome_def)
  with wf' rows ancestor_root [OF wf'] show ?thesis by blast
qed

section \<open>Paging through a thread\<close>

definition comment_page :: "string \<Rightarrow> world \<Rightarrow> cursor option \<Rightarrow> int \<Rightarrow> comment_row list \<times> cursor option" where
  "comment_page pid w after n = cut_page comment_key n (select_asc comment_key after (n + 1) (comments_of pid w))"

interpretation comment_pager: keyset_pager "(<) :: cursor \<Rightarrow> cursor \<Rightarrow> bool" comment_key
  "\<lambda>w. sort_key comment_key (comments_of pid w)" "comment_page pid" comments_wf for pid
proof unfold_locales
  fix w
  assume "comments_wf w"
  then have "distinct (map comment_key (comments_of pid w))"
    by (auto simp: comments_wf_def comments_of_def comment_key_def distinct_map inj_on_def)
  then show "sorted_wrt (\<lambda>x y. comment_key x < comment_key y) (sort_key comment_key (comments_of pid w))"
    by (rule sort_asc_sorted)
qed (auto simp: comment_page_def select_asc_page)

lemma comments_of_after [simp]: "comments_of pid (after_call y w) = comments_of pid w"
  by (simp add: comments_of_def)

lemma list_comments_answer:
  assumes "cursor_decode unmarshal cur = Inr after" "comment_page pid w (cursor_opt after) (page_limit limit 50 200) = (xs, nx)"
  shows "fst (run_state (list_comments marshal unmarshal pid limit cur) w) \<in>
    {Inr (map scan_comment xs, case nx of None \<Rightarrow> [] | Some c \<Rightarrow> cursor_encode marshal c)} \<union> range Inl"
proof -
  have "wp (list_comments marshal unmarshal pid limit cur) (\<lambda>r _. r \<in>
    {Inr (map scan_comment xs, case nx of None \<Rightarrow> [] | Some c \<Rightarrow> cursor_encode marshal c)} \<union> range Inl) w"
    using assms by (auto simp: list_comments_def post_owner_def comment_page_def Let_def wp_simps
        split: outcome.split option.split)
  then show ?thesis by (simp add: wp_def split: prod.splits)
qed

text \<open>C25. A client that pages through the comments of a post to the end sees every comment that was there
  during the whole walk exactly once, whatever comments are added in between, and in the order written.\<close>

theorem paging_sees_comments_once:
  assumes "\<And>c. unmarshal (marshal c) = Some c" "\<And>c. marshal c \<noteq> []"
    and "\<forall>w\<in>set ws. comments_wf w \<and> c \<in> set (comments_of pid w)"
    and "client_walk (list_comments marshal unmarshal pid limit) ws [] = (cs, True)"
  shows "count_list (map comment_id cs) (c_id c) = 1 \<and> sorted (map comment_at cs)"
proof -
  let ?n = "page_limit limit 50 200"
  have n: "0 < ?n" by (simp add: page_limit_def)
  have wf: "\<forall>w\<in>set ws. comments_wf w" using assms(3) by simp
  obtain rows b where walk: "comment_pager.walk pid ?n ws None = (rows, b)" by fastforce
  have "cs = map scan_comment rows \<and> b"
  proof (rule client_walk_pager [OF comment_pager.keyset_pager_axioms n assms(1,2) _ _ wf _ assms(4)])
    show "cursor_decode unmarshal [] = Inr (0, [])" by (simp add: cursor_decode_def)
    show "comment_pager.walk pid ?n ws (cursor_opt (0, [])) = (rows, b)" by (simp add: cursor_opt_def walk)
    show "snd (comment_key x) \<noteq> []" if "comments_wf w" "x \<in> set (sort_key comment_key (comments_of pid w))" for w and x :: comment_row
      using that by (auto simp: comments_wf_def comments_of_def comment_ok_def comment_key_def)
    show "fst (run_state (list_comments marshal unmarshal pid limit cur) w) \<in>
        {Inr (map scan_comment xs, case nx of None \<Rightarrow> [] | Some c \<Rightarrow> cursor_encode marshal c)} \<union> range Inl"
      if "cursor_decode unmarshal cur = Inr after" "comment_page pid w (cursor_opt after) ?n = (xs, nx)" for w cur after xs nx
      using that by (rule list_comments_answer)
  qed
  then have cs: "cs = map scan_comment rows" "b" by simp_all
  have sorted: "sorted_wrt (\<lambda>x y. comment_key x < comment_key y) rows"
    using comment_pager.walk_sorted [OF wf n, of pid None] walk by simp
  then have "sorted_wrt (\<lambda>x y. c_at x \<le> c_at y) rows"
    by (rule sorted_wrt_mono_rel [rotated]) (auto simp: comment_key_def less_prod_def)
  then have "sorted (map comment_at cs)"
    unfolding cs sorted_map by (auto simp: sorted_wrt_map scan_comment_def unix_def elim!: sorted_wrt_mono_rel [rotated] intro: zdiv_mono1)
  moreover have "count_list rows c = 1"
    using comment_pager.walk_once [OF wf n, of pid c] cs(2) walk assms(3) by simp
  moreover have "x = c" if "x \<in> set rows" "c_id x = c_id c" for x
  proof -
    have "\<exists>w\<in>set ws. x \<in> set (comments_of pid w)"
      using comment_pager.walk_rows [OF wf n, of x pid None] walk that(1) by simp
    then obtain w where "w \<in> set ws" "x \<in> set (t_comments (db w))" "c \<in> set (t_comments (db w))" "comments_wf w"
      using assms(3) by (auto simp: comments_of_def)
    then show ?thesis using that(2) by (auto simp: comments_wf_def distinct_map inj_on_def)
  qed
  then have "count_list (map c_id xs) (c_id c) = count_list xs c" if "set xs \<subseteq> set rows" for xs
    using that by (induction xs) auto
  moreover have "map comment_id cs = map c_id rows" unfolding cs by (simp add: scan_comment_def)
  ultimately have "count_list (map comment_id cs) (c_id c) = 1" "sorted (map comment_at cs)" by simp_all
  then show ?thesis by simp
qed

section \<open>A small instance\<close>

definition demo_comment :: comment_row where
  "demo_comment = \<lparr>c_id = ''c1'', c_post = ''p1'', c_parent = None, c_root = ''c1'', c_depth = 0, c_user = ''bob'',
     c_content = ''hello'', c_at = 7, c_deleted_at = None\<rparr>"

definition demo_thread :: world where
  "demo_thread = quiet_world\<lparr>db := empty_db\<lparr>t_posts := [new_row demo_post], t_comments := [demo_comment]\<rparr>, red := empty_redis\<rparr>"

lemma demo_thread_ok: "comments_wf demo_thread" "comments_of ''p1'' demo_thread = [demo_comment]" "shd (uuids demo_thread) = ''id''"
  "next_out y demo_thread = Done" "db demo_thread = empty_db\<lparr>t_posts := [new_row demo_post], t_comments := [demo_comment]\<rparr>"
  "c_id demo_comment = ''c1''"
  by (simp_all add: demo_thread_def demo_comment_def comments_wf_def comment_ok_def comments_of_def quiet_world_def empty_db_def
      next_out_def)

lemma demo_thread_same: "after_call y demo_thread = demo_thread"
  by (simp add: after_call_def demo_thread_def quiet_world_def fun_eq_iff)

theorem comments_stay_trees_witness:
  "comments_wf (snd (run_state (add_comment ''p1'' ''c1'' ''ann'' ''hi'') demo_thread))"
proof -
  let ?r = "run_state (add_comment ''p1'' ''c1'' ''ann'' ''hi'') demo_thread"
  have "?r = (fst ?r, snd ?r)" by simp
  from comments_stay_trees [OF demo_thread_ok(1) _ this] show ?thesis by (simp add: demo_thread_ok)
qed

theorem paging_sees_comments_once_witness:
  "count_list (map comment_id (fst (client_walk (list_comments demo_marshal demo_unmarshal ''p1'' 10) [demo_thread] []))) ''c1'' = 1"
proof -
  let ?c = "client_walk (list_comments demo_marshal demo_unmarshal ''p1'' 10) [demo_thread] []"
  have "run_state (list_comments demo_marshal demo_unmarshal ''p1'' 10 []) demo_thread =
    (Inr ([scan_comment demo_comment], []), demo_thread)"
    by (simp add: list_comments_def cursor_decode_def cursor_opt_def page_limit_def post_owner_def run_tryE ext_call_def run_pg_query
        select_asc_def after_cursor_def cut_page_def demo_thread_ok(2,4,5) demo_thread_same new_row_def demo_post_def blank_post_def live_def)
  then have "?c = (fst ?c, True)" by simp
  from paging_sees_comments_once [OF demo_json _ this, of demo_comment]
  show ?thesis by (simp add: demo_thread_ok)
qed

end
