(* ===== verification/Indexer.thy ===== *)
theory Indexer
  imports Posts SocialGraph
begin

text \<open>
  \<open>services/indexer/worker/indexer.go\<close> and \<open>IndexVersioned\<close> of \<open>shared/backend/elasticsearch.go\<close>: the
  search projection of the posts table.  The index keeps, for every post, a document and its
  external version.  The embedding model is the argument \<open>x_model\<close> (\<open>None\<close>: no OpenAI back end).
\<close>

section \<open>The operations\<close>

record indexer =
  x_model :: "(string \<Rightarrow> 32 word list) option"

text \<open>\<open>postRow\<close>.\<close>

record index_row =
  x_id :: string
  x_user :: string
  x_message :: string
  x_type :: string
  x_at :: int
  x_deleted :: bool
  x_embedding :: "32 word list option"
  x_version :: int

definition scan_index_row :: "post_row \<Rightarrow> index_row" where
  "scan_index_row r = \<lparr>x_id = p_id r, x_user = p_user r, x_message = p_message r, x_type = p_type r, x_at = p_at r,
     x_deleted = (p_deleted_at r \<noteq> None), x_embedding = p_embedding r, x_version = p_version r\<rparr>"

definition load_row :: "string \<Rightarrow> index_row io" where
  "load_row i = ext_call PG (\<lambda>w.
     (case find_post i w of None \<Rightarrow> Inl ErrNoRows | Some r \<Rightarrow> Inr (scan_index_row r), w))"

definition get_embedding :: "(string \<Rightarrow> 32 word list) \<Rightarrow> string \<Rightarrow> 32 word list io" where
  "get_embedding f msg = ext_call OpenAI (\<lambda>w. (Inr (f msg), w))"

definition with_embedding :: "32 word list \<Rightarrow> post_row \<Rightarrow> post_row" where
  "with_embedding emb r = r\<lparr>p_embedding := Some emb, p_version := p_version r + 1\<rparr>"

definition store_embedding :: "string \<Rightarrow> 32 word list \<Rightarrow> int io" where
  "store_embedding i emb = ext_call PG (\<lambda>w.
     case find_post i w of
       None \<Rightarrow> (Inl ErrNoRows, w)
     | Some r \<Rightarrow> if p_embedding r = None \<and> live r
         then (Inr (p_version r + 1), upd_posts (update_where (\<lambda>r. p_id r = i) (with_embedding emb)) w)
         else (Inl ErrNoRows, w))"

definition embed_row :: "(string \<Rightarrow> 32 word list) \<Rightarrow> index_row \<Rightarrow> index_row io" where
  "embed_row f row = handleE (get_embedding f (x_message row)) (\<lambda>_. ret row) (\<lambda>emb.
     handleE (store_embedding (x_id row) emb)
       (\<lambda>e. if e = ErrNoRows then load_row (x_id row) else fail e)
       (\<lambda>version. ret (row\<lparr>x_embedding := Some emb, x_version := version\<rparr>)))"

text \<open>The document, a tombstone when the post is deleted.\<close>

definition doc_of :: "index_row \<Rightarrow> search_doc" where
  "doc_of row = \<lparr>d_id = x_id row, d_user = x_user row, d_message = (if x_deleted row then [] else x_message row),
     d_type = x_type row, d_at = x_at row, d_embedding = (if x_deleted row then None else x_embedding row),
     d_deleted = x_deleted row\<rparr>"

text \<open>Elasticsearch keeps a document only if its version is higher than the one it has; the result tells
  whether it did.\<close>

definition put_doc :: "string \<Rightarrow> search_doc \<times> int \<Rightarrow> world \<Rightarrow> world" where
  "put_doc i x w = w\<lparr>index := (index w)(i := Some x)\<rparr>"

definition index_versioned :: "string \<Rightarrow> search_doc \<Rightarrow> int \<Rightarrow> bool io" where
  "index_versioned i doc v = ext_call Search (\<lambda>w.
     case index w i of
       None \<Rightarrow> (Inr True, put_doc i (doc, v) w)
     | Some (_, v') \<Rightarrow> if v' \<ge> v then (Inr False, w) else (Inr True, put_doc i (doc, v) w))"

definition embed_if_needed :: "indexer \<Rightarrow> index_row \<Rightarrow> index_row io" where
  "embed_if_needed x row =
     (if \<not> x_deleted row \<and> x_embedding row = None \<and> x_message row \<noteq> []
      then (case x_model x of None \<Rightarrow> ret row | Some f \<Rightarrow> embed_row f row)
      else ret row)"

definition sync :: "indexer \<Rightarrow> string \<Rightarrow> unit io" where
  "sync x i = handleE (load_row i) (\<lambda>e. if e = ErrNoRows then ret () else fail e) (\<lambda>row0.
     tryE (embed_if_needed x row0) (\<lambda>row.
     tryE (index_versioned (x_id row) (doc_of row) (x_version row)) (\<lambda>_. ret ())))"

text \<open>\<open>Handle\<close>: \<open>None\<close> is a payload that does not decode.\<close>

definition handle :: "indexer \<Rightarrow> event option \<Rightarrow> unit io" where
  "handle x ev = (case ev of None \<Rightarrow> fail ErrIO
     | Some e \<Rightarrow> if ev_post e = [] then fail ErrIO else sync x (ev_post e))"

text \<open>The loops over the ids: how many were written, and the error that stopped the loop.\<close>

fun sync_ids :: "indexer \<Rightarrow> string list \<Rightarrow> int \<Rightarrow> (world, int \<times> err option) state" where
  "sync_ids x [] n = State_Monad.return (n, None)"
| "sync_ids x (i # is1) n = Monad_Syntax.bind (sync x i) (\<lambda>r. case r of
       Inl e \<Rightarrow> State_Monad.return (n, Some e)
     | Inr _ \<Rightarrow> sync_ids x is1 (n + 1))"

definition missing_ids :: "int \<Rightarrow> world \<Rightarrow> string list" where
  "missing_ids limit w = map p_id (take (nat limit)
     (sort_desc p_at (filter (\<lambda>r. p_embedding r = None \<and> live r \<and> p_message r \<noteq> []) (t_posts (db w)))))"

definition repair_missing_embeddings :: "indexer \<Rightarrow> int \<Rightarrow> int io" where
  "repair_missing_embeddings x limit =
     (if x_model x = None then ret 0
      else if limit < 0 then fail ErrIO
      else tryE (pg_query (missing_ids limit)) (\<lambda>ids.
        Monad_Syntax.bind (sync_ids x ids 0) (\<lambda>(n, e). case e of
          Some e' \<Rightarrow> fail e' | None \<Rightarrow> ret (int (length ids)))))"

text \<open>\<open>Reindex\<close>, one page per unit of fuel; \<open>None\<close> when the fuel runs out.  A page size of 0 panics on
  the empty page, a negative one is refused by the database.\<close>

fun reindex_loop :: "nat \<Rightarrow> indexer \<Rightarrow> int \<Rightarrow> string \<Rightarrow> int \<Rightarrow> (world, (int \<times> err option) option) state" where
  "reindex_loop 0 x size1 after n = State_Monad.return None"
| "reindex_loop (Suc fuel) x size1 after n =
     (if size1 < 0 then State_Monad.return (Some (n, Some ErrIO))
      else Monad_Syntax.bind (pg_query (\<lambda>w. map p_id (select_asc p_id (Some after) size1 (t_posts (db w))))) (\<lambda>r. case r of
       Inl e \<Rightarrow> State_Monad.return (Some (n, Some e))
     | Inr ids \<Rightarrow> Monad_Syntax.bind (sync_ids x ids n) (\<lambda>(n', e). case e of
           Some e' \<Rightarrow> State_Monad.return (Some (n', Some e'))
         | None \<Rightarrow> if int (length ids) < size1 then State_Monad.return (Some (n', None))
                   else if ids = [] then State_Monad.return (Some (n', Some ErrPanic))
                   else reindex_loop fuel x size1 (last ids) n')))"

definition reindex :: "nat \<Rightarrow> indexer \<Rightarrow> int \<Rightarrow> (world, (int \<times> err option) option) state" where
  "reindex fuel x size1 = reindex_loop fuel x size1 [] 0"

section \<open>How the posts table changes\<close>

text \<open>The columns a document is built from change only together with the version; the others of them never.\<close>

definition row_evolves :: "post_row \<Rightarrow> post_row \<Rightarrow> bool" where
  "row_evolves r r' \<longleftrightarrow> p_id r' = p_id r \<and> p_user r' = p_user r \<and> p_message r' = p_message r \<and> p_type r' = p_type r \<and>
     p_at r' = p_at r \<and> p_version r \<le> p_version r' \<and> (\<not> live r \<longrightarrow> \<not> live r') \<and>
     (p_version r' = p_version r \<longrightarrow> scan_index_row r' = scan_index_row r)"

definition posts_evolve :: "world \<Rightarrow> world \<Rightarrow> bool" where
  "posts_evolve w w' \<longleftrightarrow> (\<forall>i r. find_post i w = Some r \<longrightarrow> (\<exists>r'. find_post i w' = Some r' \<and> row_evolves r r'))"

lemma row_evolves_refl: "row_evolves r r"
  by (simp add: row_evolves_def)

lemma row_evolves_trans: "row_evolves r s \<Longrightarrow> row_evolves s t \<Longrightarrow> row_evolves r t"
  unfolding row_evolves_def by auto

lemma posts_evolve_same: "t_posts (db w') = t_posts (db w) \<Longrightarrow> posts_evolve w w'"
  by (simp add: posts_evolve_def find_post_def row_evolves_refl)

lemma posts_evolve_trans: "posts_evolve u v \<Longrightarrow> posts_evolve v w \<Longrightarrow> posts_evolve u w"
  unfolding posts_evolve_def by (meson row_evolves_trans)

lemma find_update_general:
  assumes "\<And>r. P r \<Longrightarrow> key (f r) = key r"
  shows "find (\<lambda>r. key r = i) (update_where P f rows) = map_option (\<lambda>r. if P r then f r else r) (find (\<lambda>r. key r = i) rows)"
  using assms by (induction rows) (auto simp: update_where_def)

lemma posts_evolve_update:
  assumes "\<And>r. P r \<Longrightarrow> row_evolves r (f r)"
  shows "posts_evolve w (upd_posts (update_where P f) w)"
proof -
  have "find_post i (upd_posts (update_where P f) w) = map_option (\<lambda>r. if P r then f r else r) (find_post i w)" for i
    unfolding find_post_def db_upd_posts
    by (rule find_update_general [where key = p_id]) (use assms in \<open>simp add: row_evolves_def\<close>)
  then show ?thesis using assms row_evolves_refl by (auto simp: posts_evolve_def)
qed

lemma posts_evolve_insert: "posts_evolve w (upd_posts (\<lambda>rows. rows @ [r]) w)"
proof -
  have "find Q (xs @ ys) = (case find Q xs of None \<Rightarrow> find Q ys | Some x \<Rightarrow> Some x)" for Q and xs ys :: "post_row list"
    by (induction xs) auto
  then show ?thesis by (simp add: posts_evolve_def find_post_def row_evolves_refl)
qed

text \<open>Every statement of the services that writes the table evolves it: the insert of a post, the soft
  delete, the counters, the clean-up state and the embedding.\<close>

lemma posts_statements_evolve:
  "posts_evolve w (upd_posts (\<lambda>rows. rows @ [new_row p]) w)"
  "posts_evolve w (upd_posts (update_where P (soft_delete t)) w)"
  "posts_evolve w (upd_posts (update_where P (add_column field n)) w)"
  "posts_evolve w (upd_posts (update_where P (\<lambda>r. r\<lparr>p_cleanup := c, p_attempts := k r\<rparr>)) w)"
  "posts_evolve w (upd_posts (update_where P (with_embedding emb)) w)"
  by (rule posts_evolve_insert)
    (rule posts_evolve_update; simp add: row_evolves_def soft_delete_def add_column_def scan_index_row_def live_def with_embedding_def)+

section \<open>Indexers that run concurrently\<close>

text \<open>A world with the rows some indexer has read and may still write (once, twice or never).  Between
  two calls of an indexer anything else may happen, as long as the table evolves.\<close>

inductive index_step :: "world \<times> index_row set \<Rightarrow> world \<times> index_row set \<Rightarrow> bool" where
  others: "posts_evolve w w' \<Longrightarrow> index w' = index w \<Longrightarrow> index_step (w, F) (w', F)"
| load: "run_state (load_row i) w = (Inr row, w') \<Longrightarrow> index_step (w, F) (w', insert row F)"
| store: "row \<in> F \<Longrightarrow> \<not> x_deleted row \<Longrightarrow> run_state (store_embedding (x_id row) emb) w = (Inr v, w') \<Longrightarrow>
    index_step (w, F) (w', insert (row\<lparr>x_embedding := Some emb, x_version := v\<rparr>) F)"
| emit: "row \<in> F \<Longrightarrow> run_state (index_versioned (x_id row) (doc_of row) (x_version row)) w = (r, w') \<Longrightarrow>
    index_step (w, F) (w', F)"

inductive index_run :: "world \<times> index_row set \<Rightarrow> world \<times> index_row set \<Rightarrow> bool" where
  refl: "index_run s s"
| step: "index_run s t \<Longrightarrow> index_step t u \<Longrightarrow> index_run s u"

text \<open>The versions that are in the index or on their way to it.\<close>

definition seen :: "world \<Rightarrow> index_row set \<Rightarrow> (string \<times> int \<times> search_doc) set" where
  "seen w F = (\<lambda>row. (x_id row, x_version row, doc_of row)) ` F \<union> {(i, v, doc). index w i = Some (doc, v)}"

definition behind :: "world \<Rightarrow> string \<times> int \<times> search_doc \<Rightarrow> bool" where
  "behind w = (\<lambda>(i, v, doc). \<exists>r. find_post i w = Some r \<and> v \<le> p_version r \<and>
     (v = p_version r \<longrightarrow> doc = doc_of (scan_index_row r)) \<and> (d_deleted doc \<longrightarrow> \<not> live r))"

definition index_ok :: "world \<Rightarrow> bool" where
  "index_ok w \<longleftrightarrow> (\<forall>i doc v. index w i = Some (doc, v) \<longrightarrow> behind w (i, v, doc))"

text \<open>Of two versions of a post the later one is deleted if the earlier one is, and equal versions are equal.\<close>

definition in_order :: "(string \<times> int \<times> search_doc) set \<Rightarrow> bool" where
  "in_order S \<longleftrightarrow> (\<forall>i v doc v' doc'. (i, v, doc) \<in> S \<and> (i, v', doc') \<in> S \<and> v \<le> v' \<longrightarrow>
     (d_deleted doc \<longrightarrow> d_deleted doc') \<and> (v = v' \<longrightarrow> doc = doc'))"

definition fields_match :: "world \<Rightarrow> index_row \<Rightarrow> bool" where
  "fields_match w row \<longleftrightarrow> (\<forall>r. find_post (x_id row) w = Some r \<longrightarrow> x_user row = p_user r \<and>
     x_message row = p_message r \<and> x_type row = p_type r \<and> x_at row = p_at r)"

definition index_inv :: "world \<Rightarrow> index_row set \<Rightarrow> bool" where
  "index_inv w F \<longleftrightarrow> Ball (seen w F) (behind w) \<and> in_order (seen w F) \<and> Ball F (fields_match w)"

lemma find_post_after [simp]: "find_post i (after_call y w) = find_post i w"
  by (simp add: find_post_def)

lemma find_post_id: "find_post i w = Some r \<Longrightarrow> p_id r = i"
  unfolding find_post_def by (auto dest: find_in_set)

lemma d_deleted_doc [simp]: "d_deleted (doc_of row) = x_deleted row"
  by (simp add: doc_of_def)

lemma scan_simps [simp]: "x_id (scan_index_row r) = p_id r" "x_version (scan_index_row r) = p_version r"
  "x_deleted (scan_index_row r) = (\<not> live r)"
  by (simp_all add: scan_index_row_def live_def)

lemma behind_evolve:
  assumes "behind w (i, v, doc)" "posts_evolve w w'"
  shows "behind w' (i, v, doc)"
proof -
  obtain r where r: "find_post i w = Some r" "v \<le> p_version r" "v = p_version r \<longrightarrow> doc = doc_of (scan_index_row r)"
    "d_deleted doc \<longrightarrow> \<not> live r" using assms(1) by (auto simp: behind_def)
  then obtain r' where r': "find_post i w' = Some r'" "row_evolves r r'" using assms(2) by (auto simp: posts_evolve_def)
  then show ?thesis using r unfolding row_evolves_def by (auto simp: behind_def)
qed

lemma index_inv_others:
  assumes inv: "index_inv w F" and ev: "posts_evolve w w'" and ix: "index w' = index w"
  shows "index_inv w' F"
proof -
  have seen: "seen w' F = seen w F" by (simp add: seen_def ix)
  have beh: "Ball (seen w F) (behind w')"
  proof
    fix s assume "s \<in> seen w F"
    then have "behind w s" using inv by (simp add: index_inv_def)
    then show "behind w' s" using behind_evolve [OF _ ev] by (cases s) blast
  qed
  have "fields_match w' row" if row: "row \<in> F" for row
  proof -
    have "behind w (x_id row, x_version row, doc_of row)" using inv row by (simp add: index_inv_def seen_def)
    then obtain r where r: "find_post (x_id row) w = Some r" by (auto simp: behind_def)
    then obtain r' where "find_post (x_id row) w' = Some r'" "row_evolves r r'"
      using ev by (auto simp: posts_evolve_def)
    moreover have "fields_match w row" using inv row by (simp add: index_inv_def)
    ultimately show ?thesis using r by (simp add: fields_match_def row_evolves_def)
  qed
  then show ?thesis using inv beh by (simp add: index_inv_def seen)
qed

text \<open>A row that matches the table may be taken up.\<close>

lemma in_order_insert:
  assumes "in_order S" "\<And>v' doc'. (i, v', doc') \<in> S \<Longrightarrow> v' \<le> v \<and> (d_deleted doc' \<longrightarrow> d_deleted doc) \<and> (v' = v \<longrightarrow> doc' = doc)"
  shows "in_order (insert (i, v, doc) S)"
  unfolding in_order_def
proof (intro allI impI, elim conjE)
  fix j a d b e
  assume m: "(j, a, d) \<in> insert (i, v, doc) S" "(j, b, e) \<in> insert (i, v, doc) S" and le: "a \<le> b"
  show "(d_deleted d \<longrightarrow> d_deleted e) \<and> (a = b \<longrightarrow> d = e)"
  proof (cases "(j, a, d) = (i, v, doc)")
    case True
    then show ?thesis using m(2) le assms(2) [of b e] by auto
  next
    case a: False
    show ?thesis
    proof (cases "(j, b, e) = (i, v, doc)")
      case True
      then show ?thesis using m(1) a assms(2) [of a d] by auto
    next
      case False
      then have "(j, a, d) \<in> S" "(j, b, e) \<in> S" using a m by blast+
      then show ?thesis using assms(1) le unfolding in_order_def by blast
    qed
  qed
qed

lemma index_inv_insert:
  assumes inv: "index_inv w F" and r: "find_post (x_id row) w = Some r" and ver: "x_version row = p_version r"
    and doc: "doc_of row = doc_of (scan_index_row r)"
    and fields: "x_user row = p_user r" "x_message row = p_message r" "x_type row = p_type r" "x_at row = p_at r"
  shows "index_inv w (insert row F)"
proof -
  let ?s = "(x_id row, x_version row, doc_of row)"
  have seen: "seen w (insert row F) = insert ?s (seen w F)" by (auto simp: seen_def)
  have d: "d_deleted (doc_of row) = (\<not> live r)" unfolding doc by simp
  have beh: "behind w ?s" using r ver doc d by (simp add: behind_def)
  have "in_order (insert ?s (seen w F))"
  proof (rule in_order_insert)
    show "in_order (seen w F)" using inv by (simp add: index_inv_def)
    fix v doc'
    assume "(x_id row, v, doc') \<in> seen w F"
    then have "behind w (x_id row, v, doc')" using inv by (auto simp: index_inv_def)
    then have "v \<le> p_version r" "v = p_version r \<longrightarrow> doc' = doc_of (scan_index_row r)" "d_deleted doc' \<longrightarrow> \<not> live r"
      using r by (auto simp: behind_def)
    then show "v \<le> x_version row \<and> (d_deleted doc' \<longrightarrow> d_deleted (doc_of row)) \<and> (v = x_version row \<longrightarrow> doc' = doc_of row)"
      using ver doc d by auto
  qed
  moreover have "fields_match w row" using r fields by (simp add: fields_match_def)
  ultimately show ?thesis using inv beh by (simp add: index_inv_def seen)
qed

lemma index_inv_shrink:
  assumes "index_inv w F" "seen w' F \<subseteq> seen w F" "t_posts (db w') = t_posts (db w)"
  shows "index_inv w' F"
proof -
  have "behind w' = behind w" "fields_match w' = fields_match w"
    using assms(3) by (simp_all add: behind_def fields_match_def find_post_def fun_eq_iff)
  moreover have "in_order (seen w' F)" using assms(1,2) unfolding index_inv_def in_order_def by blast
  ultimately show ?thesis using assms(1,2) by (auto simp: index_inv_def)
qed

lemma run_load_row:
  assumes "run_state (load_row i) w = (r, w')"
  shows "w' = after_call PG w \<and> (case r of Inr row \<Rightarrow> (\<exists>p. find_post i w = Some p \<and> row = scan_index_row p)
    | Inl e \<Rightarrow> True)"
  using assms by (auto simp: load_row_def ext_call_def split: outcome.splits option.splits)

lemma find_post_update:
  assumes "\<And>r. p_id (f r) = p_id r"
  shows "find_post j (upd_posts (update_where (\<lambda>r. p_id r = i) f) w) = (if j = i then map_option f (find_post j w) else find_post j w)"
proof -
  have "find_post j (upd_posts (update_where (\<lambda>r. p_id r = i) f) w) =
      map_option (\<lambda>r. if p_id r = i then f r else r) (find_post j w)"
    unfolding find_post_def db_upd_posts by (rule find_update_general) (rule assms)
  then show ?thesis using find_post_id [of j w] by (cases "j = i"; cases "find_post j w") auto
qed

lemma index_upd_posts [simp]: "index (upd_posts f w) = index w"
  by (simp add: upd_posts_def)

lemma p_id_with_embedding [simp]: "p_id (with_embedding emb r) = p_id r"
  by (simp add: with_embedding_def)

lemma run_store_embedding:
  assumes "run_state (store_embedding i emb) w = (r, w')"
  shows "posts_evolve w w' \<and> index w' = index w \<and> (\<forall>v. r = Inr v \<longrightarrow> (\<exists>p. find_post i w = Some p \<and>
    find_post i w' = Some (with_embedding emb p) \<and> v = p_version p + 1 \<and> live p))"
proof -
  let ?u = "after_call PG w"
  have ev: "posts_evolve w (upd_posts (update_where P (with_embedding emb)) ?u)" for P
    by (rule posts_evolve_trans [OF posts_evolve_same posts_statements_evolve(5)]) simp
  have same: "posts_evolve w ?u" by (rule posts_evolve_same) simp
  show ?thesis using assms ev same
    by (auto simp: store_embedding_def ext_call_def find_post_update split: outcome.splits option.splits if_splits)
qed

lemma run_index_versioned:
  assumes "run_state (index_versioned i doc v) w = (r, w')"
  shows "db w' = db w \<and> (index w' = index w \<or>
    (index w' = (index w)(i := Some (doc, v)) \<and> (\<forall>d u. index w i = Some (d, u) \<longrightarrow> u < v)))"
  using assms by (auto simp: index_versioned_def ext_call_def put_doc_def split: outcome.splits option.splits if_splits)

lemma index_step_inv:
  assumes "index_step s t" "index_inv (fst s) (snd s)"
  shows "index_inv (fst t) (snd t)"
  using assms
proof cases
  case (others w w' F)
  then show ?thesis using assms(2) index_inv_others by auto
next
  case (load i w row w' F)
  from run_load_row [OF load(3)] obtain p where p: "w' = after_call PG w" "find_post i w = Some p" "row = scan_index_row p"
    by auto
  have "index_inv w' F"
    by (rule index_inv_others [of w]) (use assms(2) load(1) p(1) in \<open>simp_all add: posts_evolve_same\<close>)
  then have "index_inv w' (insert row F)"
    by (rule index_inv_insert [where r = p]) (use p find_post_id in \<open>auto simp: scan_index_row_def\<close>)
  then show ?thesis using load(2) by simp
next
  case (store row F emb w v w')
  from run_store_embedding [OF store(5)] obtain p where p: "posts_evolve w w'" "index w' = index w"
    "find_post (x_id row) w = Some p" "find_post (x_id row) w' = Some (with_embedding emb p)" "v = p_version p + 1" "live p"
    by auto
  have inv: "index_inv w F" using assms(2) store(1) by simp
  then have m: "fields_match w row" using store(3) by (simp add: index_inv_def)
  have "index_inv w' (insert (row\<lparr>x_embedding := Some emb, x_version := v\<rparr>) F)"
    by (rule index_inv_insert [OF index_inv_others [OF inv p(1,2)], where r = "with_embedding emb p"])
      (use p m store(4) find_post_id [OF p(3)] in
        \<open>simp_all add: fields_match_def doc_of_def with_embedding_def scan_index_row_def live_def\<close>)
  then show ?thesis using store(2) by simp
next
  case (emit row F w r w')
  from run_index_versioned [OF emit(4)]
  have "seen w' F \<subseteq> seen w F" "db w' = db w" using emit(3) by (auto simp: seen_def split: if_splits)
  then show ?thesis using assms(2) emit(1,2) by (auto intro: index_inv_shrink)
qed

text \<open>The entry of a post never goes back: its version grows, or the entry stays as it is; and a tombstone
  stays a tombstone.\<close>

definition index_grows :: "world \<Rightarrow> world \<Rightarrow> bool" where
  "index_grows w w' \<longleftrightarrow> (\<forall>i doc v. index w i = Some (doc, v) \<longrightarrow> (\<exists>doc' v'. index w' i = Some (doc', v') \<and>
     v \<le> v' \<and> (v = v' \<longrightarrow> doc = doc') \<and> (d_deleted doc \<longrightarrow> d_deleted doc')))"

lemma index_grows_trans: "index_grows u v \<Longrightarrow> index_grows v w \<Longrightarrow> index_grows u w"
  unfolding index_grows_def by (smt (verit, best) order_antisym order_trans)

lemma index_grows_same: "index w' = index w \<Longrightarrow> index_grows w w'"
  by (simp add: index_grows_def)

lemma index_step_grows:
  assumes "index_step s t" "index_inv (fst s) (snd s)"
  shows "index_grows (fst s) (fst t)"
  using assms
proof cases
  case (emit row F w r w')
  show ?thesis unfolding index_grows_def
  proof (intro allI impI)
    fix i doc v
    assume old: "index (fst s) i = Some (doc, v)"
    then have old: "index w i = Some (doc, v)" using emit(1) by simp
    show "\<exists>doc' v'. index (fst t) i = Some (doc', v') \<and> v \<le> v' \<and> (v = v' \<longrightarrow> doc = doc') \<and> (d_deleted doc \<longrightarrow> d_deleted doc')"
    proof (cases "index w' i = index w i")
      case True
      then show ?thesis using old emit(2) by simp
    next
      case False
      then have i: "i = x_id row" "index w' i = Some (doc_of row, x_version row)" "v < x_version row"
        using run_index_versioned [OF emit(4)] old by (auto split: if_splits)
      have "(i, v, doc) \<in> seen w F" "(i, x_version row, doc_of row) \<in> seen w F"
        using old emit(3) i(1) by (auto simp: seen_def)
      then have "d_deleted doc \<longrightarrow> d_deleted (doc_of row)"
        using assms(2) emit(1) i(3) unfolding index_inv_def in_order_def by fastforce
      then show ?thesis using i emit(2) by auto
    qed
  qed
next
  case (load i w row w' F)
  then show ?thesis using run_load_row [OF load(3)] by (simp add: index_grows_same)
next
  case (store row F emb w v w')
  then show ?thesis using run_store_embedding [OF store(5)] by (simp add: index_grows_same)
qed (simp add: index_grows_same)

lemma index_run_inv:
  assumes "index_run s t" "index_inv (fst s) (snd s)"
  shows "index_inv (fst t) (snd t) \<and> index_grows (fst s) (fst t)"
  using assms
proof induction
  case refl
  then show ?case by (simp add: index_grows_same)
next
  case (step s t u)
  then show ?case using index_step_inv index_step_grows index_grows_trans by blast
qed

lemma index_inv_start: "index_ok w \<Longrightarrow> index_inv w {}"
  unfolding index_inv_def index_ok_def in_order_def seen_def by auto

text \<open>C26. However many indexers run concurrently, with whatever events, duplicates, retries and failures: the
  index only moves forward.  It never holds a newer version of a post than the table, at the same version
  it holds exactly the document of the row, and the tombstone of a deleted post is never replaced by a
  live document, however late an old event is processed.\<close>

theorem index_moves_forward:
  assumes "index_ok w" "index_run (w, {}) (v, F)" "index_run (v, F) (w', F')"
  shows "index_ok w' \<and> index_grows v w'"
proof -
  have "index_inv v F" using index_run_inv [OF assms(2)] index_inv_start [OF assms(1)] by simp
  then have "index_inv w' F'" "index_grows v w'" using index_run_inv [OF assms(3)] by simp_all
  moreover from this(1) have "index_ok w'" by (auto simp: index_inv_def index_ok_def seen_def)
  ultimately show ?thesis by simp
qed

section \<open>One indexer\<close>

text \<open>\<open>Sync\<close> is such a run, whatever calls fail.\<close>

lemma index_run_step: "index_run s t \<Longrightarrow> index_step t u \<Longrightarrow> index_run s u"
  by (rule index_run.step)

definition runs :: "world \<times> index_row set \<Rightarrow> index_row set \<Rightarrow> world \<Rightarrow> bool" where
  "runs s R v \<longleftrightarrow> (\<exists>F. R \<subseteq> F \<and> index_run s (v, F))"

lemma runs_same:
  assumes "runs s R w" "t_posts (db v) = t_posts (db w)" "index v = index w"
  shows "runs s R v"
  using assms unfolding runs_def by (blast intro: index_run_step others posts_evolve_same)

lemma wp_load_row:
  assumes "runs s R w"
  shows "wp (load_row i) (\<lambda>r v. runs s (case r of Inl _ \<Rightarrow> R | Inr row \<Rightarrow> insert row R) v \<and>
    (\<forall>row. r = Inr row \<longrightarrow> x_id row = i)) w"
proof (rule wp_state, goal_cases)
  case (1 r v)
  note run = run_load_row [OF 1]
  show ?case
  proof (cases r)
    case (Inl e)
    then show ?thesis using run runs_same [OF assms] by simp
  next
    case (Inr row)
    obtain F where F: "R \<subseteq> F" "index_run s (w, F)" using assms by (auto simp: runs_def)
    have "index_run s (v, insert row F)" by (rule index_run_step [OF F(2) load]) (use 1 Inr in simp)
    then show ?thesis using F(1) Inr run find_post_id by (auto simp: runs_def)
  qed
qed

lemma wp_store_embedding:
  assumes "runs s R w" "row \<in> R" "\<not> x_deleted row"
  shows "wp (store_embedding (x_id row) emb) (\<lambda>r v. runs s (case r of Inl _ \<Rightarrow> R
     | Inr n \<Rightarrow> insert (row\<lparr>x_embedding := Some emb, x_version := n\<rparr>) R) v) w"
proof (rule wp_state, goal_cases)
  case (1 r v)
  obtain F where F: "R \<subseteq> F" "index_run s (w, F)" using assms by (auto simp: runs_def)
  show ?case
  proof (cases r)
    case (Inl e)
    have "index_run s (v, F)" by (rule index_run_step [OF F(2) others]) (use run_store_embedding [OF 1] in simp_all)
    then show ?thesis using F(1) Inl by (auto simp: runs_def)
  next
    case (Inr n)
    have "index_run s (v, insert (row\<lparr>x_embedding := Some emb, x_version := n\<rparr>) F)"
      by (rule index_run_step [OF F(2) store]) (use F(1) assms(2,3) 1 Inr in auto)
    then show ?thesis using F(1) Inr by (auto simp: runs_def)
  qed
qed

lemma wp_index_versioned:
  assumes "runs s R w" "row \<in> R"
  shows "wp (index_versioned (x_id row) (doc_of row) (x_version row)) (\<lambda>r v. runs s R v) w"
proof (rule wp_state, goal_cases)
  case (1 r v)
  obtain F where F: "R \<subseteq> F" "index_run s (w, F)" using assms by (auto simp: runs_def)
  have "index_run s (v, F)" by (rule index_run_step [OF F(2) emit]) (use F(1) assms(2) 1 in auto)
  then show ?case using F(1) by (auto simp: runs_def)
qed

lemma wp_embed_if_needed:
  assumes "runs s R w" "row \<in> R"
  shows "wp (embed_if_needed x row) (\<lambda>r v. runs s (case r of Inl _ \<Rightarrow> R | Inr row' \<Rightarrow> insert row' R) v) w"
proof -
  have keep: "insert row R = R" using assms(2) by auto
  show ?thesis
  proof (cases "\<not> x_deleted row \<and> x_embedding row = None \<and> x_message row \<noteq> [] \<and> x_model x \<noteq> None")
    case False
    then show ?thesis using assms keep by (auto simp: embed_if_needed_def wp_ret split: option.split)
  next
    case True
    then obtain f where f: "x_model x = Some f" "\<not> x_deleted row" by auto
    have eq: "embed_if_needed x row = embed_row f row" using True f by (simp add: embed_if_needed_def)
    have open_ai: "wp (get_embedding f (x_message row)) (\<lambda>r v. runs s R v) w"
      using runs_same [OF assms(1)] by (simp add: get_embedding_def wp_ext_call split: outcome.split)
    show ?thesis unfolding eq embed_row_def
    proof (rule wp_handleI [OF open_ai], goal_cases)
      case (1 emb u)
      show ?case
      proof (rule wp_handleI [OF wp_store_embedding [OF 1 assms(2) f(2)]], goal_cases)
        case (1 n v)
        have "runs s (insert (row\<lparr>x_embedding := Some emb, x_version := n\<rparr>) R) v" using 1 by simp
        then show ?case by (simp add: wp_ret)
      next
        case (2 e v)
        then have "runs s R v" by simp
        then show ?case by (auto simp: wp_ret intro: wp_mono [OF wp_load_row])
      qed
    next
      case (2 e u)
      then show ?case using keep by (simp add: wp_ret)
    qed
  qed
qed

lemma wp_sync_runs: "runs s {} w \<Longrightarrow> wp (sync x i) (\<lambda>r v. runs s {} v) w"
proof -
  assume w: "runs s {} w"
  have drop: "runs s R v \<Longrightarrow> runs s {} v" for R v by (auto simp: runs_def)
  show ?thesis unfolding sync_def
  proof (rule wp_handleI [OF wp_load_row [OF w]], goal_cases)
    case (1 row0 u)
    then have "runs s {row0} u" by simp
    then show ?case
    proof (rule wp_tryI [OF wp_embed_if_needed [where row = row0]], goal_cases)
      case (2 row v)
      then have "runs s {row, row0} v" by (simp add: insert_commute)
      then show ?case by (rule wp_tryI [OF wp_index_versioned [where row = row]]) (auto simp: wp_ret intro: drop)
    qed (auto intro: drop)
  next
    case (2 e u)
    then show ?case by (simp add: wp_ret)
  qed
qed

section \<open>Rebuilding the index\<close>

text \<open>A post whose document is up to date.\<close>

definition indexed :: "world \<Rightarrow> string \<Rightarrow> bool" where
  "indexed w i \<longleftrightarrow> (\<forall>p. find_post i w = Some p \<longrightarrow> index w i = Some (doc_of (scan_index_row p), p_version p))"

definition row_read :: "string \<Rightarrow> index_row \<Rightarrow> world \<Rightarrow> bool" where
  "row_read i row w \<longleftrightarrow> x_id row = i \<and> (\<exists>p. find_post i w = Some p \<and> x_version row = p_version p \<and>
     doc_of row = doc_of (scan_index_row p) \<and> x_user row = p_user p \<and> x_message row = p_message p \<and>
     x_type row = p_type p \<and> x_at row = p_at p)"

text \<open>The effect of a step of \<open>Sync\<close> of post \<open>i\<close> when database and index answer.\<close>

definition sync_frame :: "string \<Rightarrow> world \<Rightarrow> world \<Rightarrow> bool" where
  "sync_frame i w v \<longleftrightarrow> index_ok v \<and> reliable PG v \<and> reliable Search v \<and>
     map p_id (t_posts (db v)) = map p_id (t_posts (db w)) \<and>
     (\<forall>j. j \<noteq> i \<longrightarrow> find_post j v = find_post j w \<and> index v j = index w j)"

lemma sync_frame_trans: "sync_frame i u v \<Longrightarrow> sync_frame i v w \<Longrightarrow> sync_frame i u w"
  unfolding sync_frame_def by auto

lemma index_ok_cong: "t_posts (db v) = t_posts (db w) \<Longrightarrow> index v = index w \<Longrightarrow> index_ok v = index_ok w"
  by (simp add: index_ok_def behind_def find_post_def)

lemma index_ok_evolve: "index_ok w \<Longrightarrow> posts_evolve w v \<Longrightarrow> index v = index w \<Longrightarrow> index_ok v"
  unfolding index_ok_def using behind_evolve by metis

lemma sync_frame_after: "index_ok w \<Longrightarrow> reliable PG w \<Longrightarrow> reliable Search w \<Longrightarrow> sync_frame i w (after_call y w)"
  by (simp add: sync_frame_def index_ok_cong [of "after_call y w" w])

lemma row_read_after [simp]: "row_read i row (after_call y w) = row_read i row w"
  by (simp add: row_read_def)

lemma row_read_scan: "find_post i w = Some p \<Longrightarrow> row_read i (scan_index_row p) w"
  using find_post_id [of i w p] by (simp add: row_read_def scan_index_row_def)

lemma wp_load_reliable:
  assumes "index_ok w" "reliable PG w" "reliable Search w"
  shows "wp (load_row i) (\<lambda>r v. sync_frame i w v \<and> t_posts (db v) = t_posts (db w) \<and> (case find_post i w of
     None \<Rightarrow> r = Inl ErrNoRows | Some p \<Rightarrow> r = Inr (scan_index_row p) \<and> row_read i (scan_index_row p) v)) w"
  using assms reliable_next [OF assms(2)] sync_frame_after [OF assms]
  by (auto simp: load_row_def wp_ext_call row_read_scan split: option.split)

lemma wp_embed_reliable:
  assumes "index_ok w" "reliable PG w" "reliable Search w" "row_read i row w"
  shows "wp (embed_if_needed x row) (\<lambda>r v. \<exists>row'. r = Inr row' \<and> row_read i row' v \<and> sync_frame i w v) w"
proof (cases "\<not> x_deleted row \<and> x_embedding row = None \<and> x_message row \<noteq> [] \<and> x_model x \<noteq> None")
  case False
  then show ?thesis using assms by (auto simp: embed_if_needed_def wp_ret sync_frame_def split: option.split)
next
  case True
  then obtain f where f: "x_model x = Some f" by auto
  have eq: "embed_if_needed x row = embed_row f row" using True f by (simp add: embed_if_needed_def)
  obtain p where p: "find_post i w = Some p" "x_version row = p_version p" "doc_of row = doc_of (scan_index_row p)"
    "x_user row = p_user p" "x_message row = p_message p" "x_type row = p_type p" "x_at row = p_at p" "x_id row = i"
    using assms(4) by (auto simp: row_read_def)
  have live: "live p" "p_embedding p = None"
    using True p(3) by (auto simp: doc_of_def scan_index_row_def live_def split: if_splits)
  have open_ai: "wp (get_embedding f (x_message row)) (\<lambda>r v. v = after_call OpenAI w) w"
    by (simp add: get_embedding_def wp_ext_call split: outcome.split)
  show ?thesis unfolding eq embed_row_def
  proof (rule wp_handleI [OF open_ai], goal_cases)
    case (1 emb u)
    define v where "v = upd_posts (update_where (\<lambda>r. p_id r = i) (with_embedding emb)) (after_call PG u)"
    have u: "find_post i u = Some p" "reliable PG u" "reliable Search u" "index_ok u" "sync_frame i w u"
      using p(1) assms(1-3) 1 sync_frame_after [OF assms(1-3)] by (auto simp: sync_frame_def)
    have fp: "find_post j v = (if j = i then Some (with_embedding emb p) else find_post j u)" for j
      unfolding v_def by (simp add: find_post_update u(1))
    have ev: "posts_evolve u v"
      unfolding v_def by (rule posts_evolve_trans [OF posts_evolve_same posts_statements_evolve(5)]) simp
    have "index_ok v" by (rule index_ok_evolve [OF u(4) ev]) (simp add: v_def)
    then have frame: "sync_frame i u v"
      using u(2,3) fp by (simp add: sync_frame_def) (simp add: v_def map_update_where)
    have "row_read i (row\<lparr>x_embedding := Some emb, x_version := p_version p + 1\<rparr>) v"
      unfolding row_read_def fp using p True live
      by (simp add: doc_of_def scan_index_row_def with_embedding_def live_def)
    then show ?case using u(1) live p(8) frame reliable_next [OF u(2)] sync_frame_trans [OF u(5)]
      by (simp add: wp_handleE store_embedding_def wp_ext_call v_def wp_ret)
  next
    case (2 e u)
    then show ?case using assms(4) sync_frame_after [OF assms(1-3)] by (simp add: wp_ret)
  qed
qed

lemma wp_sync_reliable:
  assumes "index_ok w" "reliable PG w" "reliable Search w"
  shows "wp (sync x i) (\<lambda>r v. r = Inr () \<and> sync_frame i w v \<and> indexed v i) w"
  unfolding sync_def
proof (rule wp_handleI [OF wp_load_reliable [OF assms, of i]], goal_cases)
  case (1 row0 u)
  then obtain p where u: "sync_frame i w u" "row_read i row0 u" by (auto split: option.splits)
  then have ok: "index_ok u" "reliable PG u" "reliable Search u" by (auto simp: sync_frame_def)
  show ?case
  proof (rule wp_tryI [OF wp_embed_reliable [OF ok u(2)]], goal_cases)
    case (1 row v)
    then have v: "row_read i row v" "sync_frame i w v" using sync_frame_trans [OF u(1)] by auto
    then have vok: "index_ok v" "reliable PG v" "reliable Search v" by (auto simp: sync_frame_def)
    obtain q where q: "find_post i v = Some q" "x_version row = p_version q" "doc_of row = doc_of (scan_index_row q)" "x_id row = i"
      using v(1) by (auto simp: row_read_def)
    have beh: "\<And>d n. index v i = Some (d, n) \<Longrightarrow> n \<le> p_version q \<and> (n = p_version q \<longrightarrow> d = doc_of row)"
      using vok(1) q(1,3) by (fastforce simp: index_ok_def behind_def)
    let ?v = "put_doc i (doc_of row, x_version row) (after_call Search v)"
    have fp: "find_post j ?v = find_post j v" "index ?v j = (if j = i then Some (doc_of row, x_version row) else index v j)" for j
      by (simp_all add: put_doc_def find_post_def)
    have beh': "behind ?v = behind v" by (simp add: behind_def fp(1) fun_eq_iff)
    have new: "behind v (i, x_version row, doc_of row)"
      using q by (simp add: behind_def)
    have "index_ok ?v"
      using vok(1) new by (auto simp: index_ok_def beh' fp(2) split: if_splits)
    then have put: "sync_frame i v ?v" "indexed ?v i"
      using vok(2,3) fp q outcomes_after_call [of Search v PG] outcomes_after_call [of Search v Search]
      by (auto simp: sync_frame_def indexed_def put_doc_def outcomes_def)
    have keep: "sync_frame i v (after_call Search v)" by (rule sync_frame_after [OF vok])
    have stored: "indexed (after_call Search v) i" if "index v i = Some (d, n)" "x_version row \<le> n" for d n
      using that beh [OF that(1)] q by (simp add: indexed_def)
    show ?case
    proof (cases "index v i")
      case None
      then show ?thesis using put sync_frame_trans [OF v(2)] q(4)
        by (simp add: wp_tryE index_versioned_def wp_ext_call reliable_next [OF vok(3)] wp_ret)
    next
      case (Some x)
      then show ?thesis using put keep stored sync_frame_trans [OF v(2)] q(4)
        by (cases x) (simp add: wp_tryE index_versioned_def wp_ext_call reliable_next [OF vok(3)] wp_ret)
    qed
  qed auto
next
  case (2 e u)
  then show ?case by (cases "find_post i w") (auto simp: wp_ret indexed_def find_post_def)
qed

lemma wp_sync_ids:
  assumes "index_ok w" "reliable PG w" "reliable Search w"
  shows "wp (sync_ids x ids n) (\<lambda>r v. r = (n + int (length ids), None) \<and> index_ok v \<and> reliable PG v \<and> reliable Search v \<and>
    map p_id (t_posts (db v)) = map p_id (t_posts (db w)) \<and>
    (\<forall>j. j \<in> set ids \<or> indexed w j \<longrightarrow> indexed v j)) w"
  using assms
proof (induction ids arbitrary: n w)
  case Nil
  then show ?case by (simp add: wp_ret)
next
  case (Cons i ids)
  have other: "indexed v j" if "sync_frame i w v" "indexed v i" "j = i \<or> indexed w j" for v j
    using that by (cases "j = i") (auto simp: sync_frame_def indexed_def)
  show ?case unfolding sync_ids.simps
  proof (rule wp_bindI [OF wp_sync_reliable [OF Cons.prems]], goal_cases)
    case (1 r v)
    then have v: "index_ok v" "reliable PG v" "reliable Search v" and r: "r = Inr ()" by (auto simp: sync_frame_def)
    show ?case unfolding r sum.case
      by (rule wp_mono [OF Cons.IH [OF v]]) (use 1 other in \<open>auto simp: sync_frame_def\<close>)
  qed
qed

lemma map_select_ids:
  fixes rows :: "post_row list"
  shows "map p_id (select_asc p_id (Some a) n rows) = take (nat n) (sort (filter (\<lambda>i. a < i) (map p_id rows)))"
proof -
  have "map p_id (sort_key p_id xs) = sort (map p_id xs)" for xs :: "post_row list"
    by (rule properties_for_sort [symmetric]) simp_all
  then show ?thesis by (simp add: select_asc_def after_cursor_def take_map [symmetric] filter_map o_def)
qed

lemma filter_after_last:
  fixes S :: "'a::linorder list"
  assumes "sorted_wrt (<) S" "0 < n" "n \<le> length S"
  shows "filter (\<lambda>i. last (take n S) < i) S = drop n S"
proof -
  let ?c = "last (take n S)"
  have ne: "take n S \<noteq> []" using assms(2,3) by auto
  have split: "sorted_wrt (<) (take n S @ drop n S)" using assms(1) by simp
  have "\<not> ?c < x" if "x \<in> set (take n S)" for x
  proof -
    have "sorted (take n S)" using split by (simp add: sorted_wrt_append strict_sorted_iff)
    then have "x \<le> ?c" using that ne by (metis append_butlast_last_id in_set_conv_decomp order_refl set_append
      sorted_append sorted_simps(1) split_list Un_iff empty_iff insert_iff list.set(1) list.simps(15))
    then show ?thesis by simp
  qed
  moreover have "?c < x" if "x \<in> set (drop n S)" for x
    using split [unfolded sorted_wrt_append] that last_in_set [OF ne] by blast
  ultimately have "filter (\<lambda>i. ?c < i) (take n S @ drop n S) = drop n S"
    unfolding filter_append by (simp add: filter_empty_conv)
  then show ?thesis by simp
qed

lemma wp_reindex_loop:
  assumes "index_ok w" "reliable PG w" "reliable Search w" "0 < size1" "distinct (map p_id (t_posts (db w)))"
    and "\<forall>i\<in>set (map p_id (t_posts (db w))). a < i \<or> indexed w i"
    and "length (filter (\<lambda>i. a < i) (map p_id (t_posts (db w)))) < fuel"
  shows "wp (reindex_loop fuel x size1 a n) (\<lambda>r v.
    r = Some (n + int (length (filter (\<lambda>i. a < i) (map p_id (t_posts (db w))))), None) \<and> index_ok v \<and>
    map p_id (t_posts (db v)) = map p_id (t_posts (db w)) \<and> (\<forall>i. indexed v i)) w"
  using assms
proof (induction fuel arbitrary: w a n)
  case 0
  then show ?case by simp
next
  case (Suc fuel)
  define L where "L = map p_id (t_posts (db w))"
  define S where "S = sort (filter (\<lambda>i. a < i) L)"
  let ?ids = "take (nat size1) S"
  let ?w = "after_call PG w"
  have S: "sorted_wrt (<) S" "length S = length (filter (\<lambda>i. a < i) L)" "set S = {i \<in> set L. a < i}"
    using Suc.prems(5) by (auto simp: S_def L_def strict_sorted_iff)
  have w': "index_ok ?w" "reliable PG ?w" "reliable Search ?w"
    using sync_frame_after [OF Suc.prems(1-3)] by (auto simp: sync_frame_def)
  have ind: "indexed ?w j = indexed w j" for j by (simp add: indexed_def)
  have all: "indexed v j" if "\<forall>i\<in>set L. indexed v i" "map p_id (t_posts (db v)) = L" for v j
  proof (cases "find_post j v")
    case None
    then show ?thesis by (simp add: indexed_def)
  next
    case (Some p)
    then have "p \<in> set (t_posts (db v))" "p_id p = j" unfolding find_post_def by (auto dest: find_in_set)
    then have "j \<in> set L" unfolding that(2) [symmetric] by auto
    then show ?thesis using that(1) by blast
  qed
  show ?case unfolding reindex_loop.simps if_not_P [OF leD [OF less_imp_le [OF Suc.prems(4)]]] wp_bind wp_pg_query
      if_P [OF reliable_next [OF Suc.prems(2)]] map_select_ids sum.case after_call_simps L_def [symmetric] S_def [symmetric]
  proof (rule wp_mono [OF wp_sync_ids [OF w']], goal_cases)
    case (1 r v)
    then have v: "index_ok v" "reliable PG v" "reliable Search v" "map p_id (t_posts (db v)) = L"
      and done1: "\<forall>j. j \<in> set ?ids \<or> indexed w j \<longrightarrow> indexed v j" and r: "r = (n + int (length ?ids), None)"
      by (auto simp: ind L_def)
    show ?case
    proof (cases "int (length ?ids) < size1")
      case True
      then have "?ids = S" using Suc.prems(4) by (auto simp: min_def split: if_splits)
      moreover have "\<forall>i\<in>set L. indexed v i"
        using Suc.prems(6) done1 S(3) \<open>?ids = S\<close> by (auto simp: L_def [symmetric])
      ultimately have "\<forall>j. indexed v j" using all [OF _ v(4)] by blast
      then show ?thesis using True v(1,4) S(2) \<open>?ids = S\<close> by (simp add: r wp_ret)
    next
      case False
      then have len: "nat size1 \<le> length S" "0 < nat size1" using Suc.prems(4) by (auto simp: min_def split: if_splits)
      then have ne: "?ids \<noteq> []" by auto
      have rest: "filter (\<lambda>i. last ?ids < i) S = drop (nat size1) S" by (rule filter_after_last [OF S(1) len(2,1)])
      have a: "a < last ?ids" using last_in_set [OF ne] set_take_subset [of "nat size1" S] S(3) by blast
      have fl: "length (filter (\<lambda>i. last ?ids < i) L) = length S - nat size1"
      proof -
        have "filter (\<lambda>i. last ?ids < i) S = sort (filter (\<lambda>i. last ?ids < i) (filter (\<lambda>i. a < i) L))"
          unfolding S_def by (simp only: filter_sort [of _ "\<lambda>x. x"])
        also have "filter (\<lambda>i. last ?ids < i) (filter (\<lambda>i. a < i) L) = filter (\<lambda>i. last ?ids < i) L"
          using a by (auto intro: filter_cong)
        finally show ?thesis using rest by (metis length_drop length_sort)
      qed
      have upto: "\<forall>i\<in>set L. last ?ids < i \<or> indexed v i"
      proof
        fix i assume i: "i \<in> set L"
        show "last ?ids < i \<or> indexed v i"
        proof (cases "i \<in> set S")
          case True
          then have "i \<in> set ?ids \<or> i \<in> set (drop (nat size1) S)" by (metis Un_iff append_take_drop_id set_append)
          then show ?thesis using done1 unfolding rest [symmetric] by auto
        next
          case False
          then show ?thesis using i Suc.prems(6) S(3) done1 by (auto simp: L_def [symmetric])
        qed
      qed
      have d: "distinct L" using Suc.prems(5) by (simp add: L_def)
      have "length S < Suc fuel" using Suc.prems(7) S(2) by (simp add: L_def)
      then have lt: "length (filter (\<lambda>i. last ?ids < i) L) < fuel" using fl len by linarith
      note step = Suc.IH [OF v(1-3) Suc.prems(4), unfolded v(4), OF d upto lt, unfolded fl]
      have cnt: "n + int (length ?ids) + int (length S - nat size1) = n + int (length S)" using len by simp
      have "wp (reindex_loop fuel x size1 (last ?ids) (n + int (length ?ids)))
          (\<lambda>r v'. r = Some (n + int (length S), None) \<and> index_ok v' \<and> map p_id (t_posts (db v')) = L \<and> (\<forall>i. indexed v' i)) v"
        using step [of "n + int (length ?ids)"] unfolding cnt .
      then show ?thesis using False ne unfolding r S(2) by simp
    qed
  qed
qed

text \<open>C27. Whatever calls fail, handling an event moves the index forward only; and when database and index
  answer it succeeds and the document of the post is that of its row, with or without OpenAI.\<close>

theorem handle_catches_up:
  assumes "index_ok w" "run_state (handle x (Some ev)) w = (r, w')"
  shows "index_ok w' \<and> index_grows w w' \<and>
    (reliable PG w \<and> reliable Search w \<and> ev_post ev \<noteq> [] \<longrightarrow> r = Inr () \<and> indexed w' (ev_post ev))"
proof (cases "ev_post ev = []")
  case True
  then show ?thesis using assms by (auto simp: handle_def index_grows_same)
next
  case False
  then have run: "run_state (sync x (ev_post ev)) w = (r, w')" using assms(2) by (simp add: handle_def)
  have "runs (w, {}) {} w" by (auto simp: runs_def intro: index_run.refl)
  from wp_run [OF wp_sync_runs [OF this] run] obtain F where F: "index_run (w, {}) (w', F)" by (auto simp: runs_def)
  from index_run_inv [OF this] index_inv_start [OF assms(1)]
  have "index_inv w' F" "index_grows w w'" by simp_all
  moreover from this(1) have "index_ok w'" by (auto simp: index_inv_def index_ok_def seen_def)
  moreover have "r = Inr () \<and> indexed w' (ev_post ev)" if "reliable PG w" "reliable Search w"
    using wp_run [OF wp_sync_reliable [OF assms(1) that] run] by simp
  ultimately show ?thesis by blast
qed

text \<open>C28. \<open>Reindex\<close> ends, after at most one page per post and one more, and rebuilds the index from any
  state: every post is written once and every document is then that of its row.\<close>

theorem reindex_builds_projection:
  assumes "index_ok w" "reliable PG w" "reliable Search w" "0 < size1"
    and "distinct (map p_id (t_posts (db w)))" "[] \<notin> p_id ` set (t_posts (db w))" "length (t_posts (db w)) < fuel"
    and "run_state (reindex fuel x size1) w = (r, w')"
  shows "r = Some (int (length (t_posts (db w))), None) \<and> index_ok w' \<and> (\<forall>i. indexed w' i)"
proof -
  let ?L = "map p_id (t_posts (db w))"
  have pos: "[] < i \<longleftrightarrow> i \<noteq> []" for i :: string by (cases i) simp_all
  have ne: "\<forall>i\<in>set ?L. i \<noteq> []" using assms(6) by (metis list.set_map)
  then have all: "filter (\<lambda>i. [] < i) ?L = ?L" unfolding filter_id_conv pos .
  have "wp (reindex_loop fuel x size1 [] 0) (\<lambda>r v. r = Some (0 + int (length (filter (\<lambda>i. [] < i) ?L)), None) \<and> index_ok v \<and>
    map p_id (t_posts (db v)) = ?L \<and> (\<forall>i. indexed v i)) w"
    by (rule wp_reindex_loop [OF assms(1-5)]) (use ne pos in blast, use all assms(7) in simp)
  from wp_run [OF this assms(8) [unfolded reindex_def]] show ?thesis unfolding all by simp
qed

section \<open>A small instance\<close>

definition demo_index :: world where
  "demo_index = demo_posts\<lparr>index := (\<lambda>_. None)(''p1'' := Some (doc_of (scan_index_row (new_row demo_post)), 1))\<rparr>"

definition demo_indexer :: indexer where
  "demo_indexer = \<lparr>x_model = None\<rparr>"

lemma demo_index_posts: "t_posts (db demo_index) = [new_row demo_post, soft_delete 5 (new_row (demo_post\<lparr>post_id := ''p2''\<rparr>))]"
  by (simp add: demo_index_def demo_posts_ok)

lemma demo_index_reliable: "reliable y demo_index"
  by (simp add: demo_index_def demo_posts_def outcomes_def quiet_world_def)

lemma demo_index_ok: "index_ok demo_index"
  by (simp add: index_ok_def behind_def find_post_def demo_index_posts)
    (simp add: demo_index_def new_row_def demo_post_def blank_post_def scan_index_row_def doc_of_def)

text \<open>A run of two indexers around a deletion.  One reads \<open>p1\<close>, stores an embedding and writes the
  document; the post is deleted; the other one reads the row and writes the tombstone; then the first
  one delivers its document again, late.\<close>

definition live_row :: index_row where
  "live_row = scan_index_row (new_row demo_post)"

definition embedded_row :: index_row where
  "embedded_row = live_row\<lparr>x_embedding := Some [7], x_version := 2\<rparr>"

definition deleted_row :: index_row where
  "deleted_row = scan_index_row (soft_delete 9 (with_embedding [7] (new_row demo_post)))"

definition embedded_index :: world where
  "embedded_index = upd_posts (update_where (\<lambda>r. p_id r = ''p1'') (with_embedding [7])) demo_index"

definition deleted_index :: world where
  "deleted_index = upd_posts (update_where (\<lambda>r. p_id r = ''p1'') (soft_delete 9))
     (put_doc ''p1'' (doc_of embedded_row, 2) embedded_index)"

definition tombstone_index :: world where
  "tombstone_index = put_doc ''p1'' (doc_of deleted_row, 3) deleted_index"

lemma demo_index_calls:
  "run_state (ext_call y f) demo_index = f demo_index"
  "run_state (ext_call y f) embedded_index = f embedded_index"
  "run_state (ext_call y f) deleted_index = f deleted_index"
  "run_state (ext_call y f) tombstone_index = f tombstone_index"
proof -
  have o: "outs demo_index = (\<lambda>_. sconst (Done, 0))" by (simp add: demo_index_def demo_posts_def quiet_world_def)
  then have o': "outs embedded_index = (\<lambda>_. sconst (Done, 0))" "outs deleted_index = (\<lambda>_. sconst (Done, 0))"
    "outs tombstone_index = (\<lambda>_. sconst (Done, 0))"
    by (simp_all add: embedded_index_def deleted_index_def tombstone_index_def put_doc_def upd_posts_def)
  show "run_state (ext_call y f) demo_index = f demo_index" "run_state (ext_call y f) embedded_index = f embedded_index"
    "run_state (ext_call y f) deleted_index = f deleted_index" "run_state (ext_call y f) tombstone_index = f tombstone_index"
    using instant_calls(3) o o' by blast+
qed

lemma demo_post_ids: "p_id (new_row demo_post) = ''p1''" "p_id (soft_delete 5 (new_row (demo_post\<lparr>post_id := ''p2''\<rparr>))) = ''p2''"
  by (simp_all add: new_row_def soft_delete_def demo_post_def blank_post_def)

lemma first_indexer: "index_run (demo_index, {}) (embedded_index, {live_row, embedded_row})"
proof -
  have p1: "find_post ''p1'' demo_index = Some (new_row demo_post)"
    by (simp add: find_post_def demo_index_posts demo_post_ids)
  have "run_state (load_row ''p1'') demo_index = (Inr live_row, demo_index)"
    by (simp add: load_row_def demo_index_calls p1 live_row_def)
  from index_run.step [OF index_run.refl load [OF this]]
  have r: "index_run (demo_index, {}) (demo_index, {live_row})" .
  have l: "\<not> x_deleted live_row" "x_id live_row = ''p1''" "live (new_row demo_post)" "p_embedding (new_row demo_post) = None"
    "p_version (new_row demo_post) = 1"
    by (simp_all add: live_row_def scan_index_row_def demo_post_ids) (simp_all add: new_row_def live_def)
  have "run_state (store_embedding (x_id live_row) [7]) demo_index = (Inr 2, embedded_index)"
    by (simp add: store_embedding_def demo_index_calls p1 l embedded_index_def)
  from index_run.step [OF r store [OF _ l(1) this]] show ?thesis by (simp add: embedded_row_def insert_commute)
qed

lemma second_indexer:
  "index_run (embedded_index, {live_row, embedded_row}) (tombstone_index, {deleted_row, live_row, embedded_row})"
proof -
  let ?F = "{live_row, embedded_row}" and ?G = "{deleted_row, live_row, embedded_row}"
  let ?w = "put_doc ''p1'' (doc_of embedded_row, 2) embedded_index"
  have row: "x_id embedded_row = ''p1''" "x_version embedded_row = 2" "x_id deleted_row = ''p1''" "x_version deleted_row = 3"
    by (simp_all add: embedded_row_def deleted_row_def live_row_def scan_index_row_def soft_delete_def with_embedding_def
        demo_post_ids) (simp add: new_row_def)
  have i0: "index embedded_index ''p1'' = Some (doc_of live_row, 1)"
    by (simp add: embedded_index_def demo_index_def live_row_def upd_posts_def)
  have "run_state (index_versioned (x_id embedded_row) (doc_of embedded_row) (x_version embedded_row)) embedded_index = (Inr True, ?w)"
    by (simp add: index_versioned_def demo_index_calls row i0)
  from index_run.step [OF index_run.refl emit [OF _ this]]
  have r1: "index_run (embedded_index, ?F) (?w, ?F)" by simp
  have "posts_evolve ?w deleted_index" "index deleted_index = index ?w"
    unfolding deleted_index_def by (rule posts_statements_evolve(2)) (simp add: upd_posts_def)
  from index_run.step [OF r1 others [OF this]] have r2: "index_run (embedded_index, ?F) (deleted_index, ?F)" .
  have "find_post ''p1'' deleted_index = Some (soft_delete 9 (with_embedding [7] (new_row demo_post)))"
    by (simp add: find_post_def deleted_index_def embedded_index_def put_doc_def demo_index_posts update_where_def demo_post_ids
        with_embedding_def) (simp add: soft_delete_def demo_post_ids)
  then have "run_state (load_row ''p1'') deleted_index = (Inr deleted_row, deleted_index)"
    by (simp add: load_row_def demo_index_calls deleted_row_def)
  from index_run.step [OF r2 load [OF this]] have r3: "index_run (embedded_index, ?F) (deleted_index, ?G)" .
  have i1: "index deleted_index ''p1'' = Some (doc_of embedded_row, 2)"
    by (simp add: deleted_index_def put_doc_def upd_posts_def)
  have "run_state (index_versioned (x_id deleted_row) (doc_of deleted_row) (x_version deleted_row)) deleted_index =
      (Inr True, tombstone_index)"
    by (simp add: index_versioned_def demo_index_calls row i1 tombstone_index_def)
  from index_run.step [OF r3 emit [OF _ this]] have r4: "index_run (embedded_index, ?F) (tombstone_index, ?G)" by simp
  have "index tombstone_index ''p1'' = Some (doc_of deleted_row, 3)" by (simp add: tombstone_index_def put_doc_def)
  then have "run_state (index_versioned (x_id embedded_row) (doc_of embedded_row) (x_version embedded_row)) tombstone_index =
      (Inr False, tombstone_index)"
    by (simp add: index_versioned_def demo_index_calls row)
  from index_run.step [OF r4 emit [OF _ this]] show ?thesis by simp
qed

theorem index_moves_forward_witness:
  "index embedded_index ''p1'' = Some (doc_of live_row, 1) \<and> index tombstone_index ''p1'' = Some (doc_of deleted_row, 3) \<and>
   d_deleted (doc_of deleted_row) \<and> index_ok tombstone_index \<and> index_grows embedded_index tombstone_index"
proof -
  have "index embedded_index ''p1'' = Some (doc_of live_row, 1)" "index tombstone_index ''p1'' = Some (doc_of deleted_row, 3)"
    by (simp_all add: embedded_index_def demo_index_def live_row_def upd_posts_def tombstone_index_def put_doc_def)
  moreover have "d_deleted (doc_of deleted_row)" by (simp add: doc_of_def deleted_row_def scan_index_row_def soft_delete_def)
  ultimately show ?thesis using index_moves_forward [OF demo_index_ok first_indexer second_indexer] by blast
qed

theorem handle_catches_up_witness:
  "indexed (snd (run_state (handle demo_indexer (Some (PostDeleted ''p2'' ''ann'' 5))) demo_index)) ''p2''"
proof -
  let ?r = "run_state (handle demo_indexer (Some (PostDeleted ''p2'' ''ann'' 5))) demo_index"
  have "?r = (fst ?r, snd ?r)" by simp
  from handle_catches_up [OF demo_index_ok this] demo_index_reliable show ?thesis by simp
qed

theorem reindex_builds_projection_witness:
  "fst (run_state (reindex 5 demo_indexer 1) demo_index) = Some (2, None) \<and>
   indexed (snd (run_state (reindex 5 demo_indexer 1) demo_index)) ''p2''"
proof -
  let ?r = "run_state (reindex 5 demo_indexer 1) demo_index"
  have "?r = (fst ?r, snd ?r)" by simp
  from reindex_builds_projection [OF demo_index_ok demo_index_reliable demo_index_reliable _ _ _ _ this]
  show ?thesis by (simp add: demo_index_posts new_row_def demo_post_def blank_post_def soft_delete_def)
qed

end
