(* ===== verification/HomeFeed.thy ===== *)
theory HomeFeed
  imports Posts FeedStore
begin

text \<open>
  \<open>services/post/service/feed.go\<close>: the home feed, merged at read time from the pushed feed in Redis and
  the posts of the followed accounts that are too large to push.
\<close>

section \<open>The operations\<close>

definition followed_celebrities :: "string \<Rightarrow> string list io" where
  "followed_celebrities u = tryE (redis_smembers celebrity_set_key) (followed_among u)"

definition posts_by :: "string list \<Rightarrow> world \<Rightarrow> post_row list" where
  "posts_by authors w = filter (\<lambda>r. p_user r \<in> set authors \<and> live r) (t_posts (db w))"

definition pulled_posts :: "string list \<Rightarrow> cursor \<Rightarrow> int \<Rightarrow> post list io" where
  "pulled_posts celebs cur n =
     (if celebs = [] then ret []
      else pg_query (\<lambda>w. map scan_post (select_desc post_key (cursor_opt cur) n (posts_by celebs w))))"

definition item_of_post :: "post \<Rightarrow> item" where
  "item_of_post p = \<lparr>it_id = post_id p, it_author = post_user p, it_at = post_at p\<rparr>"

text \<open>The last loop: the posts of the page, from the map \<open>byID\<close>.\<close>

definition page_posts :: "post list \<Rightarrow> item list \<Rightarrow> post list" where
  "page_posts ps items = concat (map (\<lambda>it. case find (\<lambda>p. post_id p = it_id it) ps of None \<Rightarrow> [] | Some p \<Rightarrow> [p]) items)"

definition get_home_feed :: "(cursor \<Rightarrow> string) \<Rightarrow> (string \<Rightarrow> cursor option) \<Rightarrow> string \<Rightarrow> int \<Rightarrow> string \<Rightarrow>
    (post list \<times> string) io" where
  "get_home_feed marshal unmarshal u limit0 cursor =
     (let limit = page_limit limit0 20 100
      in case cursor_decode unmarshal cursor of
        Inl e \<Rightarrow> fail e
      | Inr cur \<Rightarrow>
          tryE (feed_items (home_feed_key u) cur (limit + 1)) (\<lambda>pushed.
          tryE (followed_celebrities u) (\<lambda>celebs.
          tryE (pulled_posts celebs cur (limit + 1)) (\<lambda>posts.
            (let merged = items_before (merge_feeds 0 [pushed, map item_of_post posts]) cur;
                 more = int (length merged) > limit;
                 items = (if more then take (nat limit) merged else merged);
                 nx = (if more then cursor_encode marshal (cursor_of (merged ! nat (limit - 1))) else []);
                 need = filter (\<lambda>i. i \<notin> post_id ` set posts) (map it_id items)
             in tryE (live_posts_by_id need) (\<lambda>loaded. ret (page_posts (loaded @ posts) items, nx)))))))"

section \<open>Merging truncated sources\<close>

lemma take_filter_keep: "(\<And>x. x \<in> set (take n xs) \<Longrightarrow> P x) \<Longrightarrow> take n (filter P xs) = take n xs"
proof (induction xs arbitrary: n)
  case (Cons x xs)
  then show ?case
  proof (cases n)
    case (Suc m)
    have "P x" using Cons.prems [of x] Suc by simp
    moreover have "take m (filter P xs) = take m xs" by (rule Cons.IH) (use Cons.prems Suc in simp)
    ultimately show ?thesis using Suc by simp
  qed simp
qed simp

text \<open>The first \<open>n\<close> of a descending list are all kept by a filter that drops an element only if at least
  \<open>n\<close> greater ones are kept.\<close>

lemma take_filter_desc:
  fixes D :: "'k::linorder list"
  assumes "sorted_wrt (\<lambda>x y. y < x) D"
    and drop: "\<And>y. y \<in> set D \<Longrightarrow> \<not> P y \<Longrightarrow> n \<le> card {x \<in> set D. y < x}"
  shows "take n (filter P D) = take n D"
proof (rule take_filter_keep, rule ccontr)
  fix y
  assume y: "y \<in> set (take n D)" "\<not> P y"
  then obtain i where i: "i < n" "i < length D" "y = D ! i" by (auto simp: in_set_conv_nth)
  have "{x \<in> set D. y < x} \<subseteq> set (take i D)"
  proof
    fix x assume "x \<in> {x \<in> set D. y < x}"
    then obtain j where j: "j < length D" "x = D ! j" "D ! i < D ! j" using i(3) by (auto simp: in_set_conv_nth)
    have "j < i"
    proof (rule ccontr)
      assume "\<not> j < i"
      then have "D ! j < D ! i \<or> j = i" using assms(1) j(1) by (metis linorder_neqE_nat sorted_wrt_iff_nth_less)
      then show False using j(3) by auto
    qed
    then show "x \<in> set (take i D)" using j(1,2) by (auto simp: in_set_conv_nth)
  qed
  then have "card {x \<in> set D. y < x} \<le> card (set (take i D))" by (rule card_mono [rotated]) simp
  also have "\<dots> \<le> i" using card_length [of "take i D"] by simp
  finally show False using drop [of y] y i(1) set_take_subset [of n D] by fastforce
qed

text \<open>The keys of a merge of feeds that agree on the time of a post.\<close>

definition times_agree :: "item list \<Rightarrow> bool" where
  "times_agree items \<longleftrightarrow> (\<forall>x\<in>set items. \<forall>y\<in>set items. it_id x = it_id y \<longrightarrow> it_at x = it_at y)"

lemma merge_keys:
  assumes "times_agree (concat feeds)" "[] \<notin> it_id ` set (concat feeds)"
  shows "set (map item_key (merge_feeds 0 feeds)) = item_key ` set (concat feeds)"
proof -
  let ?m = "merge_feeds 0 feeds"
  have m: "set ?m \<subseteq> set (concat feeds)" "it_id ` set ?m = it_id ` set (concat feeds)"
    using merge_newest_first [of 0 feeds] assms(2) by auto
  have "item_key x \<in> item_key ` set ?m" if x: "x \<in> set (concat feeds)" for x
  proof -
    have "it_id x \<in> it_id ` set ?m" unfolding m(2) using x by (rule imageI)
    then obtain y where y: "y \<in> set ?m" "it_id y = it_id x" by fastforce
    then have "it_at y = it_at x" using assms(1) x m(1) unfolding times_agree_def by blast
    then have "item_key x = item_key y" using y(2) by (simp add: item_key_def)
    then show ?thesis using y(1) by simp
  qed
  then have "item_key ` set (concat feeds) \<subseteq> item_key ` set ?m" by blast
  with m(1) show ?thesis unfolding set_map by blast
qed

lemma strict_desc_keys:
  fixes xs ys :: "'k::linorder list"
  assumes "sorted_wrt (\<lambda>x y. y < x) xs" "sorted_wrt (\<lambda>x y. y < x) ys" "set xs = set ys"
  shows "xs = ys"
  using strict_desc_unique [of "\<lambda>x. x" xs ys] assms by simp

definition before_keys :: "cursor \<Rightarrow> cursor list \<Rightarrow> cursor list" where
  "before_keys c ks = filter (after_cursor (\<lambda>a b. b < a) (cursor_opt c)) ks"

lemma map_items_before: "map item_key (items_before xs c) = before_keys c (map item_key xs)"
  by (simp add: items_before_key before_keys_def filter_map o_def)

lemma desc_card_take:
  fixes xs :: "'k::linorder list"
  assumes "sorted_wrt (\<lambda>x y. y < x) xs" "y \<in> set xs" "y \<notin> set (take n xs)"
  shows "n \<le> card {x \<in> set (take n xs). y < x}"
proof -
  have "length (take n xs) = n"
    using assms(2,3) by (metis append.right_neutral append_take_drop_id drop_all length_take min.absorb2 nat_le_linear)
  moreover have "distinct (take n xs)" using assms(1) by (induction xs arbitrary: n) (auto simp: take_Cons' dest: in_set_takeD)
  moreover have "{x \<in> set (take n xs). y < x} = set (take n xs)"
    using sorted_take_newest [of "\<lambda>x. x" xs _ n y] assms by auto
  ultimately show ?thesis by (simp add: distinct_card)
qed

text \<open>Each source contributes its own first \<open>n\<close> items after the cursor; the first \<open>n\<close> of their merge
  are the first \<open>n\<close> of the merge of the whole sources.\<close>

lemma merge_truncated:
  fixes n c
  assumes A: "sorted_wrt (\<lambda>x y. item_key y < item_key x) A" and B: "sorted_wrt (\<lambda>x y. item_key y < item_key x) B"
    and agree: "times_agree (A @ B)" and ids: "[] \<notin> it_id ` set (A @ B)"
  defines "A' \<equiv> take n (items_before A c)" and "B' \<equiv> take n (items_before B c)"
  shows "map item_key (take n (items_before (merge_feeds 0 [A', B']) c)) = map item_key (take n (items_before (merge_feeds 0 [A, B]) c))"
proof -
  let ?D = "map item_key (items_before (merge_feeds 0 [A, B]) c)"
  let ?E = "map item_key (items_before (merge_feeds 0 [A', B']) c)"
  let ?P = "\<lambda>k. k \<in> item_key ` set (A' @ B')"
  have ib: "set (items_before X c) \<subseteq> set X" for X by (auto simp: items_before_def)
  have sub: "set A' \<subseteq> set (items_before A c)" "set B' \<subseteq> set (items_before B c)"
    unfolding A'_def B'_def by (rule set_take_subset)+
  then have sub': "set A' \<subseteq> set A" "set B' \<subseteq> set B" using ib by blast+
  have desc: "sorted_wrt (\<lambda>x y. y < x) (map item_key (items_before X c))" if "sorted_wrt (\<lambda>x y. item_key y < item_key x) X" for X
    using that by (simp add: sorted_wrt_map items_before_key sorted_wrt_filter)
  have sD: "sorted_wrt (\<lambda>x y. y < x) ?D" and sE: "sorted_wrt (\<lambda>x y. y < x) ?E" by (rule desc, rule merge_sorted)+
  have setD: "set ?D = item_key ` (set (items_before A c) \<union> set (items_before B c))"
    using merge_keys [of "[A, B]"] agree ids unfolding map_items_before before_keys_def
    by (auto simp: items_before_key)
  have "times_agree (concat [A', B'])" "[] \<notin> it_id ` set (concat [A', B'])"
    using agree ids sub' unfolding times_agree_def by (simp_all, blast, blast)
  from merge_keys [OF this]
  have E: "set (map item_key (merge_feeds 0 [A', B'])) = item_key ` set (A' @ B')" by simp
  have D: "set (map item_key (merge_feeds 0 [A, B])) = item_key ` set (A @ B)"
    using merge_keys [of "[A, B]"] agree ids by simp
  have "item_key ` set (A' @ B') \<subseteq> item_key ` set (A @ B)" using sub' by auto
  then have setE: "set ?E = {k \<in> set ?D. ?P k}"
    unfolding map_items_before before_keys_def set_filter D E by blast
  have "?E = filter ?P ?D"
    by (rule strict_desc_keys [OF sE sorted_wrt_filter [OF sD]]) (use setE in auto)
  moreover have "take n (filter ?P ?D) = take n ?D"
  proof (rule take_filter_desc [OF sD])
    fix y assume y: "y \<in> set ?D" "\<not> ?P y"
    have *: "n \<le> card {x \<in> set ?D. y < x}"
      if X: "sorted_wrt (\<lambda>x y. item_key y < item_key x) X" and m: "y \<in> item_key ` set (items_before X c)"
        and n: "y \<notin> item_key ` set (take n (items_before X c))" and le: "set (items_before X c) \<subseteq> set (items_before A c) \<union> set (items_before B c)" for X
    proof -
      let ?X = "map item_key (items_before X c)"
      have "n \<le> card {x \<in> set (take n ?X). y < x}"
        by (rule desc_card_take [OF desc [OF X]]) (use m n in \<open>simp_all add: take_map\<close>)
      also have "\<dots> \<le> card {x \<in> set ?D. y < x}"
      proof (rule card_mono)
        have "set ?X \<subseteq> set ?D" unfolding setD using le by auto
        then show "{x \<in> set (take n ?X). y < x} \<subseteq> {x \<in> set ?D. y < x}" using set_take_subset [of n ?X] by blast
      qed simp
      finally show ?thesis .
    qed
    from y(1) have "y \<in> item_key ` set (items_before A c) \<or> y \<in> item_key ` set (items_before B c)" unfolding setD by blast
    then show "n \<le> card {x \<in> set ?D. y < x}"
      using *[OF A] *[OF B] y(2) unfolding A'_def B'_def by auto
  qed
  ultimately have "take n ?E = take n ?D" by metis
  then show ?thesis by (simp only: take_map)
qed

section \<open>The page\<close>

lemma page_posts_ids: "map post_id (page_posts ps items) = filter (\<lambda>i. i \<in> post_id ` set ps) (map it_id items)"
proof (induction items)
  case (Cons it items)
  have "(case find (\<lambda>p. post_id p = it_id it) ps of None \<Rightarrow> [] | Some p \<Rightarrow> [post_id p]) =
      (if it_id it \<in> post_id ` set ps then [it_id it] else [])"
  proof (cases "find (\<lambda>p. post_id p = it_id it) ps")
    case None
    then have "it_id it \<notin> post_id ` set ps" by (auto simp: find_None_iff)
    then show ?thesis unfolding None by simp
  next
    case (Some p)
    have p: "p \<in> set ps" "post_id p = it_id it" using find_in_set [OF Some] by simp_all
    then have "it_id it \<in> post_id ` set ps" by (metis imageI)
    then show ?thesis using p(2) unfolding Some by simp
  qed
  then show ?case using Cons by (simp add: page_posts_def split: option.splits if_splits)
qed (simp add: page_posts_def)

lemma set_page_posts: "set (page_posts ps items) \<subseteq> set ps"
proof -
  have "set (case find P ps of None \<Rightarrow> [] | Some p \<Rightarrow> [p]) \<subseteq> set ps" for P
    using find_in_set [of P ps] by (cases "find P ps") auto
  then show ?thesis by (auto simp: page_posts_def)
qed

text \<open>The whole home feed: what is pushed and lives at time \<open>t\<close>, and all posts of the followed celebrities.\<close>

definition celebrities_of :: "string \<Rightarrow> world \<Rightarrow> string list" where
  "celebrities_of u w = map f_to (filter (\<lambda>f. f_from f = u \<and> f_to f \<in> set (r_set (red w) celebrity_set_key)) (t_follows (db w)))"

definition pulled_items :: "string \<Rightarrow> world \<Rightarrow> item list" where
  "pulled_items u w = map (item_of_post o scan_post) (sort_desc post_key (posts_by (celebrities_of u w) w))"

definition home_items :: "string \<Rightarrow> int \<Rightarrow> world \<Rightarrow> item list" where
  "home_items u t w = merge_feeds 0 [feed_list (w\<lparr>clock := t\<rparr>) (home_feed_key u), pulled_items u w]"

text \<open>Post ids are keys, and a pushed entry carries the time of its post (as the events do).\<close>

definition home_ok :: "string \<Rightarrow> world \<Rightarrow> bool" where
  "home_ok u w \<longleftrightarrow> wf_feeds w \<and> distinct (map p_id (t_posts (db w))) \<and> [] \<notin> p_id ` set (t_posts (db w)) \<and>
     (\<forall>z\<in>set (r_zset (red w) (home_feed_key u)). \<forall>r\<in>set (t_posts (db w)). p_id r = fst z \<longrightarrow> p_at r = snd z)"

lemma item_of_scan [simp]: "item_key (item_of_post (scan_post r)) = post_key r" "it_id (item_of_post (scan_post r)) = p_id r"
  "it_at (item_of_post (scan_post r)) = p_at r"
  by (simp_all add: item_of_post_def scan_post_def item_key_def post_key_def)

lemma pulled_desc:
  assumes "home_ok u w"
  shows "sorted_wrt (\<lambda>x y. item_key y < item_key x) (pulled_items u w)"
proof -
  have "distinct (map post_key (posts_by cs w))" for cs
    using assms by (auto simp: home_ok_def posts_by_def post_key_def distinct_map inj_on_def)
  then show ?thesis by (simp add: pulled_items_def sorted_wrt_map sort_desc_sorted)
qed

lemma pulled_truncated:
  assumes "0 < n"
  shows "map item_of_post (map scan_post (select_desc post_key (cursor_opt cur) n (posts_by (celebrities_of u w) w))) =
    take (nat n) (items_before (pulled_items u w) cur)"
  by (simp add: select_desc_page items_before_key pulled_items_def filter_map o_def take_map [symmetric])

lemma feed_list_set:
  assumes "wf_feeds w"
  shows "set (feed_list w k) = item_of_z ` set (zlive (clock w) (red w) k)"
  using merge_zset [of "zlive (clock w) (red w) k"] wf_zlive [OF assms] by (simp add: feed_list_def)

lemma feeds_agree:
  assumes "home_ok u w"
  shows "times_agree (feed_list (w\<lparr>clock := t\<rparr>) (home_feed_key u) @ pulled_items u w)"
    and "[] \<notin> it_id ` set (feed_list (w\<lparr>clock := t\<rparr>) (home_feed_key u) @ pulled_items u w)"
proof -
  let ?k = "home_feed_key u" and ?z = "zlive t (red w) (home_feed_key u)"
  have wf: "wf_feeds (w\<lparr>clock := t\<rparr>)" "wf_feeds w" using assms by (simp_all add: home_ok_def wf_feeds_def)
  have z: "set ?z \<subseteq> set (r_zset (red w) ?k)" by (simp add: zlive_def)
  have A: "set (feed_list (w\<lparr>clock := t\<rparr>) ?k) = item_of_z ` set ?z" using feed_list_set [OF wf(1)] by simp
  have B: "set (pulled_items u w) = (item_of_post o scan_post) ` set (posts_by (celebrities_of u w) w)"
    by (simp add: pulled_items_def)
  have rows: "set (posts_by cs w) \<subseteq> set (t_posts (db w))" for cs by (auto simp: posts_by_def)
  have zz: "snd p = snd q" if "p \<in> set ?z" "q \<in> set ?z" "fst p = fst q" for p q
    using that wf_zlive [OF wf(2), of t ?k] by (auto simp: wf_zset_def distinct_map inj_on_def)
  have zr: "p_at r = snd p" if "p \<in> set ?z" "r \<in> set (t_posts (db w))" "p_id r = fst p" for p r
    using that z assms by (auto simp: home_ok_def)
  have rr: "p_at r = p_at s" if "r \<in> set (t_posts (db w))" "s \<in> set (t_posts (db w))" "p_id r = p_id s" for r s
    using that assms by (auto simp: home_ok_def distinct_map inj_on_def)
  have at: "it_at (item_of_z p) = snd p" for p by (simp add: item_of_z_def)
  have R: "r \<in> set (t_posts (db w))" if "r \<in> set (posts_by cs w)" for r cs using that rows by blast
  show "times_agree (feed_list (w\<lparr>clock := t\<rparr>) ?k @ pulled_items u w)"
    unfolding times_agree_def set_append A B
  proof (intro ballI impI, elim UnE imageE, goal_cases)
    case (1 x y p q)
    then show ?case using zz [of p q] by (simp add: at)
  next
    case (2 x y p r)
    then show ?case using zr [of p r] R by (simp add: at)
  next
    case (3 x y r p)
    then show ?case using zr [of p r] R by (simp add: at)
  next
    case (4 x y r s)
    then show ?case using rr [of r s] R by simp
  qed
  show "[] \<notin> it_id ` set (feed_list (w\<lparr>clock := t\<rparr>) ?k @ pulled_items u w)"
  proof
    assume "[] \<in> it_id ` set (feed_list (w\<lparr>clock := t\<rparr>) ?k @ pulled_items u w)"
    then have "(\<exists>p\<in>set ?z. fst p = []) \<or> (\<exists>r\<in>set (posts_by (celebrities_of u w) w). p_id r = [])"
      unfolding set_append A B image_Un image_image by fastforce
    moreover have "\<not> (\<exists>p\<in>set ?z. fst p = [])" using wf_zlive [OF wf(2), of t ?k] by force
    moreover have "\<not> (\<exists>r\<in>set (t_posts (db w)). p_id r = [])" using assms unfolding home_ok_def by (metis imageI)
    ultimately show False using R by blast
  qed
qed

lemma home_items_page:
  fixes cur t
  assumes "home_ok u w" "0 < limit"
  defines "A \<equiv> take (nat (limit + 1)) (items_before (feed_list (w\<lparr>clock := t\<rparr>) (home_feed_key u)) cur)"
    and "B \<equiv> take (nat (limit + 1)) (items_before (pulled_items u w) cur)"
  defines "M \<equiv> items_before (merge_feeds 0 [A, B]) cur" and "R \<equiv> items_before (home_items u t w) cur"
  shows "(int (length M) > limit) = (int (length R) > limit)"
    and "map it_id (take (nat limit) M) = map it_id (take (nat limit) R)"
    and "int (length R) > limit \<Longrightarrow> cursor_of (M ! nat (limit - 1)) = item_key (R ! nat (limit - 1))"
proof -
  let ?n = "nat (limit + 1)"
  have "sorted_wrt (\<lambda>x y. item_key y < item_key x) (feed_list (w\<lparr>clock := t\<rparr>) (home_feed_key u))"
    by (simp add: feed_list_def merge_sorted)
  from merge_truncated [OF this pulled_desc [OF assms(1)] feeds_agree [OF assms(1)], of ?n cur]
  have eq: "map item_key (take ?n M) = map item_key (take ?n R)"
    by (simp add: M_def R_def A_def B_def home_items_def)
  have n: "?n = Suc (nat limit)" using assms(2) by simp
  have "min (length M) ?n = min (length R) ?n" using arg_cong [OF eq, of length] by simp
  then show len: "(int (length M) > limit) = (int (length R) > limit)" using assms(2) by (auto simp: min_def split: if_splits)
  have "map item_key (take (nat limit) M) = take (nat limit) (map item_key (take ?n M))" using n by (simp add: take_map min_def)
  also have "\<dots> = map item_key (take (nat limit) R)" unfolding eq using n by (simp add: take_map min_def)
  finally have k: "map item_key (take (nat limit) M) = map item_key (take (nat limit) R)" .
  have "map it_id xs = map snd (map item_key xs)" for xs by (simp add: item_key_def)
  then show "map it_id (take (nat limit) M) = map it_id (take (nat limit) R)" using k by metis
  assume R: "int (length R) > limit"
  then have M: "int (length M) > limit" using len by simp
  let ?i = "nat (limit - 1)"
  have i: "?i < nat limit" using assms(2) by simp
  have "item_key (M ! ?i) = map item_key (take (nat limit) M) ! ?i" using i M by simp
  also have "\<dots> = item_key (R ! ?i)" unfolding k using i R by simp
  finally show "cursor_of (M ! ?i) = item_key (R ! ?i)" by (simp add: cursor_of_def item_key_def)
qed

lemma wp_followed_celebrities:
  assumes "reliable PG w" "reliable Redis w"
  shows "wp (followed_celebrities u) (\<lambda>r v. r = Inr (celebrities_of u w) \<and> db v = db w \<and> reliable PG v \<and> clock w \<le> clock v) w"
proof -
  let ?v = "after_call Redis w"
  have "clock w \<le> clock ?v" "clock ?v \<le> clock (after_call PG ?v)" by (rule clock_after_call)+
  moreover have "reliable PG ?v" "reliable PG (after_call PG ?v)" using assms(1) by simp_all
  ultimately show ?thesis
    using reliable_next [OF assms(2)] reliable_next [of ?v PG]
    by (simp add: followed_celebrities_def followed_among_def redis_smembers_def wp_tryE wp_ext_call wp_pg_query wp_ret celebrities_of_def)
qed

lemma wp_pulled_posts:
  assumes "reliable PG v" "db v = db w" "0 < n"
  shows "wp (pulled_posts (celebrities_of u w) cur n) (\<lambda>r v'. (\<exists>ps. r = Inr ps \<and>
      map item_of_post ps = take (nat n) (items_before (pulled_items u w) cur) \<and>
      set ps \<subseteq> scan_post ` {q \<in> set (t_posts (db w)). live q}) \<and> db v' = db w \<and> reliable PG v' \<and> clock v \<le> clock v') v"
proof -
  let ?ps = "map scan_post (select_desc post_key (cursor_opt cur) n (posts_by (celebrities_of u w) w))"
  have ps: "set ?ps \<subseteq> scan_post ` {q \<in> set (t_posts (db w)). live q}"
    by (auto simp: select_desc_page posts_by_def dest!: in_set_takeD)
  have rows: "posts_by cs (after_call PG v) = posts_by cs w" for cs using assms(2) by (simp add: posts_by_def)
  have none: "pulled_items u w = []" if "celebrities_of u w = []" using that by (simp add: pulled_items_def posts_by_def sort_desc_def)
  show ?thesis
  proof (cases "celebrities_of u w = []")
    case True
    then show ?thesis using assms none by (simp add: pulled_posts_def wp_ret items_before_def)
  next
    case False
    then show ?thesis
      using reliable_next [OF assms(1)] pulled_truncated [OF assms(3), of cur u w] assms(1,2) clock_after_call [of v PG] ps
      by (simp add: pulled_posts_def wp_pg_query rows)
  qed
qed

lemma wp_live_posts:
  assumes "reliable PG w"
  shows "wp (live_posts_by_id ids) (\<lambda>r v. clock w \<le> clock v \<and> (\<exists>ps. r = Inr ps \<and>
     post_id ` set ps = {i \<in> set ids. \<exists>q\<in>set (t_posts (db w)). p_id q = i \<and> live q} \<and>
     set ps \<subseteq> scan_post ` {q \<in> set (t_posts (db w)). live q})) w"
proof (rule wp_state, goal_cases)
  case (1 r v)
  obtain ps where r: "r = Inr ps" and clk: "clock w \<le> clock v"
    using 1 reliable_next [OF assms] clock_after_call [of w PG]
    by (cases "ids = []") (auto simp: live_posts_by_id_def ext_call_def run_tryE)
  have "map post_id ps = filter (\<lambda>i. \<exists>q\<in>set (t_posts (db w)). p_id q = i \<and> live q) (rev (remdups (rev ids)))"
    "\<forall>p\<in>set ps. \<exists>q\<in>set (t_posts (db w)). live q \<and> p = scan_post q"
    using live_posts_in_order [OF 1 [unfolded r]] by simp_all
  then have "set (map post_id ps) = set (filter (\<lambda>i. \<exists>q\<in>set (t_posts (db w)). p_id q = i \<and> live q) (rev (remdups (rev ids))))"
    "set ps \<subseteq> scan_post ` {q \<in> set (t_posts (db w)). live q}" by auto
  then show ?case using r clk by simp
qed

text \<open>C29. A page of the home feed is an exact window of the whole feed (everything pushed to the user and not
  yet expired, merged with all live posts of the followed celebrities): the ids after the cursor, newest
  first, without the posts that are no longer live; and there is a next page, starting exactly after this
  one, if and only if more items follow.\<close>

theorem home_feed_page_exact:
  assumes json: "\<And>c. unmarshal (marshal c) = Some c" "\<And>c. marshal c \<noteq> []"
    and "home_ok u w" "reliable PG w" "reliable Redis w" "cursor_decode unmarshal cursor = Inr cur"
    and "run_state (get_home_feed marshal unmarshal u limit cursor) w = (r, w')"
  shows "\<exists>t posts nx. clock w \<le> t \<and> t \<le> clock w' \<and> r = Inr (posts, nx) \<and>
    (let n = nat (page_limit limit 20 100); items = items_before (home_items u t w) cur
     in map post_id posts = filter (\<lambda>i. \<exists>q\<in>set (t_posts (db w)). p_id q = i \<and> live q) (map it_id (take n items)) \<and>
        (if n < length items then cursor_decode unmarshal nx = Inr (item_key (items ! (n - 1))) else nx = []))"
proof -
  let ?limit = "page_limit limit 20 100"
  have lim: "0 < ?limit" by (simp add: page_limit_def)
  let ?live = "{q \<in> set (t_posts (db w)). live q}"
  define ok where "ok t r v \<longleftrightarrow> clock w \<le> t \<and> t \<le> clock v \<and> (\<exists>posts nx. r = Inr (posts, nx) \<and>
    map post_id posts = filter (\<lambda>i. i \<in> p_id ` ?live) (map it_id (take (nat ?limit) (items_before (home_items u t w) cur))) \<and>
    (if ?limit < int (length (items_before (home_items u t w) cur))
     then cursor_decode unmarshal nx = Inr (item_key (items_before (home_items u t w) cur ! nat (?limit - 1))) else nx = []))"
    for t and r :: "err + post list \<times> string" and v :: world
  have wf: "wf_feeds w" using assms(3) by (simp add: home_ok_def)
  have dec: "cursor_decode unmarshal (cursor_encode marshal c) = Inr c" for c by (intro cursor_round_trip json)
  have "wp (get_home_feed marshal unmarshal u limit cursor) (\<lambda>r v. \<exists>t. ok t r v) w"
    unfolding get_home_feed_def Let_def assms(6) sum.case
  proof (rule wp_tryI [OF wp_feed_items [OF wf assms(5)]], goal_cases)
    case 1
    then show ?case using lim by simp
  next
    case (2 pushed v1)
    let ?t = "clock v1"
    have red: "red v1 = red w" "db v1 = db w" "clock w \<le> ?t" and rel: "reliable PG v1" "reliable Redis v1"
      using 2 assms(4,5) redis_only_outcomes(1) [of w v1] by (auto simp: redis_only_def)
    have "feed_list v1 k = feed_list (w\<lparr>clock := ?t\<rparr>) k" for k using red by (simp add: feed_list_def)
    then have pushed: "pushed = take (nat (?limit + 1)) (items_before (feed_list (w\<lparr>clock := ?t\<rparr>) (home_feed_key u)) cur)"
      using 2 by simp
    have same: "celebrities_of u v1 = celebrities_of u w" using red by (simp add: celebrities_of_def)
    show ?case
    proof (rule wp_tryI [OF wp_followed_celebrities [OF rel]], goal_cases)
      case (1 celebs v2)
      then have v2: "celebs = celebrities_of u w" "db v2 = db w" "reliable PG v2" "?t \<le> clock v2"
        using same red by simp_all
      show ?case unfolding v2(1)
      proof (rule wp_tryI [OF wp_pulled_posts [OF v2(3,2)]], goal_cases)
        case 1
        then show ?case using lim by simp
      next
        case (2 ps v3)
        then have v3: "map item_of_post ps = take (nat (?limit + 1)) (items_before (pulled_items u w) cur)"
          "set ps \<subseteq> scan_post ` ?live" "db v3 = db w" "reliable PG v3" "?t \<le> clock v3" using v2(4) by auto
        let ?M = "items_before (merge_feeds 0 [pushed, map item_of_post ps]) cur" and ?R = "items_before (home_items u ?t w) cur"
        note page = home_items_page [OF assms(3) lim, where cur = cur and t = ?t, folded pushed v3(1)]
        let ?items = "if ?limit < int (length ?M) then take (nat ?limit) ?M else ?M"
        have items: "map it_id ?items = map it_id (take (nat ?limit) ?R)" using page(2) lim by auto
        let ?need = "filter (\<lambda>i. i \<notin> post_id ` set ps) (map it_id ?items)"
        have scan: "post_id ` scan_post ` X = p_id ` X" for X by (simp add: image_image scan_post_def)
        show ?case
        proof (rule wp_tryI [OF wp_live_posts [OF v3(4)]], goal_cases)
          case (1 loaded v4)
          then have ld: "post_id ` set loaded = {i \<in> set ?need. i \<in> p_id ` ?live}" and clk: "?t \<le> clock v4"
            using v3(3,5) by (auto simp: image_iff)
          have "i \<in> post_id ` set (loaded @ ps) \<longleftrightarrow> i \<in> p_id ` ?live" if i: "i \<in> set (map it_id ?items)" for i
          proof (cases "i \<in> post_id ` set ps")
            case True
            then have "i \<in> p_id ` ?live" using v3(2) scan by blast
            then show ?thesis using True by auto
          next
            case False
            then show ?thesis using i ld by (simp add: image_Un)
          qed
          then have ids: "map post_id (page_posts (loaded @ ps) ?items) = filter (\<lambda>i. i \<in> p_id ` ?live) (map it_id ?items)"
            unfolding page_posts_ids by (intro filter_cong) simp_all
          let ?nx = "if ?limit < int (length ?M) then cursor_encode marshal (cursor_of (?M ! nat (?limit - 1))) else []"
          have posts: "map post_id (page_posts (loaded @ ps) ?items) =
              filter (\<lambda>i. i \<in> p_id ` ?live) (map it_id (take (nat ?limit) ?R))" unfolding ids items ..
          have nx: "if ?limit < int (length ?R) then cursor_decode unmarshal ?nx = Inr (item_key (?R ! nat (?limit - 1))) else ?nx = []"
            using page(1,3) dec by simp
          have "ok ?t (Inr (page_posts (loaded @ ps) ?items, ?nx)) v4"
            unfolding ok_def using red(3) clk posts nx by blast
          then show ?case unfolding wp_ret by blast
        qed simp
      qed simp
    qed simp
  qed simp
  from wp_run [OF this assms(7)] obtain t where t: "ok t r w'" by blast
  have live: "(\<exists>q\<in>set (t_posts (db w)). p_id q = i \<and> live q) = (i \<in> p_id ` ?live)" for i by auto
  have idx: "nat ?limit - 1 = nat (?limit - 1)" "(nat ?limit < k) = (?limit < int k)" for k using lim by auto
  show ?thesis unfolding Let_def live idx using t unfolding ok_def by blast
qed

section \<open>A small instance\<close>

text \<open>\<open>ann\<close> follows \<open>bob\<close>, a celebrity with one post; one post of somebody else was pushed to her.\<close>

definition demo_home :: world where
  "demo_home = quiet_world\<lparr>db := empty_db\<lparr>t_posts := [demo_row ''p1'' ''bob'' 5, demo_row ''p2'' ''eve'' 7],
       t_follows := [\<lparr>f_from = ''ann'', f_to = ''bob'', f_at = 1\<rparr>]\<rparr>,
     red := empty_redis\<lparr>r_set := (\<lambda>_. [])(celebrity_set_key := [''bob'']),
       r_zset := (\<lambda>_. [])(home_feed_key ''ann'' := [(''p2'', 7)])\<rparr>\<rparr>"

lemma demo_home_ok: "home_ok ''ann'' demo_home" "reliable y demo_home"
proof -
  show "home_ok ''ann'' demo_home"
    by (auto simp: demo_home_def home_ok_def wf_feeds_def wf_zset_def demo_row_def home_feed_key_def)
  show "reliable y demo_home" by (simp add: outcomes_def demo_home_def quiet_world_def)
qed

lemma demo_home_items: "map it_id (home_items ''ann'' t demo_home) = [''p2'', ''p1'']"
  by (simp add: home_items_def feed_list_def zlive_def pulled_items_def celebrities_of_def posts_by_def demo_home_def
      empty_redis_def demo_row_def live_def sort_desc_def merge_feeds_def Let_def item_of_z_def item_of_post_def scan_post_def
      item_key_def post_key_def empty_db_def)

theorem home_feed_page_exact_witness:
  "\<exists>posts. fst (run_state (get_home_feed demo_marshal demo_unmarshal ''ann'' 10 []) demo_home) = Inr (posts, []) \<and>
     map post_id posts = [''p2'', ''p1'']"
proof -
  let ?r = "run_state (get_home_feed demo_marshal demo_unmarshal ''ann'' 10 []) demo_home"
  have run: "?r = (fst ?r, snd ?r)" by simp
  obtain t posts nx where r: "fst ?r = Inr (posts, nx)" and p:
    "let n = nat (page_limit 10 20 100); items = items_before (home_items ''ann'' t demo_home) (0, [])
     in map post_id posts = filter (\<lambda>i. \<exists>q\<in>set (t_posts (db demo_home)). p_id q = i \<and> live q) (map it_id (take n items)) \<and>
        (if n < length items then cursor_decode demo_unmarshal nx = Inr (item_key (items ! (n - 1))) else nx = [])"
    using home_feed_page_exact [OF demo_json demo_home_ok demo_home_ok(2) _ run] by (force simp: cursor_decode_def)
  have items: "map it_id (items_before (home_items ''ann'' t demo_home) (0, [])) = [''p2'', ''p1'']"
    using demo_home_items [of t] by (simp add: items_before_def is_set_def)
  have "length (items_before (home_items ''ann'' t demo_home) (0, [])) =
      length (map it_id (items_before (home_items ''ann'' t demo_home) (0, [])))" by (rule length_map [symmetric])
  then have "length (items_before (home_items ''ann'' t demo_home) (0, [])) = 2" unfolding items by simp
  then show ?thesis using p items r
    by (simp add: Let_def page_limit_def take_map [symmetric]) (simp add: demo_home_def demo_row_def live_def)
qed

end
