(* ===== verification/FeedWorker.thy ===== *)
theory FeedWorker
  imports Posts FeedStore
begin

text \<open>
  \<open>services/feed/worker/feed_worker.go\<close>: the consumer of \<open>post.created\<close> that delivers a post to the
  followers' feeds, or marks its author as one whose posts are pulled.
\<close>

section \<open>The handler\<close>

text \<open>\<open>None\<close> is a payload that does not decode; \<open>sched\<close> schedules the goroutines of \<open>FanOut\<close>.  The fuel of
  \<open>AllFollowers\<close> never runs out (\<open>wp_all_followers\<close>).\<close>

definition handle_post_created :: "nat stream \<Rightarrow> policy \<Rightarrow> ctx \<Rightarrow> event option \<Rightarrow> unit io" where
  "handle_post_created sched p0 c ev =
     (case ev of
        Some (PostCreated pid user msg url mime created) \<Rightarrow>
          (let p = policy_defaults p0
           in tryE (follower_count_up_to user (celebrity_threshold p + 1)) (\<lambda>total.
                if total = 0 then ret ()
                else if decide_mode p total = Pull then redis_sadd celebrity_set_key user
                else tryE (all_followers user (celebrity_threshold p)) (\<lambda>fs.
                  (case fs of
                     None \<Rightarrow> fail ErrPanic
                   | Some ids \<Rightarrow>
                       Monad_Syntax.bind now (\<lambda>t.
                         (let it = \<lparr>it_id = pid, it_author = user, it_at = (if created = 0 then unix t else created)\<rparr>
                          in Monad_Syntax.bind (fan_out sched c ids it p) (\<lambda>(trips, e).
                               case e of None \<Rightarrow> ret () | Some x \<Rightarrow> fail x)))))))
      | _ \<Rightarrow> fail ErrIO)"

section \<open>What a handled event leaves behind\<close>

lemma policy_defaults_idem [simp]: "policy_defaults (policy_defaults p) = policy_defaults p"
  using policy_defaults_pos [of p] by (simp add: policy_defaults_def [of "policy_defaults p"] Let_def)

lemma wp_all_followers:
  assumes "follows_wf w" "0 \<le> mx"
  shows "wp (all_followers u mx) (\<lambda>r w'. db w' = db w \<and> r \<noteq> Inr None \<and>
    (\<forall>xs. r = Inr (Some xs) \<longrightarrow> xs = map f_from (take (nat mx) (sort_desc follower_key (followers_of u w)))) \<and>
    (reliable PG w \<longrightarrow> \<not> isl r)) w"
  unfolding all_followers_def
  by (rule all_followers_loop_exact [OF assms(1) refl, where i = 0]) (use assms(2) in simp_all)

text \<open>What calls of the database keep is kept by the whole loop.\<close>

lemma followers_keep:
  assumes "\<And>v. J v \<Longrightarrow> J (after_call PG v)" "J w"
  shows "wp (followers u cur n) (\<lambda>r w'. J w') w"
  using assms by (auto simp: followers_def graph_page_def wp_tryE wp_pg_query wp_ret split: prod.split)

lemma all_followers_loop_keeps:
  assumes "\<And>v. J v \<Longrightarrow> J (after_call PG v)" "J w"
  shows "wp (all_followers_loop fuel u mx out cur) (\<lambda>r w'. J w') w"
  using assms(2)
proof (induction fuel arbitrary: out cur w)
  case 0
  then show ?case by (subst all_followers_loop.simps) (simp add: wp_ret)
next
  case (Suc m)
  show ?case
  proof (subst all_followers_loop.simps, cases "int (length out) < mx", goal_cases)
    case 1
    then show ?case unfolding Let_def if_P [OF 1] nat.case
    proof (intro wp_tryI [OF followers_keep [OF assms(1) Suc.prems]], goal_cases)
      case (2 x v)
      then show ?case using Suc.IH [of v] by (cases "snd x") (simp_all add: wp_ret)
    qed simp_all
  qed (simp add: wp_ret Suc.prems)
qed

lemma all_followers_keeps:
  assumes "\<And>v. J v \<Longrightarrow> J (after_call PG v)" "J w"
  shows "wp (all_followers u mx) (\<lambda>r w'. J w') w"
  unfolding all_followers_def by (rule all_followers_loop_keeps [OF assms])

lemma red_all_followers: "wp (all_followers u mx) (\<lambda>r w'. red w' = red w) w"
  by (rule all_followers_keeps) simp_all

lemma wp_created_post_reaches:
  assumes "follows_wf w" "\<forall>k. wf_zset (r_zset (red w) k)"
  shows "wp (handle_post_created sched p c (Some (PostCreated pid user msg url mime created))) (\<lambda>r v. r = Inr () \<longrightarrow>
    (let fs = followers_of user w; limit = celebrity_threshold (policy_defaults p)
     in if fs = [] then v = after_call PG w
        else if limit < int (length fs) then user \<in> set (r_set (red v) celebrity_set_key)
        else (\<exists>t. (created \<noteq> 0 \<longrightarrow> t = created) \<and> list_all (\<lambda>f. delivered \<lparr>it_id = pid, it_author = user, it_at = t\<rparr>
          (max_feed_len (policy_defaults p)) (r_zset (red v) (home_feed_key (f_from f)))) fs))) w"
proof -
  let ?p = "policy_defaults p" and ?fs = "followers_of user w"
  let ?limit = "celebrity_threshold ?p"
  have lim: "0 < ?limit" by (rule policy_defaults_pos)
  let ?total = "int (length (take (nat (?limit + 1)) ?fs))"
  have total: "?total = 0 \<longleftrightarrow> ?fs = []" "?total > ?limit \<longleftrightarrow> int (length ?fs) > ?limit" using lim by (auto simp: min_def)
  let ?it = "\<lambda>t. \<lparr>it_id = pid, it_author = user, it_at = t\<rparr>"
  let ?done = "\<lambda>v. \<exists>t. (created \<noteq> 0 \<longrightarrow> t = created) \<and> list_all (\<lambda>f. delivered (?it t) (max_feed_len ?p)
      (r_zset (red v) (home_feed_key (f_from f)))) ?fs"
  have "wp (handle_post_created sched p c (Some (PostCreated pid user msg url mime created))) (\<lambda>r v. r = Inr () \<longrightarrow>
      (if ?fs = [] then v = after_call PG w
       else if ?limit < int (length ?fs) then user \<in> set (r_set (red v) celebrity_set_key) else ?done v)) w"
  proof (cases "next_out PG w = Done")
    case False
    then show ?thesis by (simp add: handle_post_created_def Let_def follower_count_up_to_def wp_tryE wp_pg_query)
  next
    case True
    let ?w = "after_call PG w"
    have count: "wp (follower_count_up_to user (?limit + 1)) (\<lambda>r v. r = Inr ?total \<and> v = ?w) w"
      using True by (simp add: follower_count_up_to_def wp_pg_query followers_of_def)
    have rest: "wp (tryE (all_followers user ?limit) (\<lambda>fs. (case fs of None \<Rightarrow> fail ErrPanic
                   | Some ids \<Rightarrow> Monad_Syntax.bind now (\<lambda>t.
                         (let it = \<lparr>it_id = pid, it_author = user, it_at = (if created = 0 then unix t else created)\<rparr>
                          in Monad_Syntax.bind (fan_out sched c ids it ?p) (\<lambda>(trips, e).
                               case e of None \<Rightarrow> ret () | Some x \<Rightarrow> fail x)))))) (\<lambda>r v. r = Inr () \<longrightarrow> ?done v) ?w"
      if few: "int (length ?fs) \<le> ?limit"
    proof -
      have wf: "follows_wf ?w" using assms(1) by (simp add: follows_wf_cong [of ?w w])
      have zs: "\<forall>k. wf_zset (r_zset (red ?w) k)" using assms(2) by simp
      have full: "take (nat ?limit) (sort_desc follower_key (followers_of user ?w)) = sort_desc follower_key ?fs"
        using few by (simp add: sort_desc_def)
      have all: "wp (all_followers user ?limit) (\<lambda>r v. red v = red w \<and> (\<forall>xs. r = Inr (Some xs) \<longrightarrow> set xs = f_from ` set ?fs)) ?w"
      proof (rule wp_mono [OF wp_conj [OF wp_all_followers [OF wf less_imp_le [OF lim]] red_all_followers]],
          elim conjE, intro conjI allI impI, goal_cases)
        case (1 r v)
        then show ?case by (simp only: after_call_simps)
      next
        case (2 r v xs)
        from 2(4) 2(6) have "xs = map f_from (sort_desc follower_key ?fs)" unfolding full by blast
        then show ?case by simp
      qed
      show ?thesis
      proof (rule wp_tryI [OF all], goal_cases)
        case (1 x v)
        show ?case
        proof (cases x)
          case None
          then show ?thesis by (simp add: wp_ret)
        next
          case (Some ids)
          then have v: "red v = red w" "set ids = f_from ` set ?fs" using 1 by auto
          let ?t = "if created = 0 then unix (clock v) else created"
          have zv: "\<forall>k. wf_zset (r_zset (red v) k)" using assms(2) v by simp
          have "wp (fan_out sched c ids (?it ?t) ?p) (\<lambda>(trips, e) u. e = None \<longrightarrow>
              list_all (\<lambda>f. delivered (?it ?t) (max_feed_len ?p) (r_zset (red u) (home_feed_key f))) ids) v"
          proof (rule wp_state, clarify)
            fix trips u
            assume "run_state (fan_out sched c ids (?it ?t) ?p) v = ((trips, None), u)"
            from fan_out_reaches_everyone [OF zv this]
            show "list_all (\<lambda>f. delivered (?it ?t) (max_feed_len ?p) (r_zset (red u) (home_feed_key f))) ids" by simp
          qed
          then have "wp (Monad_Syntax.bind (fan_out sched c ids (?it ?t) ?p) (\<lambda>(trips, e).
                case e of None \<Rightarrow> ret () | Some x \<Rightarrow> fail x)) (\<lambda>r v. r = Inr () \<longrightarrow> ?done v) v"
            by (rule wp_bindI) (auto simp: wp_ret list_all_iff v(2) split: option.split intro!: exI [of _ ?t])
          then show ?thesis unfolding Some option.case wp_bind wp_now Let_def .
        qed
      qed auto
    qed
    show ?thesis unfolding handle_post_created_def option.case event.case Let_def
    proof (rule wp_tryI [OF count], goal_cases)
      case (1 x v)
      then have x: "x = ?total" "v = ?w" by simp_all
      consider (none) "?fs = []" | (many) "?fs \<noteq> []" "int (length ?fs) > ?limit" | (few) "?fs \<noteq> []" "int (length ?fs) \<le> ?limit"
        by linarith
      then show ?case
      proof cases
        case none
        then show ?thesis unfolding x using total(1) by (simp add: wp_ret)
      next
        case many
        then have pull: "decide_mode ?p ?total = Pull" "?total \<noteq> 0" using total by (auto simp: decide_mode_def)
        show ?thesis unfolding x if_not_P [OF pull(2)] if_P [OF pull(1)] using many
          by (auto simp: redis_sadd_def wp_ext_call split: outcome.split)
      next
        case few
        then have push: "decide_mode ?p ?total \<noteq> Pull" "?total \<noteq> 0" using total by (auto simp: decide_mode_def)
        show ?thesis unfolding x if_not_P [OF push(2)] if_not_P [OF push(1)]
          using wp_mono [OF rest [unfolded Let_def, OF few(2)]] few by fastforce
      qed
    next
      case (2 e v)
      then show ?case by simp
    qed
  qed
  then show ?thesis by (simp add: Let_def)
qed

lemma wp_created_post_succeeds:
  assumes "follows_wf w" "reliable PG w" "reliable Redis w"
  shows "wp (handle_post_created sched p None (Some (PostCreated pid user msg url mime created))) (\<lambda>r v. r = Inr ()) w"
proof -
  let ?p = "policy_defaults p" and ?w = "after_call PG w"
  let ?limit = "celebrity_threshold ?p"
  have lim: "0 \<le> ?limit" using policy_defaults_pos(1) [of p] by simp
  have wf: "follows_wf ?w" "reliable PG ?w" "reliable Redis ?w"
    using assms by (simp_all add: follows_wf_cong [of ?w w])
  have count: "wp (follower_count_up_to user (?limit + 1)) (\<lambda>r v. (\<exists>n. r = Inr n) \<and> v = ?w) w"
    using reliable_next [OF assms(2)] by (simp add: follower_count_up_to_def wp_pg_query)
  have all: "wp (all_followers user ?limit) (\<lambda>r v. (\<exists>ids. r = Inr (Some ids)) \<and> reliable Redis v) ?w"
  proof (rule wp_mono [OF wp_conj [OF wp_all_followers [OF wf(1) lim] all_followers_keeps [where J = "reliable Redis", OF _ wf(3)]]],
      goal_cases)
    case (2 r v)
    then have "r \<noteq> Inr None" "\<not> isl r" using wf(2) by simp_all
    then have "\<exists>ids. r = Inr (Some ids)" by (cases r) auto
    then show ?case using 2 by simp
  qed simp
  show ?thesis unfolding handle_post_created_def option.case event.case Let_def
  proof (rule wp_tryI [OF count], goal_cases)
    case (1 x v)
    then have v: "v = ?w" by simp
    have sadd: "wp (redis_sadd celebrity_set_key user) (\<lambda>r v. r = Inr ()) ?w"
      using reliable_next [OF wf(3)] by (simp add: redis_sadd_def wp_ext_call)
    have push: "wp (tryE (all_followers user ?limit) (\<lambda>fs. (case fs of None \<Rightarrow> fail ErrPanic
                   | Some ids \<Rightarrow> Monad_Syntax.bind now (\<lambda>t.
                         Monad_Syntax.bind (fan_out sched None ids \<lparr>it_id = pid, it_author = user,
                             it_at = (if created = 0 then unix t else created)\<rparr> ?p) (\<lambda>(trips, e).
                               case e of None \<Rightarrow> ret () | Some x \<Rightarrow> fail x))))) (\<lambda>r v. r = Inr ()) ?w"
    proof (rule wp_tryI [OF all], goal_cases)
      case (1 fs v)
      then obtain ids where ids: "fs = Some ids" "reliable Redis v" by auto
      have "wp (fan_out sched None ids it ?p) (\<lambda>(trips, e) u. e = None) v" for it
      proof (rule wp_state, clarify)
        fix trips e u
        assume "run_state (fan_out sched None ids it ?p) v = ((trips, e), u)"
        then show "e = None" using fan_out_succeeds [OF ids(2), of sched ids it ?p] by simp
      qed
      then show ?case unfolding ids(1) option.case wp_bind wp_now
        by (rule wp_mono) (auto simp: wp_ret)
    qed auto
    show ?case
    proof (cases "x = 0")
      case True
      then show ?thesis by (simp add: wp_ret)
    next
      case no: False
      show ?thesis
      proof (cases "decide_mode ?p x = Pull")
        case True
        show ?thesis unfolding v if_not_P [OF no] if_P [OF True] by (rule sadd)
      next
        case False
        show ?thesis unfolding v if_not_P [OF no] if_not_P [OF False] by (rule push)
      qed
    qed
  next
    case (2 e v)
    then show ?case by simp
  qed
qed

text \<open>C30. When the event of a new post has been handled without an error, its followers are served: nobody
  follows the author; or more than the threshold do and the author is in the set of accounts whose posts
  are pulled; or the post is in the feed of every single follower (or the feed is full of newer posts).
  With database and Redis up it is handled without an error.\<close>

theorem created_post_reaches_followers:
  assumes "follows_wf w" "\<forall>k. wf_zset (r_zset (red w) k)"
    and "run_state (handle_post_created sched p c (Some (PostCreated pid user msg url mime created))) w = (r, w')"
  shows "(r = Inr () \<longrightarrow> (let fs = followers_of user w; limit = celebrity_threshold (policy_defaults p)
    in if fs = [] then w' = after_call PG w
       else if limit < int (length fs) then user \<in> set (r_set (red w') celebrity_set_key)
       else (\<exists>t. (created \<noteq> 0 \<longrightarrow> t = created) \<and> list_all (\<lambda>f. delivered \<lparr>it_id = pid, it_author = user, it_at = t\<rparr>
         (max_feed_len (policy_defaults p)) (r_zset (red w') (home_feed_key (f_from f)))) fs))) \<and>
    (reliable PG w \<and> reliable Redis w \<and> c = None \<longrightarrow> r = Inr ())"
  using wp_run [OF wp_created_post_reaches [OF assms(1,2)] assms(3)]
    wp_run [OF wp_created_post_succeeds [OF assms(1)], of sched p pid user msg url mime created r w'] assms(3) by blast

section \<open>A small instance\<close>

text \<open>\<open>bob\<close> follows \<open>ann\<close> (as in \<open>demo_social\<close>); \<open>ann\<close> writes a post.\<close>

lemma demo_social_feeds: "\<forall>k. wf_zset (r_zset (red demo_social) k)"
  by (simp add: demo_social_def quiet_world_def empty_redis_def)

theorem created_post_reaches_followers_witness:
  "delivered \<lparr>it_id = ''p1'', it_author = ''ann'', it_at = 5\<rparr> 500 (r_zset (red (snd (run_state
     (handle_post_created (sconst 1) \<lparr>celebrity_threshold = 0, fan_batch = 0, parallelism = 0, max_feed_len = 0, feed_ttl = 0\<rparr> None
       (Some (PostCreated ''p1'' ''ann'' [] [] [] 5))) demo_social))) (home_feed_key ''bob''))"
proof -
  let ?p = "\<lparr>celebrity_threshold = 0, fan_batch = 0, parallelism = 0, max_feed_len = 0, feed_ttl = 0\<rparr>"
  let ?r = "run_state (handle_post_created (sconst 1) ?p None (Some (PostCreated ''p1'' ''ann'' [] [] [] 5))) demo_social"
  have run: "?r = (fst ?r, snd ?r)" by simp
  have fs: "followers_of ''ann'' demo_social = [demo_follow]" "f_from demo_follow = ''bob''"
    by (simp_all add: followers_of_def demo_social_ok(3) demo_follow_def)
  have p: "celebrity_threshold (policy_defaults ?p) = 5000" "max_feed_len (policy_defaults ?p) = 500"
    by (simp_all add: policy_defaults_def)
  from created_post_reaches_followers [OF demo_social_ok(1) demo_social_feeds run] demo_social_ok(2)
  show ?thesis by (auto simp: fs p Let_def)
qed

end
