(* ===== verification/Notify.thy ===== *)
theory Notify
  imports Posts
begin

text \<open>
  \<open>services/notification/worker/notification_worker.go\<close>: the consumer of \<open>post.liked\<close> that owns the
  notifications table.
\<close>

section \<open>The handler\<close>

definition upd_notifications :: "(notif_row list \<Rightarrow> notif_row list) \<Rightarrow> world \<Rightarrow> world" where
  "upd_notifications f = upd_db (\<lambda>d. d\<lparr>t_notifications := f (t_notifications d)\<rparr>)"

definition like_notification_id :: "string \<Rightarrow> string \<Rightarrow> string" where
  "like_notification_id pid liker = ''like:'' @ pid @ '':'' @ liker"

definition insert_notification :: "notif_row \<Rightarrow> int io" where
  "insert_notification n = ext_call PG (\<lambda>w.
     if list_ex (\<lambda>m. n_id m = n_id n) (t_notifications (db w)) then (Inr 0, w)
     else (Inr 1, upd_notifications (\<lambda>rows. rows @ [n]) w))"

text \<open>\<open>None\<close> is a payload that does not decode; times of rows are microseconds, times of events seconds.\<close>

definition handle_post_liked :: "event option \<Rightarrow> unit io" where
  "handle_post_liked ev =
     (case ev of
        Some (PostLiked pid liker owner created) \<Rightarrow>
          if liker = owner then ret ()
          else Monad_Syntax.bind now (\<lambda>t.
            tryE (insert_notification \<lparr>n_id = like_notification_id pid liker, n_user = owner, n_type = ''like'', n_actor = liker,
                n_post = pid, n_read = False, n_at = (if created > 0 then created * 1000000 else t)\<rparr>) (\<lambda>_. ret ()))
      | _ \<Rightarrow> fail ErrIO)"

section \<open>At-least-once delivery notifies once\<close>

text \<open>The deliveries of one event: each may fail anywhere, and be repeated.\<close>

fun deliver_all :: "event option list \<Rightarrow> (world, (err + unit) list) state" where
  "deliver_all [] = State_Monad.return []"
| "deliver_all (e # es) = Monad_Syntax.bind (handle_post_liked e) (\<lambda>r.
     Monad_Syntax.bind (deliver_all es) (\<lambda>rs. State_Monad.return (r # rs)))"

text \<open>The row an event asks for.\<close>

definition notifies :: "event option \<Rightarrow> notif_row \<Rightarrow> bool" where
  "notifies ev n \<longleftrightarrow> (case ev of
       Some (PostLiked pid liker owner created) \<Rightarrow> liker \<noteq> owner \<and> n_id n = like_notification_id pid liker \<and> n_user n = owner \<and>
         n_actor n = liker \<and> n_post n = pid \<and> n_type n = ''like''
     | _ \<Rightarrow> False)"

text \<open>An event that was handled has its row, unless the liker is the author.\<close>

definition notified :: "event option \<Rightarrow> notif_row list \<Rightarrow> bool" where
  "notified ev rows \<longleftrightarrow> (case ev of
       Some (PostLiked pid liker owner created) \<Rightarrow> liker = owner \<or> count_where (\<lambda>n. n_id n = like_notification_id pid liker) rows = 1
     | _ \<Rightarrow> False)"

abbreviation notifications :: "world \<Rightarrow> notif_row list" where
  "notifications w \<equiv> t_notifications (db w)"

definition grown_by :: "event option set \<Rightarrow> world \<Rightarrow> world \<Rightarrow> bool" where
  "grown_by E w v \<longleftrightarrow> db v = (db w)\<lparr>t_notifications := notifications v\<rparr> \<and> distinct (map n_id (notifications v)) \<and>
     (\<exists>new. notifications v = notifications w @ new \<and> (\<forall>n\<in>set new. \<exists>ev\<in>E. notifies ev n))"

lemma grown_by_same: "distinct (map n_id (notifications w)) \<Longrightarrow> db v = db w \<Longrightarrow> grown_by E w v"
  by (simp add: grown_by_def)

lemma grown_by_trans:
  assumes "grown_by E u v" "grown_by F v w"
  shows "grown_by (E \<union> F) u w"
proof -
  obtain xs ys where xs: "notifications v = notifications u @ xs" "\<forall>n\<in>set xs. \<exists>ev\<in>E. notifies ev n"
    and ys: "notifications w = notifications v @ ys" "\<forall>n\<in>set ys. \<exists>ev\<in>F. notifies ev n"
    using assms unfolding grown_by_def by blast
  have new: "notifications w = notifications u @ (xs @ ys)" "\<forall>n\<in>set (xs @ ys). \<exists>ev\<in>E \<union> F. notifies ev n"
    using xs ys by auto
  have "db w = (db v)\<lparr>t_notifications := notifications w\<rparr>" "db v = (db u)\<lparr>t_notifications := notifications v\<rparr>"
    "distinct (map n_id (notifications w))" using assms unfolding grown_by_def by blast+
  moreover from this(1,2) have "db w = (db u)\<lparr>t_notifications := notifications w\<rparr>" by (metis database.update_convs(8) database.surjective)
  ultimately show ?thesis using new unfolding grown_by_def by blast
qed

lemma count_distinct:
  assumes "distinct (map key rows)"
  shows "count_where (\<lambda>n. key n = i) rows = (if i \<in> key ` set rows then 1 else 0)"
  using assms by (induction rows) (auto simp: count_where_def)

lemma wp_handle_post_liked:
  assumes "distinct (map n_id (notifications w))"
  shows "wp (handle_post_liked ev) (\<lambda>r v. grown_by {ev} w v \<and> (r = Inr () \<longrightarrow> notified ev (notifications v))) w"
proof (cases "\<exists>pid liker owner created. ev = Some (PostLiked pid liker owner created) \<and> liker \<noteq> owner")
  case False
  then show ?thesis using grown_by_same [OF assms, of w]
    by (auto simp: handle_post_liked_def notified_def wp_ret split: option.split event.split)
next
  case True
  then obtain pid liker owner created where ev: "ev = Some (PostLiked pid liker owner created)" "liker \<noteq> owner" by blast
  let ?i = "like_notification_id pid liker"
  let ?w = "after_call PG w"
  have ins: "wp (insert_notification \<lparr>n_id = ?i, n_user = owner, n_type = ''like'', n_actor = liker, n_post = pid,
      n_read = False, n_at = t\<rparr>) (\<lambda>r v. grown_by {ev} w v \<and> (\<forall>n. r = Inr n \<longrightarrow> ?i \<in> n_id ` set (notifications v))) w"
    (is "wp (insert_notification ?row) _ _") for t
  proof (cases "list_ex (\<lambda>m. n_id m = ?i) (notifications w)")
    case True
    then have "?i \<in> n_id ` set (notifications w)" by (force simp: list_ex_iff)
    then show ?thesis using True grown_by_same [OF assms, of ?w]
      by (simp add: insert_notification_def wp_ext_call split: outcome.split)
  next
    case False
    let ?v = "upd_notifications (\<lambda>rows. rows @ [?row]) ?w"
    have "?i \<notin> n_id ` set (notifications w)" using False by (auto simp: list_ex_iff)
    moreover have "db ?v = (db w)\<lparr>t_notifications := notifications w @ [?row]\<rparr>" by (simp add: upd_notifications_def)
    moreover have "notifies ev ?row" using ev by (simp add: notifies_def)
    ultimately have "grown_by {ev} w ?v" using assms by (simp add: grown_by_def)
    moreover have "?i \<in> n_id ` set (notifications ?v)" by (simp add: upd_notifications_def)
    ultimately show ?thesis using False grown_by_same [OF assms, of ?w]
      by (simp add: insert_notification_def wp_ext_call split: outcome.split)
  qed
  show ?thesis unfolding ev(1) handle_post_liked_def option.case event.case if_not_P [OF ev(2)] wp_bind wp_now
  proof (rule wp_tryI [OF ins [unfolded ev(1)]], goal_cases)
    case (1 x v)
    then have "distinct (map n_id (notifications v))" "?i \<in> n_id ` set (notifications v)" by (auto simp: grown_by_def)
    then show ?case using 1 by (simp add: wp_ret notified_def count_distinct)
  qed auto
qed

lemma notified_grows:
  assumes "notified ev (notifications v)" "grown_by E v w"
  shows "notified ev (notifications w)"
proof -
  obtain new where new: "notifications w = notifications v @ new" and d: "distinct (map n_id (notifications w))"
    using assms(2) unfolding grown_by_def by blast
  then have "distinct (map n_id (notifications v))" by simp
  from assms(1) count_distinct [OF this] count_distinct [OF d] show ?thesis
    unfolding notified_def new by (auto split: option.splits event.splits if_splits)
qed

text \<open>C31. Deliveries of \<open>post.liked\<close> may fail and be repeated in any order: the notifications that were there
  stay as they are (a read one stays read), every new one is asked for by a delivered event and is for the
  author of the post, no notification is stored twice, and a like whose event was handled without an
  error has exactly one, unless the author liked the post.\<close>

theorem likes_notify_once:
  assumes "distinct (map n_id (notifications w))" "run_state (deliver_all evs) w = (rs, v)"
  shows "grown_by (set evs) w v \<and> length rs = length evs \<and>
    list_all (\<lambda>(ev, r). r = Inr () \<longrightarrow> notified ev (notifications v)) (zip evs rs)"
proof -
  have "wp (deliver_all evs) (\<lambda>rs v. grown_by (set evs) w v \<and> length rs = length evs \<and>
    list_all (\<lambda>(ev, r). r = Inr () \<longrightarrow> notified ev (notifications v)) (zip evs rs)) w"
    using assms(1)
  proof (induction evs arbitrary: w)
    case Nil
    then show ?case by (simp add: wp_ret grown_by_same)
  next
    case (Cons ev evs)
    show ?case unfolding deliver_all.simps
    proof (rule wp_bindI [OF wp_handle_post_liked [OF Cons.prems]], goal_cases)
      case (1 r u)
      then have u: "grown_by {ev} w u" "r = Inr () \<longrightarrow> notified ev (notifications u)" by simp_all
      then have "distinct (map n_id (notifications u))" by (simp add: grown_by_def)
      from Cons.IH [OF this] show ?case unfolding wp_bind wp_ret
      proof (rule wp_mono, goal_cases)
        case (1 rs x)
        then have "grown_by ({ev} \<union> set evs) w x" using grown_by_trans [OF u(1)] by blast
        then show ?case using 1 u(2) notified_grows by auto
      qed
    qed
  qed
  from wp_run [OF this assms(2)] show ?thesis .
qed

section \<open>A small instance\<close>

theorem likes_notify_once_witness:
  "distinct (map n_id (notifications (snd (run_state
     (deliver_all [Some (PostLiked ''p'' ''bob'' ''ann'' 1), Some (PostLiked ''p'' ''bob'' ''ann'' 1)]) demo_posts))))"
proof -
  let ?r = "run_state (deliver_all [Some (PostLiked ''p'' ''bob'' ''ann'' 1), Some (PostLiked ''p'' ''bob'' ''ann'' 1)]) demo_posts"
  have "?r = (fst ?r, snd ?r)" by simp
  from likes_notify_once [OF _ this] show ?thesis
    by (simp add: demo_posts_def quiet_world_def empty_db_def grown_by_def)
qed

end
