(* ===== verification/Auth.thy ===== *)
theory Auth
  imports SocialGraph
begin

text \<open>
  \<open>services/auth/service/user.go\<close>: sign-up and the check of a password.  \<open>bcrypt\<close> is a pair of
  arguments: \<open>gen\<close> (the hash of a password, \<open>None\<close> if it is refused, as for more than 72 bytes) and
  \<open>cmp\<close> (does the hash belong to the password).
\<close>

section \<open>The operations\<close>

record user =
  user_id :: string
  user_name :: string
  user_password :: string
  user_age :: int
  user_gender :: string

definition upd_users :: "(user_row list \<Rightarrow> user_row list) \<Rightarrow> world \<Rightarrow> world" where
  "upd_users f = upd_db (\<lambda>d. d\<lparr>t_users := f (t_users d)\<rparr>)"

definition insert_user :: "user_row \<Rightarrow> int io" where
  "insert_user u = ext_call PG (\<lambda>w.
     if list_ex (\<lambda>r. u_id r = u_id u) (t_users (db w)) then (Inr 0, w)
     else (Inr 1, upd_users (\<lambda>rows. rows @ [u]) w))"

text \<open>The result is the user with the hash in place of the password.\<close>

definition add_user :: "(string \<Rightarrow> string option) \<Rightarrow> user \<Rightarrow> user io" where
  "add_user gen u =
     (case gen (user_password u) of
        None \<Rightarrow> fail ErrIO
      | Some h \<Rightarrow>
          tryE (insert_user \<lparr>u_id = user_id u, u_name = user_name u, u_hash = h, u_age = user_age u, u_gender = user_gender u\<rparr>) (\<lambda>n.
            if n = 0 then fail ErrUserAlreadyExisted else ret (u\<lparr>user_password := h\<rparr>)))"

definition select_hash :: "string \<Rightarrow> string io" where
  "select_hash i = ext_call PG (\<lambda>w. (case find (\<lambda>r. u_id r = i) (t_users (db w)) of
     None \<Rightarrow> Inl ErrNoRows | Some r \<Rightarrow> Inr (u_hash r), w))"

text \<open>The comparison with \<open>dummyHash\<close> takes time and has no other effect.\<close>

definition check_user :: "(string \<Rightarrow> string \<Rightarrow> bool) \<Rightarrow> string \<Rightarrow> string \<Rightarrow> unit io" where
  "check_user cmp i password = handleE (select_hash i)
     (\<lambda>e. if e = ErrNoRows then fail ErrInvalidCredentials else fail e)
     (\<lambda>h. if \<not> cmp h password then fail ErrInvalidCredentials else ret ())"

section \<open>Accounts\<close>

definition users_wf :: "world \<Rightarrow> bool" where
  "users_wf w \<longleftrightarrow> distinct (map u_id (t_users (db w)))"

text \<open>A sequence of sign-ups, each with its own salt, hence its own \<open>gen\<close>.\<close>

fun sign_ups :: "((string \<Rightarrow> string option) \<times> user) list \<Rightarrow> (world, (err + user) list) state" where
  "sign_ups [] = State_Monad.return []"
| "sign_ups ((gen, u) # rest) = Monad_Syntax.bind (add_user gen u) (\<lambda>r.
     Monad_Syntax.bind (sign_ups rest) (\<lambda>rs. State_Monad.return (r # rs)))"

text \<open>The table only grows, by at most the rows of the sign-ups.\<close>

definition accounts_kept :: "world \<Rightarrow> world \<Rightarrow> bool" where
  "accounts_kept w v \<longleftrightarrow> users_wf v \<and> db v = (db w)\<lparr>t_users := t_users (db v)\<rparr> \<and> (\<exists>new. t_users (db v) = t_users (db w) @ new)"

lemma accounts_kept_trans: "accounts_kept u v \<Longrightarrow> accounts_kept v w \<Longrightarrow> accounts_kept u w"
proof -
  assume a: "accounts_kept u v" "accounts_kept v w"
  then have "db w = (db v)\<lparr>t_users := t_users (db w)\<rparr>" "db v = (db u)\<lparr>t_users := t_users (db v)\<rparr>"
    unfolding accounts_kept_def by blast+
  then have "db w = (db u)\<lparr>t_users := t_users (db w)\<rparr>" by (metis database.update_convs(1) database.surjective)
  with a show ?thesis unfolding accounts_kept_def by (metis append.assoc)
qed

lemma accounts_kept_same: "users_wf w \<Longrightarrow> db v = db w \<Longrightarrow> accounts_kept w v"
  by (simp add: accounts_kept_def users_wf_def)

definition registered :: "user_row \<Rightarrow> world \<Rightarrow> bool" where
  "registered r w \<longleftrightarrow> r \<in> set (t_users (db w))"

definition user_row_of :: "user \<Rightarrow> string \<Rightarrow> user_row" where
  "user_row_of u h = \<lparr>u_id = user_id u, u_name = user_name u, u_hash = h, u_age = user_age u, u_gender = user_gender u\<rparr>"

lemma wp_add_user:
  assumes "users_wf w"
  shows "wp (add_user gen u) (\<lambda>r v. accounts_kept w v \<and>
    (\<forall>u'. r = Inr u' \<longrightarrow> (\<exists>h. gen (user_password u) = Some h \<and> registered (user_row_of u h) v))) w"
proof (cases "gen (user_password u)")
  case None
  then show ?thesis using accounts_kept_same [OF assms] by (simp add: add_user_def wp_ret)
next
  case (Some h)
  let ?w = "after_call PG w" and ?v = "upd_users (\<lambda>rows. rows @ [user_row_of u h]) (after_call PG w)"
  have new: "accounts_kept w ?v" if "\<not> list_ex (\<lambda>r. u_id r = user_id u) (t_users (db w))"
  proof -
    have "user_id u \<notin> u_id ` set (t_users (db w))" using that by (auto simp: list_ex_iff)
    then show ?thesis using assms by (simp add: accounts_kept_def users_wf_def upd_users_def user_row_of_def)
  qed
  have "registered (user_row_of u h) ?v" by (simp add: registered_def upd_users_def)
  then show ?thesis using new Some accounts_kept_same [OF assms, of ?w]
    unfolding add_user_def Some option.case user_row_of_def [symmetric]
    by (cases "list_ex (\<lambda>r. u_id r = user_id u) (t_users (db w))")
      (simp_all add: wp_tryE insert_user_def wp_ext_call wp_ret user_row_of_def split: outcome.split)
qed

lemma registered_kept: "registered r w \<Longrightarrow> accounts_kept w v \<Longrightarrow> registered r v"
  unfolding registered_def accounts_kept_def by (metis Un_iff set_append)

lemma wp_check_user:
  assumes "users_wf w" "registered r w" "reliable PG w"
  shows "wp (check_user cmp (u_id r) password) (\<lambda>x v. x = (if cmp (u_hash r) password then Inr () else Inl ErrInvalidCredentials)) w"
proof -
  have "u_id r \<in> u_id ` set (t_users (db w))" using assms(2) by (simp add: registered_def)
  then obtain s where s: "find (\<lambda>q. u_id q = u_id r) (t_users (db w)) = Some s" "s \<in> set (t_users (db w))" "u_id s = u_id r"
    by (rule find_key)
  have "s = r" using s assms(1,2) by (auto simp: users_wf_def registered_def distinct_map inj_on_def)
  then show ?thesis using s(1) reliable_next [OF assms(3)]
    by (simp add: check_user_def select_hash_def wp_handleE wp_ext_call wp_ret)
qed

text \<open>C32. Whatever sign-ups are tried for an id and whatever calls fail: an account that exists is never
  touched.  After a successful sign-up the answer of a login (when the database answers) is \<open>bcrypt\<close>'s
  comparison of the presented password with the hash generated by that sign-up, success exactly if they
  belong together and \<open>ErrInvalidCredentials\<close> otherwise, also after any number of later sign-ups with
  the same id and other passwords.  Nothing is assumed of \<open>bcrypt\<close>.\<close>

theorem accounts_are_kept:
  assumes "users_wf w" "run_state (add_user gen u) w = (Inr u', w1)" "run_state (sign_ups later) w1 = (rs, w2)"
    and "reliable PG w2" "run_state (check_user cmp (user_id u) password) w2 = (res, w3)"
  shows "accounts_kept w w2 \<and> (\<exists>h. gen (user_password u) = Some h \<and> registered (user_row_of u h) w2 \<and>
    res = (if cmp h password then Inr () else Inl ErrInvalidCredentials))"
proof -
  have kept: "wp (sign_ups us) (\<lambda>rs v. accounts_kept x v) x" if "users_wf x" for us x
    using that
  proof (induction us arbitrary: x)
    case Nil
    then show ?case by (simp add: wp_ret accounts_kept_same)
  next
    case (Cons gu us)
    obtain g v where gu: "gu = (g, v)" by fastforce
    show ?case unfolding gu sign_ups.simps
    proof (rule wp_bindI [OF wp_add_user [OF Cons.prems]], goal_cases)
      case (1 r y)
      then have y: "accounts_kept x y" "users_wf y" by (auto simp: accounts_kept_def)
      show ?case unfolding wp_bind wp_ret
        by (rule wp_mono [OF Cons.IH [OF y(2)]]) (rule accounts_kept_trans [OF y(1)])
    qed
  qed
  obtain h where h: "accounts_kept w w1" "gen (user_password u) = Some h" "registered (user_row_of u h) w1"
    using wp_run [OF wp_add_user [OF assms(1)] assms(2)] by blast
  have wf1: "users_wf w1" using h(1) by (simp add: accounts_kept_def)
  have k2: "accounts_kept w1 w2" by (rule wp_run [OF kept [OF wf1] assms(3)])
  then have wf2: "users_wf w2" by (simp add: accounts_kept_def)
  have "res = (if cmp h password then Inr () else Inl ErrInvalidCredentials)"
    using wp_run [OF wp_check_user [OF wf2 registered_kept [OF h(3) k2] assms(4)], of cmp password res w3] assms(5)
    by (simp add: user_row_of_def)
  then show ?thesis using h(2) registered_kept [OF h(3) k2] accounts_kept_trans [OF h(1) k2] by blast
qed

section \<open>A small instance\<close>

text \<open>An example hash.\<close>

definition demo_gen :: "string \<Rightarrow> string option" where
  "demo_gen p = Some (''$'' @ p)"

definition demo_cmp :: "string \<Rightarrow> string \<Rightarrow> bool" where
  "demo_cmp h p \<longleftrightarrow> h = ''$'' @ p"

definition demo_account :: user where
  "demo_account = \<lparr>user_id = ''eve'', user_name = ''Eve'', user_password = ''secret'', user_age = 30, user_gender = []\<rparr>"

theorem accounts_are_kept_witness:
  "fst (run_state (check_user demo_cmp ''eve'' ''hacked'') (snd (run_state (sign_ups [(demo_gen, demo_account\<lparr>user_password := ''hacked''\<rparr>)])
     (snd (run_state (add_user demo_gen demo_account) demo_social))))) = Inl ErrInvalidCredentials"
proof -
  let ?a = "run_state (add_user demo_gen demo_account) demo_social"
  let ?b = "run_state (sign_ups [(demo_gen, demo_account\<lparr>user_password := ''hacked''\<rparr>)]) (snd ?a)"
  let ?c = "run_state (check_user demo_cmp ''eve'' ''hacked'') (snd ?b)"
  have wf: "users_wf demo_social" "\<not> list_ex (\<lambda>r. u_id r = ''eve'') (t_users (db demo_social))"
    by (simp_all add: users_wf_def demo_social_def demo_user_def)
  have a: "?a = (Inr (demo_account\<lparr>user_password := ''$secret''\<rparr>), snd ?a)"
    using wf(2) by (simp add: add_user_def demo_gen_def demo_account_def insert_user_def run_tryE ext_call_def demo_social_next)
  have "snd ?a = upd_users (\<lambda>rows. rows @ [\<lparr>u_id = ''eve'', u_name = ''Eve'', u_hash = ''$secret'', u_age = 30, u_gender = []\<rparr>]) demo_social"
    using wf(2) by (simp add: add_user_def demo_gen_def demo_account_def insert_user_def run_tryE ext_call_def demo_social_next)
  then have up: "reliable PG (snd ?a)" "list_ex (\<lambda>r. u_id r = ''eve'') (t_users (db (snd ?a)))"
    using demo_social_ok(2) [of PG] by (simp_all add: upd_users_def)
  then have "snd ?b = after_call PG (snd ?a)"
    using reliable_next [OF up(1)]
    by (simp add: add_user_def demo_gen_def demo_account_def insert_user_def run_simps ext_call_def)
  then have rel: "reliable PG (snd ?b)" using up(1) by simp
  have id: "user_id demo_account = ''eve''" by (simp add: demo_account_def)
  have b: "?b = (fst ?b, snd ?b)" by simp
  have c: "run_state (check_user demo_cmp (user_id demo_account) ''hacked'') (snd ?b) = (fst ?c, snd ?c)" unfolding id by simp
  obtain h where h: "demo_gen (user_password demo_account) = Some h"
    "fst ?c = (if demo_cmp h ''hacked'' then Inr () else Inl ErrInvalidCredentials)"
    using accounts_are_kept [OF wf(1) a b rel c] by blast
  then have "\<not> demo_cmp h ''hacked''" by (auto simp: demo_gen_def demo_cmp_def demo_account_def)
  with h(2) show ?thesis by simp
qed

end
