(* ===== verification/Idempotency.thy ===== *)
theory Idempotency
  imports RedisStore
begin

text \<open>
  \<open>shared/idempotency/idempotency.go\<close> and its client \<open>withIdempotency\<close> of
  \<open>services/post/handler/post.go\<close>: a request with an \<open>Idempotency-Key\<close> claims the key, runs, and stores
  its response for the retries.  \<open>encoding/json\<close> of an entry is a pair of arguments.
\<close>

section \<open>The store\<close>

record response =
  rs_status :: int
  rs_body :: string

record entry =
  e_state :: string
  e_fp :: string
  e_resp :: "response option"

record idem_store =
  lock_ttl :: int
  result_ttl :: int

text \<open>Two minutes and 24 hours, in microseconds.\<close>

definition idem_ttl :: "idem_store \<Rightarrow> int \<times> int" where
  "idem_ttl s = (if lock_ttl s \<le> 0 then 120000000 else lock_ttl s, if result_ttl s \<le> 0 then 86400000000 else result_ttl s)"

definition idem_key :: "string \<Rightarrow> string \<Rightarrow> string \<Rightarrow> string" where
  "idem_key scope user key = ''idem:'' @ scope @ '':'' @ user @ '':'' @ key"

text \<open>\<open>Begin\<close>: the claim, and the look at the entry when there is one already.\<close>

definition idem_claim :: "(entry \<Rightarrow> string) \<Rightarrow> idem_store \<Rightarrow> string \<Rightarrow> string \<Rightarrow> bool io" where
  "idem_claim marshal s k fp = redis_setnx k (marshal \<lparr>e_state = ''running'', e_fp = fp, e_resp = None\<rparr>) (fst (idem_ttl s))"

definition idem_reply :: "(string \<Rightarrow> entry option) \<Rightarrow> string \<Rightarrow> string option \<Rightarrow> response option io" where
  "idem_reply unmarshal fp v =
     (case v of
        None \<Rightarrow> fail ErrInProgress
      | Some raw \<Rightarrow> (case unmarshal raw of
          None \<Rightarrow> fail ErrIO
        | Some e \<Rightarrow>
            if e_fp e \<noteq> fp then fail ErrKeyReused
            else if e_state e = ''done'' \<and> e_resp e \<noteq> None then ret (e_resp e)
            else fail ErrInProgress))"

definition idem_probe :: "(string \<Rightarrow> entry option) \<Rightarrow> string \<Rightarrow> string \<Rightarrow> response option io" where
  "idem_probe unmarshal k fp = handleE (redis_get k) (\<lambda>_. fail ErrInProgress) (idem_reply unmarshal fp)"

definition idem_begin :: "(entry \<Rightarrow> string) \<Rightarrow> (string \<Rightarrow> entry option) \<Rightarrow> idem_store \<Rightarrow> string \<Rightarrow> string \<Rightarrow> response option io" where
  "idem_begin marshal unmarshal s k fp = tryE (idem_claim marshal s k fp) (\<lambda>ok.
     if ok then ret None else idem_probe unmarshal k fp)"

definition idem_complete :: "(entry \<Rightarrow> string) \<Rightarrow> idem_store \<Rightarrow> string \<Rightarrow> string \<Rightarrow> response \<Rightarrow> unit io" where
  "idem_complete marshal s k fp resp =
     redis_set k (marshal \<lparr>e_state = ''done'', e_fp = fp, e_resp = Some resp\<rparr>) (snd (idem_ttl s))"

definition idem_release :: "string \<Rightarrow> unit io" where
  "idem_release k = redis_delete k"

section \<open>The client\<close>

text \<open>What is written to the client; \<open>json.Encoder\<close> ends with a line feed, a replayed body has none.\<close>

record http =
  h_status :: int
  h_body :: string
  h_replayed :: bool

definition write_json :: "int \<Rightarrow> string \<Rightarrow> http" where
  "write_json status body = \<lparr>h_status = status, h_body = body @ [CHR 0x0A], h_replayed = False\<rparr>"

definition error_json :: "string \<Rightarrow> string" where
  "error_json msg = ''{\"error\":\"'' @ msg @ ''\"}''"

text \<open>\<open>fn\<close> gives the status and the body in JSON.\<close>

definition with_idempotency :: "(entry \<Rightarrow> string) \<Rightarrow> (string \<Rightarrow> entry option) \<Rightarrow> idem_store option \<Rightarrow> string \<Rightarrow> string \<Rightarrow> string \<Rightarrow>
    string \<Rightarrow> (world, int \<times> string) state \<Rightarrow> (world, http) state" where
  "with_idempotency marshal unmarshal store scope user key fp fn =
     (let plain_run = Monad_Syntax.bind fn (\<lambda>(status, body). State_Monad.return (write_json status body)) in
      case store of
        None \<Rightarrow> plain_run
      | Some s \<Rightarrow>
          if key = [] then plain_run
          else if length key > 128 then State_Monad.return (write_json 400 (error_json ''Idempotency-Key too long''))
          else let k = idem_key scope user key in
            Monad_Syntax.bind (idem_begin marshal unmarshal s k fp) (\<lambda>r. case r of
              Inl e \<Rightarrow>
                if e = ErrInProgress then State_Monad.return (write_json 409 (error_json ''a request with this Idempotency-Key is in progress''))
                else if e = ErrKeyReused then State_Monad.return (write_json 422 (error_json ''Idempotency-Key was used for a different request''))
                else plain_run
            | Inr (Some resp) \<Rightarrow> State_Monad.return \<lparr>h_status = rs_status resp, h_body = rs_body resp, h_replayed = True\<rparr>
            | Inr None \<Rightarrow> Monad_Syntax.bind fn (\<lambda>(status, body).
                Monad_Syntax.bind (if 200 \<le> status \<and> status < 300
                    then idem_complete marshal s k fp \<lparr>rs_status = status, rs_body = body\<rparr> else idem_release k)
                  (\<lambda>_. State_Monad.return (write_json status body)))))"

lemma idem_ttl_pos: "0 < fst (idem_ttl s)" "0 < snd (idem_ttl s)"
  by (simp_all add: idem_ttl_def)

section \<open>Concurrent requests\<close>

text \<open>
  The requests with one key, as they interleave: \<open>Waiting\<close> to claim, \<open>Probing\<close> after a claim that was
  refused, \<open>Working\<close> under a claim that ends at the given time, \<open>Unguarded\<close> (\<open>Begin\<close> failed with an
  error: the handler runs without a claim), \<open>Over\<close>.  \<open>late\<close>: some handler ended after its claim had;
  \<open>bare\<close>: some request ran unguarded; \<open>kept\<close>: the time until which a stored response is kept.
\<close>

datatype phase = Waiting | Probing | Working int | Unguarded | Over

record idem_state =
  iw :: world
  ph :: "nat \<Rightarrow> phase"
  late :: bool
  bare :: bool
  kept :: "int option"

definition after_claim :: "int \<Rightarrow> err + bool \<Rightarrow> phase" where
  "after_claim deadline r = (case r of Inl _ \<Rightarrow> Unguarded | Inr True \<Rightarrow> Working deadline | Inr False \<Rightarrow> Probing)"

text \<open>An entry that does not decode is an error of \<open>Begin\<close>, too.\<close>

definition after_probe :: "err + response option \<Rightarrow> phase" where
  "after_probe r = (case r of Inl e \<Rightarrow> if e = ErrInProgress \<or> e = ErrKeyReused then Over else Unguarded | Inr _ \<Rightarrow> Over)"

definition goes_on :: "idem_state \<Rightarrow> nat \<Rightarrow> world \<Rightarrow> phase \<Rightarrow> idem_state" where
  "goes_on x i w p = x\<lparr>iw := w, ph := (ph x)(i := p), bare := bare x \<or> p = Unguarded\<rparr>"

text \<open>Between the calls on the key anything may happen (the handlers run, other keys are written, time
  passes).\<close>

inductive idem_step :: "(entry \<Rightarrow> string) \<Rightarrow> (string \<Rightarrow> entry option) \<Rightarrow> idem_store \<Rightarrow> string \<Rightarrow> (nat \<Rightarrow> string) \<Rightarrow> idem_state \<Rightarrow> idem_state \<Rightarrow> bool"
  for marshal unmarshal s k fp where
  claim: "ph x i = Waiting \<Longrightarrow> run_state (idem_claim marshal s k (fp i)) (iw x) = (r, w') \<Longrightarrow>
    idem_step marshal unmarshal s k fp x (goes_on x i w' (after_claim (clock w' + fst (idem_ttl s)) r))"
| probe: "ph x i = Probing \<Longrightarrow> run_state (idem_probe unmarshal k (fp i)) (iw x) = (r, w') \<Longrightarrow>
    idem_step marshal unmarshal s k fp x (goes_on x i w' (after_probe r))"
| complete: "ph x i = Working d \<Longrightarrow> run_state (idem_complete marshal s k (fp i) resp) (iw x) = (r, w') \<Longrightarrow>
    idem_step marshal unmarshal s k fp x (x\<lparr>iw := w', ph := (ph x)(i := Over), late := late x \<or> d \<le> clock w',
      kept := (if r = Inr () then Some (clock w' + snd (idem_ttl s)) else kept x)\<rparr>)"
| release: "ph x i = Working d \<Longrightarrow> run_state (idem_release k) (iw x) = (r, w') \<Longrightarrow>
    idem_step marshal unmarshal s k fp x (x\<lparr>iw := w', ph := (ph x)(i := Over), late := late x \<or> d \<le> clock w'\<rparr>)"
| finish: "ph x i = Unguarded \<Longrightarrow> idem_step marshal unmarshal s k fp x (goes_on x i (iw x) Over)"
| others: "r_str (red w') k = r_str (red (iw x)) k \<Longrightarrow> clock (iw x) \<le> clock w' \<Longrightarrow>
    idem_step marshal unmarshal s k fp x (x\<lparr>iw := w'\<rparr>)"

inductive idem_run :: "(entry \<Rightarrow> string) \<Rightarrow> (string \<Rightarrow> entry option) \<Rightarrow> idem_store \<Rightarrow> string \<Rightarrow> (nat \<Rightarrow> string) \<Rightarrow> idem_state \<Rightarrow> idem_state \<Rightarrow> bool"
  for marshal unmarshal s k fp where
  stay: "idem_run marshal unmarshal s k fp x x"
| onward: "idem_run marshal unmarshal s k fp x y \<Longrightarrow> idem_step marshal unmarshal s k fp y z \<Longrightarrow> idem_run marshal unmarshal s k fp x z"

definition idem_start :: "world \<Rightarrow> idem_state" where
  "idem_start w = \<lparr>iw = w, ph = (\<lambda>_. Waiting), late = False, bare = False, kept = None\<rparr>"

text \<open>A request runs its handler from its claim, or from the failure of \<open>Begin\<close>, on.  \<open>overrun\<close>: some
  handler took or is taking longer than its claim lasts.\<close>

definition running :: "idem_state \<Rightarrow> nat \<Rightarrow> bool" where
  "running x i \<longleftrightarrow> ph x i = Unguarded \<or> (\<exists>d. ph x i = Working d)"

definition overrun :: "idem_state \<Rightarrow> bool" where
  "overrun x \<longleftrightarrow> late x \<or> (\<exists>i d. ph x i = Working d \<and> d \<le> clock (iw x))"

text \<open>A claim that has not ended, and the key until \<open>d\<close>.\<close>

definition working :: "idem_state \<Rightarrow> nat \<Rightarrow> bool" where
  "working x i \<longleftrightarrow> (\<exists>d. ph x i = Working d \<and> clock (iw x) < d)"

definition held_until :: "string \<Rightarrow> int \<Rightarrow> world \<Rightarrow> bool" where
  "held_until k d w \<longleftrightarrow> (\<exists>raw. r_str (red w) k = Some (raw, Some d))"

definition response_kept :: "idem_state \<Rightarrow> bool" where
  "response_kept x \<longleftrightarrow> (\<exists>t. kept x = Some t \<and> clock (iw x) < t)"

definition idem_inv :: "string \<Rightarrow> idem_state \<Rightarrow> bool" where
  "idem_inv k x \<longleftrightarrow> late x \<or>
     ((\<forall>i d. ph x i = Working d \<and> clock (iw x) < d \<longrightarrow> held_until k d (iw x)) \<and>
      (\<forall>i j. working x i \<and> working x j \<longrightarrow> i = j) \<and>
      (\<forall>t. kept x = Some t \<and> clock (iw x) < t \<longrightarrow> held_until k t (iw x) \<and> (\<nexists>i. working x i)))"

lemma held_live: "held_until k d w \<Longrightarrow> clock w < d \<Longrightarrow> live_str w k \<noteq> None"
  by (auto simp: held_until_def live_str_def)

text \<open>What the calls on the key do.\<close>

lemma run_claim:
  assumes "run_state (idem_claim marshal s k fp) w = (r, w')"
  shows "clock w \<le> clock w' \<and>
    (r_str (red w') k = r_str (red w) k \<and> r \<noteq> Inr True \<or>
     live_str (w\<lparr>clock := clock w'\<rparr>) k = None \<and> held_until k (clock w' + fst (idem_ttl s)) w' \<and> r \<noteq> Inr False)"
  using assms clock_after_call [of w Redis] idem_ttl_pos [of s]
  by (auto simp: idem_claim_def redis_setnx_def ext_call_def held_until_def expiry_def live_str_def
      split: outcome.splits if_splits option.splits)


lemma run_complete:
  assumes "run_state (idem_complete marshal s k fp resp) w = (r, w')"
  shows "clock w \<le> clock w' \<and> (r = Inr () \<longrightarrow> held_until k (clock w' + snd (idem_ttl s)) w')"
  using assms clock_after_call [of w Redis] idem_ttl_pos [of s]
  by (auto simp: idem_complete_def redis_set_def ext_call_def held_until_def expiry_def split: outcome.splits)

lemma run_release:
  assumes "run_state (idem_release k) w = (r, w')"
  shows "clock w \<le> clock w'"
  using assms clock_after_call [of w Redis] by (auto simp: idem_release_def redis_delete_def ext_call_def split: outcome.splits)

lemma run_probe:
  assumes "run_state (idem_probe unmarshal k fp) w = (r, w')"
  shows "clock w \<le> clock w' \<and> red w' = red w"
proof -
  have reply: "wp (idem_reply unmarshal fp v) (\<lambda>_ u. u = u0) u0" for v u0
    by (simp add: idem_reply_def wp_simps split: option.split)
  have "wp (idem_probe unmarshal k fp) (\<lambda>_ u. clock w \<le> clock u \<and> red u = red w) w"
    unfolding idem_probe_def wp_handleE redis_get_def wp_ext_call
    using clock_after_call [of w Redis]
    by (auto simp: wp_ret split: outcome.split intro!: wp_mono [OF reply])
  from wp_run [OF this assms] show ?thesis by simp
qed

lemma idem_inv_bare [simp]: "idem_inv k (x\<lparr>bare := b\<rparr>) = idem_inv k x"
  by (simp add: idem_inv_def working_def)

text \<open>The key stays as it is while only time passes.\<close>

lemma idem_inv_time:
  assumes "idem_inv k x" and "r_str (red w') k = r_str (red (iw x)) k" and "clock (iw x) \<le> clock w'"
    and "\<And>i d. p i = Working d \<Longrightarrow> ph x i = Working d"
  shows "idem_inv k (x\<lparr>iw := w', ph := p\<rparr>)"
proof -
  have w: "working (x\<lparr>iw := w', ph := p\<rparr>) i \<Longrightarrow> working x i" for i
    using assms(3,4) by (fastforce simp: working_def)
  have h: "held_until k d (iw x) \<Longrightarrow> held_until k d w'" for d
    by (simp add: held_until_def assms(2))
  show ?thesis
    using assms(1,3,4) w h unfolding idem_inv_def by (simp, meson order.strict_trans1)
qed

lemma idem_inv_idle:
  assumes "late x \<or> (\<forall>i. \<not> working x i) \<and> (\<forall>t. kept x = Some t \<and> clock (iw x) < t \<longrightarrow> held_until k t (iw x))"
  shows "idem_inv k x"
  using assms unfolding idem_inv_def by (auto simp: working_def)

text \<open>A handler that ends in time was the only one.\<close>

lemma idem_inv_end:
  assumes "idem_inv k x" "ph x i = Working d" "clock (iw x) \<le> clock w'" "K = kept x \<or> (\<exists>t. K = Some t \<and> held_until k t w')"
  shows "idem_inv k (x\<lparr>iw := w', ph := (ph x)(i := Over), late := late x \<or> d \<le> clock w', kept := K\<rparr>)"
proof (rule idem_inv_idle, goal_cases)
  case 1
  show ?case
  proof (cases "late x \<or> d \<le> clock w'")
    case False
    with assms have i: "working x i" by (auto simp: working_def)
    then have only: "j = i" if "ph x j = Working e" "clock w' < e" for j e
      using assms(1,3) False that unfolding idem_inv_def working_def by (meson order.strict_trans1)
    have fresh: "t \<le> clock w'" if "kept x = Some t" for t
      using assms(1,3) i False that unfolding idem_inv_def by (meson not_le order.strict_trans1)
    show ?thesis using only fresh assms(4) by (fastforce simp: working_def split: if_splits)
  qed simp
qed

lemma idem_inv_step:
  assumes "idem_step marshal unmarshal s k fp x y" and "idem_inv k x"
  shows "idem_inv k y"
  using assms(1)
proof cases
  case (claim i r w')
  note run = run_claim [OF claim(3)]
  show ?thesis
  proof (cases "r_str (red w') k = r_str (red (iw x)) k \<and> r \<noteq> Inr True")
    case True
    then have "after_claim d r \<noteq> Working d'" for d d' by (auto simp: after_claim_def split: sum.split bool.split)
    then show ?thesis unfolding claim(1) goes_on_def idem_inv_bare using True run by (intro idem_inv_time [OF assms(2)]) (auto split: if_splits)
  next
    case False
    with run have free: "live_str ((iw x)\<lparr>clock := clock w'\<rparr>) k = None"
      and held: "held_until k (clock w' + fst (idem_ttl s)) w'" and r: "r \<noteq> Inr False" and le: "clock (iw x) \<le> clock w'" by auto
    have none: "\<not> (held_until k d (iw x) \<and> clock w' < d)" for d
      using held_live [of k d "(iw x)\<lparr>clock := clock w'\<rparr>"] free by (auto simp: held_until_def)
    show ?thesis
    proof (cases "late x")
      case True
      then show ?thesis by (simp add: idem_inv_def claim(1) goes_on_def)
    next
      case False
      have old: "d \<le> clock w'" if "ph x j = Working d" for j d
        using assms(2) False none [of d] le that unfolding idem_inv_def by (meson not_le order.strict_trans1)
      have gone: "t \<le> clock w'" if "kept x = Some t" for t
        using assms(2) False none [of t] le that unfolding idem_inv_def by (meson not_le order.strict_trans1)
      have new: "j = i \<and> d = clock w' + fst (idem_ttl s)" if "ph y j = Working d" "clock w' < d" for j d
        using old [of j d] that by (auto simp: claim(1) goes_on_def after_claim_def split: if_splits sum.splits bool.splits)
      have y: "iw y = w'" "kept y = kept x" by (simp_all add: claim(1) goes_on_def)
      have w: "j = i" if "working y j" for j using that new unfolding working_def y by blast
      have g: "\<not> clock w' < t" if "kept x = Some t" for t using gone [OF that] by simp
      show ?thesis
        unfolding idem_inv_def y
      proof (intro disjI2 conjI allI impI, goal_cases)
        case (1 j d)
        then show ?case using new [of j d] held by simp
      next
        case (2 j j')
        then show ?case using w by metis
      qed (use g in blast)+
    qed
  qed
next
  case (probe i r w')
  have "after_probe r \<noteq> Working d" for d by (simp add: after_probe_def split: sum.split)
  then show ?thesis unfolding probe(1) goes_on_def idem_inv_bare using run_probe [OF probe(3)]
    by (intro idem_inv_time [OF assms(2)]) (auto split: if_splits)
next
  case (complete i d r w' resp)
  then show ?thesis using run_complete [OF complete(3)] by (simp add: idem_inv_end [OF assms(2) complete(2)])
next
  case (release i d r w')
  then show ?thesis
    using idem_inv_end [OF assms(2) release(2), of w' "kept x"] run_release [OF release(3)] by simp
next
  case (finish i)
  have "idem_inv k (x\<lparr>iw := iw x, ph := (ph x)(i := Over)\<rparr>)"
    by (rule idem_inv_time [OF assms(2) refl order_refl]) (auto split: if_splits)
  then show ?thesis using finish by (simp add: goes_on_def)
next
  case (others w')
  then show ?thesis using idem_inv_time [OF assms(2), of w' "ph x"] by simp
qed


lemma idem_inv_run: "idem_run marshal unmarshal s k fp x y \<Longrightarrow> idem_inv k x \<Longrightarrow> idem_inv k y"
  by (induction rule: idem_run.induct) (auto intro: idem_inv_step)

lemma unguarded_bare:
  assumes "idem_run marshal unmarshal s k fp x y" "ph x i = Unguarded \<longrightarrow> bare x"
  shows "ph y i = Unguarded \<longrightarrow> bare y"
  using assms
proof (induction rule: idem_run.induct)
  case (onward x y z)
  from onward.hyps(2) onward.IH [OF onward.prems] show ?case
    by cases (auto simp: goes_on_def after_claim_def split: if_splits)
qed

text \<open>C35. Requests with one idempotency key exclude each other, whatever the interleaving of any number of
  them, whatever calls fail or lose their reply and however long they take.  As long as no handler ended later
  than its claim (\<open>LockTTL\<close>), at most one request works under a live claim, and none while a response is kept
  for the key.  If moreover \<open>Begin\<close> never failed with an error (then the code runs the handler without a
  claim, beside any other) and no handler is beyond its claim now, at most one handler runs at all, and
  none while a response is kept.\<close>

theorem claims_exclude_each_other:
  assumes "idem_run marshal unmarshal s k fp (idem_start w) x" and "\<not> late x"
  shows "(working x i \<and> working x j \<longrightarrow> i = j) \<and> (response_kept x \<longrightarrow> \<not> working x i) \<and>
    (\<not> bare x \<and> \<not> overrun x \<longrightarrow> (running x i \<and> running x j \<longrightarrow> i = j) \<and> (response_kept x \<longrightarrow> \<not> running x i))"
proof -
  have "idem_inv k x"
    by (rule idem_inv_run [OF assms(1)]) (simp add: idem_inv_def idem_start_def working_def)
  then have w: "working x i \<and> working x j \<longrightarrow> i = j" "response_kept x \<longrightarrow> \<not> working x i" for i j
    using assms(2) unfolding idem_inv_def response_kept_def by metis+
  have "working x i" if "\<not> bare x" "\<not> overrun x" "running x i" for i
    using that unguarded_bare [OF assms(1), of i]
    by (auto simp: running_def overrun_def working_def idem_start_def not_le)
  with w show ?thesis by blast
qed

section \<open>Retries\<close>

text \<open>With Redis up: a claim of a free key, and the look at a stored response.\<close>

lemma begin_free:
  assumes "reliable Redis w" "live_str (after_call Redis w) k = None"
  shows "\<exists>w'. run_state (idem_begin marshal unmarshal s k fp) w = (Inr None, w') \<and> redis_only w w'"
  using assms reliable_next [OF assms(1)]
  by (auto simp: idem_begin_def idem_claim_def redis_setnx_def run_simps ext_call_def)

lemma begin_stored:
  assumes "reliable Redis w" and "run_state (idem_begin marshal unmarshal s k fp) w = (r, w')"
    and "r_str (red w) k = Some (marshal \<lparr>e_state = ''done'', e_fp = fp0, e_resp = Some resp\<rparr>, Some d)"
    and "\<And>e. unmarshal (marshal e) = Some e" and "clock (after_call Redis (after_call Redis w)) < d"
  shows "redis_only w w' \<and> r = (if fp = fp0 then Inr (Some resp) else Inl ErrKeyReused)"
proof -
  have n: "next_out Redis w = Done" "next_out Redis (after_call Redis w) = Done"
    using assms(1) by (simp_all add: reliable_next)
  let ?v = "after_call Redis w"
  show ?thesis
  proof (cases "live_str ?v k")
    case None
    then have "d \<le> clock ?v" by (auto simp: live_str_def assms(3) split: if_splits)
    then show ?thesis using assms(5) clock_after_call [of ?v Redis] by simp
  next
    case (Some raw)
    have run: "run_state (idem_begin marshal unmarshal s k fp) w = run_state (idem_probe unmarshal k fp) ?v"
      using Some n by (simp add: idem_begin_def idem_claim_def redis_setnx_def run_simps ext_call_def)
    have probe: "run_state (idem_probe unmarshal k fp) ?v =
        run_state (idem_reply unmarshal fp (live_str (after_call Redis ?v) k)) (after_call Redis ?v)"
      using n by (simp add: idem_probe_def redis_get_def run_simps ext_call_def)
    have end_state: "snd (run_state (idem_reply unmarshal fp v) u) = u" for v u
      by (simp add: idem_reply_def split: option.split)
    have w': "w' = after_call Redis ?v" using end_state assms(2) unfolding run probe by (metis snd_conv)
    then have live: "live_str (after_call Redis ?v) k = Some (marshal \<lparr>e_state = ''done'', e_fp = fp0, e_resp = Some resp\<rparr>)"
      using assms(3,5) by (simp add: live_str_def)
    show ?thesis using assms(2) w' unfolding run probe live by (auto simp: idem_reply_def assms(4))
  qed
qed

lemma retried_request:
  assumes "\<And>e. unmarshal (marshal e) = Some e" and "\<And>u. reliable Redis u \<Longrightarrow> wp fn (\<lambda>_ v. reliable Redis v) u"
    and "0 < length key" and "length key \<le> 128"
    and "reliable Redis w" and "r_str (red w) (idem_key scope user key) = None"
    and "run_state (with_idempotency marshal unmarshal (Some s) scope user key fp fn) w = (h, w1)"
    and "reliable Redis w2" and "r_str (red w2) (idem_key scope user key) = r_str (red w1) (idem_key scope user key)"
    and "run_state (with_idempotency marshal unmarshal (Some s) scope user key fp' fn') w2 = (h', w3)"
    and "clock (after_call Redis (after_call Redis w2)) < clock w1 + snd (idem_ttl s)"
  shows "if 200 \<le> h_status h \<and> h_status h < 300
    then redis_only w2 w3 \<and> (if fp' = fp then h_replayed h' \<and> h_status h' = h_status h \<and> h_body h' @ [CHR 0x0A] = h_body h
      else h_status h' = 422)
    else \<exists>u v st body. redis_only w2 u \<and> run_state fn' u = ((st, body), v) \<and> h' = write_json st body"
proof -
  let ?k = "idem_key scope user key"
  have key: "key \<noteq> []" "\<not> length key > 128" using assms(3,4) by auto
  obtain u where u: "run_state (idem_begin marshal unmarshal s ?k fp) w = (Inr None, u)" "redis_only w u"
    using begin_free [OF assms(5), of ?k marshal unmarshal s fp] assms(6) by (auto simp: live_str_def)
  obtain st body v where fn: "run_state fn u = ((st, body), v)" by (metis surj_pair)
  have rv: "reliable Redis v"
    using wp_run [OF assms(2) fn] redis_only_outcomes(1) [OF u(2), of Redis] assms(5) by simp
  have nv: "next_out Redis v = Done" by (rule reliable_next [OF rv])
  have h: "h = write_json st body"
    and stored: "200 \<le> st \<and> st < 300 \<Longrightarrow> r_str (red w1) ?k =
      Some (marshal \<lparr>e_state = ''done'', e_fp = fp, e_resp = Some \<lparr>rs_status = st, rs_body = body\<rparr>\<rparr>, Some (clock w1 + snd (idem_ttl s)))"
    and dropped: "\<not> (200 \<le> st \<and> st < 300) \<Longrightarrow> r_str (red w1) ?k = None"
    using assms(7) key nv idem_ttl_pos(2) [of s]
    by (auto simp: with_idempotency_def Let_def run_bind u(1) fn idem_complete_def idem_release_def redis_set_def redis_delete_def
        ext_call_def expiry_def split: if_splits)
  show ?thesis
  proof (cases "200 \<le> st \<and> st < 300")
    case True
    obtain r w' where b: "run_state (idem_begin marshal unmarshal s ?k fp') w2 = (r, w')" by (metis surj_pair)
    have r: "redis_only w2 w'" "r = (if fp' = fp then Inr (Some \<lparr>rs_status = st, rs_body = body\<rparr>) else Inl ErrKeyReused)"
      using begin_stored [OF assms(8) b _ assms(1,11)] stored [OF True] assms(9) by auto
    have "w3 = w' \<and> h' = (if fp' = fp then \<lparr>h_status = st, h_body = body, h_replayed = True\<rparr>
        else write_json 422 (error_json ''Idempotency-Key was used for a different request''))"
      using assms(10) key by (simp add: with_idempotency_def Let_def run_bind b r(2) split: if_splits)
    then show ?thesis using True r(1) by (simp add: h write_json_def)
  next
    case False
    then have free: "live_str (after_call Redis w2) ?k = None" using dropped assms(9) by (simp add: live_str_def)
    obtain u' where b: "run_state (idem_begin marshal unmarshal s ?k fp') w2 = (Inr None, u')" "redis_only w2 u'"
      using begin_free [OF assms(8) free] by blast
    obtain st' body' v' where fn': "run_state fn' u' = ((st', body'), v')" by (metis surj_pair)
    have "h' = write_json st' body'"
      using assms(10) key by (auto simp: with_idempotency_def Let_def run_bind b(1) fn' split: prod.splits)
    then show ?thesis using b(2) fn' False h by (auto simp: write_json_def)
  qed
qed

text \<open>Retries with an idempotency key are safe: with Redis up, a first request on a free key ends with a
  stored response (any 2xx) or releases the key.  In the first case, and until \<open>ResultTTL\<close> has passed,
  the same request gets the stored status and body and another request gets 422, and neither runs the
  handler again (whatever handler it brings) or changes anything outside Redis; in the second case the
  next request runs its handler.\<close>

theorem retry_replays:
  assumes "\<And>e. unmarshal (marshal e) = Some e" and "\<And>u. reliable Redis u \<Longrightarrow> wp fn (\<lambda>_ v. reliable Redis v) u"
    and "0 < length key" and "length key \<le> 128"
    and "reliable Redis w" and "r_str (red w) (idem_key scope user key) = None"
    and "run_state (with_idempotency marshal unmarshal (Some s) scope user key fp fn) w = (h, w1)"
    and "reliable Redis w2" and "r_str (red w2) (idem_key scope user key) = r_str (red w1) (idem_key scope user key)"
    and "run_state (with_idempotency marshal unmarshal (Some s) scope user key fp' fn') w2 = (h', w3)"
    and "clock (after_call Redis (after_call Redis w2)) < clock w1 + snd (idem_ttl s)"
  shows "if 200 \<le> h_status h \<and> h_status h < 300
    then redis_only w2 w3 \<and> (if fp' = fp then h_replayed h' \<and> h_status h' = h_status h \<and> h_body h' @ [CHR 0x0A] = h_body h
      else h_status h' = 422)
    else \<exists>u v st body. redis_only w2 u \<and> run_state fn' u = ((st, body), v) \<and> h' = write_json st body"
  by (rule retried_request [OF assms])


section \<open>A claim that is not one's own\<close>

lemma instant_claim:
  assumes "ph x i = Waiting" "outs (iw x) Redis = sconst (Done, 0)" "live_str (iw x) k = None"
    and "y = x\<lparr>iw := put_str k (Some (marshal \<lparr>e_state = ''running'', e_fp = fp i, e_resp = None\<rparr>,
        Some (clock (iw x) + fst (idem_ttl s)))) (iw x), ph := (ph x)(i := Working (clock (iw x) + fst (idem_ttl s)))\<rparr>"
  shows "idem_step marshal unmarshal s k fp x y"
proof -
  have "run_state (idem_claim marshal s k (fp i)) (iw x) = (Inr True, iw y)"
    using assms(3,4) instant_call [OF assms(2)] idem_ttl_pos(1) [of s]
    by (simp add: idem_claim_def redis_setnx_def ext_call_def expiry_def)
  from idem_step.claim [of x i marshal s k fp, OF assms(1) this, of unmarshal] show ?thesis
    by (simp add: assms(4) after_claim_def goes_on_def)
qed

text \<open>C36. \<open>Release\<close> and \<open>Complete\<close> do not check whose claim they end: a handler that outlives its claim
  removes the claim of the request that took over, and a third request then works beside it.  Two
  handlers run at once for one key although each of them is within \<open>LockTTL\<close>, and although every call
  is answered at once.\<close>

theorem late_release_unprotects:
  "\<exists>x. idem_run marshal unmarshal s k fp (idem_start quiet_world) x \<and> working x 1 \<and> working x 2"
proof -
  let ?lock = "fst (idem_ttl s)"
  let ?v = "\<lambda>i::nat. marshal \<lparr>e_state = ''running'', e_fp = fp i, e_resp = None\<rparr>"
  let ?at = "\<lambda>v. quiet_world\<lparr>clock := ?lock, red := empty_redis\<lparr>r_str := (\<lambda>_. None)(k := v)\<rparr>\<rparr>"
  let ?x = "\<lambda>w p l. \<lparr>iw = w, ph = p, late = l, bare = False, kept = None\<rparr>"
  let ?w0 = "put_str k (Some (?v 0, Some ?lock)) quiet_world"
  let ?p0 = "(\<lambda>_. Waiting)(0 := Working ?lock)"
  let ?p1 = "?p0(1 := Working (?lock + ?lock))"
  let ?p2 = "(?p1(0 := Over))(2 := Working (?lock + ?lock))"
  have q: "red quiet_world = empty_redis" "clock quiet_world = 0" "outs quiet_world Redis = sconst (Done, 0)"
    by (simp_all add: quiet_world_def)
  note pos = idem_ttl_pos(1) [of s]
  have "idem_step marshal unmarshal s k fp (idem_start quiet_world) (?x ?w0 ?p0 False)"
    by (rule instant_claim [of _ 0]) (simp_all add: idem_start_def q live_str_def empty_redis_def)
  moreover have "idem_step marshal unmarshal s k fp (?x ?w0 ?p0 False) (?x (?at (Some (?v 0, Some ?lock))) ?p0 False)"
    using idem_step.others [of "?at (Some (?v 0, Some ?lock))" k "?x ?w0 ?p0 False" marshal unmarshal s fp] pos
    by (simp add: q)
  moreover have "idem_step marshal unmarshal s k fp (?x (?at (Some (?v 0, Some ?lock))) ?p0 False)
      (?x (?at (Some (?v 1, Some (?lock + ?lock)))) ?p1 False)"
    by (rule instant_claim [of _ 1]) (simp_all add: q live_str_def put_str_def)
  moreover have "idem_step marshal unmarshal s k fp (?x (?at (Some (?v 1, Some (?lock + ?lock)))) ?p1 False)
      (?x (?at None) (?p1(0 := Over)) True)"
    using idem_step.release [of "?x (?at (Some (?v 1, Some (?lock + ?lock)))) ?p1 False" 0 ?lock k "Inr ()" "?at None" marshal unmarshal s fp]
      instant_call [of "?at (Some (?v 1, Some (?lock + ?lock)))" Redis]
    by (simp add: q idem_release_def redis_delete_def ext_call_def put_str_def)
  moreover have "idem_step marshal unmarshal s k fp (?x (?at None) (?p1(0 := Over)) True)
      (?x (?at (Some (?v 2, Some (?lock + ?lock)))) ?p2 True)"
    by (rule instant_claim [of _ 2]) (simp_all add: q live_str_def put_str_def)
  ultimately have "idem_run marshal unmarshal s k fp (idem_start quiet_world) (?x (?at (Some (?v 2, Some (?lock + ?lock)))) ?p2 True)"
    by (intro idem_run.onward [OF idem_run.onward [OF idem_run.onward [OF idem_run.onward [OF idem_run.onward [OF idem_run.stay]]]]])
  moreover have "working (?x (?at (Some (?v 2, Some (?lock + ?lock)))) ?p2 True) i" if "i = 1 \<or> i = 2" for i
    using that pos by (auto simp: working_def)
  ultimately show ?thesis by blast
qed

section \<open>A small instance\<close>

text \<open>A codec for examples: every string with an end mark, the status in unary.\<close>

fun enc_str :: "string \<Rightarrow> string" where
  "enc_str [] = '';''"
| "enc_str (c # cs) = CHR ''.'' # c # enc_str cs"

fun dec_str :: "string \<Rightarrow> string \<times> string" where
  "dec_str (x # c # rest) = (if x = CHR ''.'' then (case dec_str rest of (cs, r) \<Rightarrow> (c # cs, r)) else ([], c # rest))"
| "dec_str _ = ([], [])"

definition enc_int :: "int \<Rightarrow> string" where
  "enc_int i = enc_str ((if i < 0 then ''-'' else []) @ replicate (nat (abs i)) (CHR ''1''))"

definition dec_int :: "string \<Rightarrow> int" where
  "dec_int ds = (case ds of [] \<Rightarrow> 0 | d # r \<Rightarrow> if d = CHR ''-'' then - int (length r) else int (length ds))"

definition entry_text :: "entry \<Rightarrow> string" where
  "entry_text e = enc_str (e_state e) @ enc_str (e_fp e) @
     (case e_resp e of None \<Rightarrow> [] | Some r \<Rightarrow> enc_int (rs_status r) @ enc_str (rs_body r))"

definition text_entry :: "string \<Rightarrow> entry option" where
  "text_entry raw =
     (let (st, r1) = dec_str raw; (fp, r2) = dec_str r1; (n, r3) = dec_str r2; (body, r4) = dec_str r3
      in Some \<lparr>e_state = st, e_fp = fp,
           e_resp = (if r2 = [] then None else Some \<lparr>rs_status = dec_int n, rs_body = body\<rparr>)\<rparr>)"

lemma dec_enc: "dec_str (enc_str s @ r) = (s, r)"
  by (induction s) (cases r; simp)+

lemma enc_not_Nil: "enc_str s \<noteq> []"
  by (cases s) simp_all

lemma dec_enc_int: "\<exists>ds. enc_int i = enc_str ds \<and> dec_int ds = i"
  by (intro exI conjI, unfold enc_int_def, rule refl) (cases "nat (abs i)"; auto simp: dec_int_def)

lemma demo_codec: "text_entry (entry_text e) = Some e"
proof (cases "e_resp e")
  case None
  then show ?thesis using dec_enc [of _ "[]"] by (simp add: entry_text_def text_entry_def dec_enc)
next
  case (Some r)
  then show ?thesis using dec_enc [of _ "[]"] dec_enc_int [of "rs_status r"] enc_not_Nil
    by (auto simp: entry_text_def text_entry_def dec_enc)
qed


definition demo_idem :: idem_store where
  "demo_idem = \<lparr>lock_ttl = 0, result_ttl = 0\<rparr>"

text \<open>Request 0 claims the key, the claim of request 1 is refused while it looks for a response.\<close>

definition demo_claimed :: idem_state where
  "demo_claimed = \<lparr>iw = put_str ''k'' (Some (''r'', Some 120000000)) quiet_world,
     ph = (\<lambda>_. Waiting)(0 := Working 120000000), late = False, bare = False, kept = None\<rparr>"

definition demo_refused :: idem_state where
  "demo_refused = demo_claimed\<lparr>ph := (ph demo_claimed)(1 := Probing)\<rparr>"

theorem claims_exclude_each_other_witness: "running demo_refused 0 \<and> \<not> running demo_refused 1 \<and> \<not> working demo_refused 1"
proof -
  have "idem_step (\<lambda>_. ''r'') text_entry demo_idem ''k'' (\<lambda>_. ''fp'') (idem_start quiet_world) demo_claimed"
    by (rule instant_claim [of _ 0])
      (simp_all add: demo_claimed_def idem_start_def quiet_world_def live_str_def empty_redis_def idem_ttl_def demo_idem_def)
  then have first: "idem_run (\<lambda>_. ''r'') text_entry demo_idem ''k'' (\<lambda>_. ''fp'') (idem_start quiet_world) demo_claimed"
    by (rule idem_run.onward [OF idem_run.stay])
  have "run_state (idem_claim (\<lambda>_. ''r'') demo_idem ''k'' ''fp'') (iw demo_claimed) = (Inr False, iw demo_claimed)"
    using instant_call [of "iw demo_claimed" Redis]
    by (simp add: idem_claim_def redis_setnx_def ext_call_def demo_claimed_def quiet_world_def live_str_def put_str_def)
  from idem_step.claim [of demo_claimed 1 "\<lambda>_. ''r''" demo_idem "''k''" "\<lambda>_. ''fp''", OF _ this, of text_entry]
  have "idem_step (\<lambda>_. ''r'') text_entry demo_idem ''k'' (\<lambda>_. ''fp'') demo_claimed demo_refused"
    by (simp add: goes_on_def after_claim_def demo_refused_def demo_claimed_def)
  with first have run: "idem_run (\<lambda>_. ''r'') text_entry demo_idem ''k'' (\<lambda>_. ''fp'') (idem_start quiet_world) demo_refused"
    by (rule idem_run.onward)
  have "running demo_refused 0" "working demo_refused 0" "\<not> late demo_refused" "\<not> bare demo_refused" "\<not> overrun demo_refused"
    by (auto simp: running_def working_def overrun_def demo_refused_def demo_claimed_def quiet_world_def put_str_def split: if_splits)
  then show ?thesis using claims_exclude_each_other [OF run, of 0 1] by auto
qed

text \<open>The second attempt would fail; it gets the response of the first one.\<close>

definition demo_post :: "int \<Rightarrow> (world, http) state" where
  "demo_post status = with_idempotency entry_text text_entry (Some demo_idem) ''upload'' ''ann'' ''k'' ''fp''
     (State_Monad.return (status, ''{}''))"

theorem retry_replays_witness:
  "h_status (fst (run_state (demo_post 500) (snd (run_state (demo_post 201) quiet_world)))) = 201"
proof -
  let ?a = "run_state (demo_post 201) quiet_world"
  let ?b = "run_state (demo_post 500) (snd ?a)"
  have q: "reliable Redis quiet_world" "r_str (red quiet_world) (idem_key ''upload'' ''ann'' ''k'') = None"
    by (simp_all add: outcomes_def quiet_world_def empty_redis_def)
  have a: "fst ?a = write_json 201 ''{}''" "outs (snd ?a) Redis = sconst (Done, 0)"
    using q(2) by (simp_all add: demo_post_def with_idempotency_def Let_def run_simps idem_begin_def idem_claim_def redis_setnx_def
        ext_call_def next_out_def quiet_world_def live_str_def idem_complete_def redis_set_def)
  have "reliable Redis (snd ?a)" using a(2) by (simp add: outcomes_def)
  from retry_replays [OF demo_codec, of "State_Monad.return (201, ''{}'')" "''k''" quiet_world "''upload''" "''ann''" demo_idem "''fp''"
      "fst ?a" "snd ?a" "snd ?a" "''fp''" "State_Monad.return (500, ''{}'')" "fst ?b" "snd ?b"] this q instant_call [OF a(2)] prod.collapse [of ?a]
  show ?thesis
    by (simp add: wp_ret demo_post_def [symmetric] a(1) write_json_def idem_ttl_pos del: prod.collapse)
      (simp add: a(1) [unfolded write_json_def] prod_eq_iff)
qed

end
