(* ===== verification/Http.thy ===== *)
theory Http
  imports Idempotency Posts Comments HomeFeed
begin

text \<open>
  What the HTTP handlers share: the request as they read it, the user of the token
  (\<open>shared/utils/util.go\<close>), the values they encode as JSON (\<open>shared/model/model.go\<close>, the struct tags), and
  \<open>strconv.Atoi\<close> with its saturation.  Routing, token validation and \<open>encoding/json\<close> itself happen
  before and after: the validated claims are in the request, decoders and the encoder are arguments.
  Of the response headers only \<open>Idempotent-Replayed\<close> is kept.
\<close>

section \<open>Requests\<close>

datatype claim = CStr string | COther

text \<open>The token the middleware put into the context; \<open>Claims None\<close>: claims of another type.\<close>

datatype token = NoToken | Claims "(string \<Rightarrow> claim option) option"

definition get_user_id_from_jwt_token :: "token \<Rightarrow> string option" where
  "get_user_id_from_jwt_token t =
     (case t of
        NoToken \<Rightarrow> None
      | Claims None \<Rightarrow> None
      | Claims (Some claims) \<Rightarrow>
          (case claims ''user_id'' of
             Some (CStr user) \<Rightarrow> if user = [] then None else Some user
           | _ \<Rightarrow> None))"

record request =
  rq_token :: token
  rq_ctx :: ctx
  rq_header :: "string \<Rightarrow> string"
  rq_query :: "string \<Rightarrow> string"
  rq_form :: "string \<Rightarrow> string"
  rq_vars :: "string \<Rightarrow> string"
  rq_file :: "(string \<times> string) option"
  rq_body :: string

text \<open>\<open>strconv.Atoi\<close> with the error dropped: zero for text that is no number, the nearest bound for a
  number beyond 64 bits (which the loop reports as soon as it sees it).\<close>

fun uint_loop :: "nat \<Rightarrow> string \<Rightarrow> nat option" where
  "uint_loop n [] = Some n"
| "uint_loop n (c # cs) =
     (if \<not> is_digit c then None
      else if n * 10 + (of_char c - 48) \<ge> 2 ^ 64 then Some (2 ^ 64 - 1)
      else uint_loop (n * 10 + (of_char c - 48)) cs)"

definition atoi :: "string \<Rightarrow> int" where
  "atoi s =
     (let neg = (s \<noteq> [] \<and> hd s = CHR ''-'');
          ds = (if s \<noteq> [] \<and> (hd s = CHR ''-'' \<or> hd s = CHR ''+'') then tl s else s)
      in case (if ds = [] then None else uint_loop 0 ds) of
        None \<Rightarrow> 0
      | Some n \<Rightarrow> if neg then max (- (2 ^ 63)) (- int n) else min (2 ^ 63 - 1) (int n))"

text \<open>\<open>filepath.Ext\<close>.\<close>

fun ext_loop :: "string \<Rightarrow> string \<Rightarrow> string" where
  "ext_loop [] acc = []"
| "ext_loop (c # cs) acc = (if c = CHR ''/'' then [] else if c = CHR ''.'' then c # acc else ext_loop cs (c # acc))"

definition file_ext :: "string \<Rightarrow> string" where
  "file_ext path = ext_loop (rev path) []"

section \<open>Responses\<close>

datatype json = JStr string | JInt int | JBool bool | JArr "json list" | JObj "(string \<times> json) list"

text \<open>\<open>http.Error\<close> ends the text with a line feed too.\<close>

abbreviation answer :: "http \<Rightarrow> (world, http) state" where
  "answer h \<equiv> State_Monad.return h"

definition write_error :: "int \<Rightarrow> string \<Rightarrow> http" where
  "write_error status msg = write_json status (error_json msg)"

definition json_of_post :: "post \<Rightarrow> json" where
  "json_of_post p = JObj
     [(''post_id'', JStr (post_id p)), (''user_id'', JStr (post_user p)), (''user'', JStr []),
      (''message'', JStr (post_message p)), (''url'', JStr (post_url p)), (''type'', JStr (post_type p)),
      (''deleted'', JBool (post_deleted_at p \<noteq> None)),
      (''deleted_at'', JInt (case post_deleted_at p of None \<Rightarrow> 0 | Some t \<Rightarrow> t)),
      (''like_count'', JInt (post_likes p)), (''shared_count'', JInt (post_shares p)), (''created_at'', JInt (post_at p))]"

definition json_of_comment :: "comment \<Rightarrow> json" where
  "json_of_comment c = JObj
     [(''comment_id'', JStr (comment_id c)), (''parent_comment_id'', JStr (comment_parent c)),
      (''root_comment_id'', JStr (comment_root c)), (''user_id'', JStr (comment_user c)), (''post_id'', JStr (comment_post c)),
      (''depth'', JInt (comment_depth c)), (''content'', JStr (comment_content c)), (''created_at'', JInt (comment_at c)),
      (''deleted'', JBool False), (''deleted_at'', JInt 0)]"

text \<open>A page: the items and, when there are more, the cursor (\<open>omitempty\<close>).\<close>

definition json_page :: "string \<Rightarrow> json list \<Rightarrow> string \<Rightarrow> json" where
  "json_page name items cursor =
     JObj ((name, JArr items) # (if cursor = [] then [] else [(''next_cursor'', JStr cursor)]))"

text \<open>The parts of a fingerprint, each behind its length.\<close>

definition fingerprint_text :: "string list \<Rightarrow> string" where
  "fingerprint_text parts = concat (map (\<lambda>p. format_int (int (length p)) @ '':'' @ p @ ''|'') parts)"

definition fingerprint :: "(string \<Rightarrow> string) \<Rightarrow> string list \<Rightarrow> string" where
  "fingerprint hash parts = hash (fingerprint_text parts)"

section \<open>Facts\<close>

lemma atoi_bounds: "int64_ok (atoi s)"
proof -
  have "int64_ok (min (2 ^ 63 - 1) (int n))" "int64_ok (max (- (2 ^ 63)) (- int n))" for n
    by (simp_all add: int64_ok_def min_def max_def)
  moreover have "int64_ok 0" by (simp add: int64_ok_def)
  ultimately show ?thesis unfolding atoi_def Let_def by (simp split: option.split)
qed

lemma digits_no_colon: "c \<in> set (format_int (int n)) \<Longrightarrow> c \<noteq> CHR '':''"
proof -
  assume "c \<in> set (format_int (int n))"
  then have "is_digit c" using digits_are_digits by (simp add: format_int_def)
  moreover have "\<not> is_digit (CHR '':'')" by (simp add: is_digit_def)
  ultimately show ?thesis by metis
qed

lemma format_nat_inj: "format_int (int m) = format_int (int n) \<Longrightarrow> m = n"
proof -
  assume "format_int (int m) = format_int (int n)"
  then have "digits m = digits n" by (simp add: format_int_def)
  from arg_cong [OF this, of digits_val] show ?thesis by (simp only: digits_val_digits)
qed

text \<open>The text names its parts: no two lists of parts have the same.\<close>

lemma fingerprint_text_inj: "fingerprint_text xs = fingerprint_text ys \<Longrightarrow> xs = ys"
proof (induction xs arbitrary: ys)
  case Nil
  then show ?case by (cases ys) (auto simp: fingerprint_text_def)
next
  case (Cons x xs)
  then obtain y ys' where ys: "ys = y # ys'" by (cases ys) (auto simp: fingerprint_text_def)
  let ?h = "\<lambda>z. format_int (int (length z))"
  have eq: "?h x @ CHR '':'' # (x @ CHR ''|'' # fingerprint_text xs) = ?h y @ CHR '':'' # (y @ CHR ''|'' # fingerprint_text ys')"
    using Cons.prems by (simp add: ys fingerprint_text_def)
  have cut: "takeWhile (\<lambda>c. c \<noteq> CHR '':'') (?h z @ CHR '':'' # r) = ?h z" for z r
    using digits_no_colon by (subst takeWhile_append2) auto
  have "?h x = ?h y" using arg_cong [OF eq, of "takeWhile (\<lambda>c. c \<noteq> CHR '':'')"] by (simp only: cut)
  then have "length x = length y" by (rule format_nat_inj)
  then show ?case using eq \<open>?h x = ?h y\<close> Cons.IH [of ys'] by (simp add: ys)
qed

end
