(* ===== verification/PostHandler.thy ===== *)
theory PostHandler
  imports Http
begin

text \<open>
  \<open>services/post/handler/post.go\<close>: the handlers of the post service, each a state transformer that ends
  with what is written to the client.  The decoders of the request bodies, the JSON encoder, SHA-256, the models and the
  ranking are the functions of \<open>libs\<close>; log lines are left out.
\<close>

section \<open>The handlers\<close>

record libs =
  x_enc :: "json \<Rightarrow> string"
  x_hash :: "string \<Rightarrow> string"
  x_entry :: "entry \<Rightarrow> string"
  x_entry_of :: "string \<Rightarrow> entry option"
  x_cur :: "cursor \<Rightarrow> string"
  x_cur_of :: "string \<Rightarrow> cursor option"
  x_posts :: "post list \<Rightarrow> string"
  x_posts_of :: "string \<Rightarrow> post list option"
  x_jitter :: int
  x_draw :: "string \<Rightarrow> string"
  x_fetch :: "string \<Rightarrow> string"
  x_rank :: "world \<Rightarrow> string \<Rightarrow> int \<Rightarrow> string list"
  x_vector :: "string \<Rightarrow> 32 word list"
  x_nearest :: "world \<Rightarrow> 32 word list \<Rightarrow> int \<Rightarrow> string list"
  x_prompt :: "string \<Rightarrow> string option"
  x_platform :: "string \<Rightarrow> string option"
  x_comment :: "string \<Rightarrow> (string \<times> string) option"

text \<open>\<open>PostHandler\<close>, of which the service is the only field: what the requests use of it.\<close>

record post_handler =
  ph_gcs :: gcs
  ph_relay :: relay
  ph_idem :: "idem_store option"

definition media_types :: "string \<Rightarrow> string option" where
  "media_types = map_of
     [(''.jpg'', ''image''), (''.jpeg'', ''image''), (''.gif'', ''image''), (''.png'', ''image''), (''.mp4'', ''video''),
      (''.avi'', ''video''), (''.mov'', ''video''), (''.flv'', ''video''), (''.wmv'', ''video'')]"

definition upload_post :: "string \<Rightarrow> string \<Rightarrow> string \<Rightarrow> string \<Rightarrow> post" where
  "upload_post i user text name = blank_post\<lparr>post_id := i, post_user := user, post_message := text,
     post_type := (case media_types (file_ext name) of Some t \<Rightarrow> t | None \<Rightarrow> ''unknown'')\<rparr>"

definition upload_fn :: "libs \<Rightarrow> post_handler \<Rightarrow> post \<Rightarrow> string \<Rightarrow> (world, int \<times> string) state" where
  "upload_fn x h p content = Monad_Syntax.bind (save_post (ph_gcs h) (ph_relay h) None p content) (\<lambda>res.
     State_Monad.return (case res of
       Inl _ \<Rightarrow> (500, error_json ''failed to save post'')
     | Inr q \<Rightarrow> (201, x_enc x (JObj [(''post_id'', JStr (post_id q))]))))"

definition upload_post_handler :: "libs \<Rightarrow> post_handler \<Rightarrow> request \<Rightarrow> (world, http) state" where
  "upload_post_handler x h r =
     (case get_user_id_from_jwt_token (rq_token r) of
        None \<Rightarrow> answer (write_error 401 ''unauthorized'')
      | Some user \<Rightarrow> Monad_Syntax.bind new_uuid (\<lambda>i.
          (case rq_file r of
             None \<Rightarrow> answer (write_error 400 ''media_file is required'')
           | Some (name, content) \<Rightarrow>
               with_idempotency (x_entry x) (x_entry_of x) (ph_idem h) ''upload'' user (rq_header r ''Idempotency-Key'')
                 (fingerprint (x_hash x) [rq_form r ''message'', name, format_int (int (length content))])
                 (upload_fn x h (upload_post i user (rq_form r ''message'') name) content))))"

definition home_feed_handler :: "libs \<Rightarrow> request \<Rightarrow> (world, http) state" where
  "home_feed_handler x r =
     (case get_user_id_from_jwt_token (rq_token r) of
        None \<Rightarrow> answer (write_error 401 ''unauthorized'')
      | Some user \<Rightarrow>
          Monad_Syntax.bind (get_home_feed (x_cur x) (x_cur_of x) user (atoi (rq_query r ''limit'')) (rq_query r ''cursor'')) (\<lambda>res.
            answer (case res of
              Inl e \<Rightarrow> if e = ErrBadCursor then write_error 400 ''invalid cursor'' else write_error 500 ''failed to load feed''
            | Inr (posts, nx) \<Rightarrow> write_json 200 (x_enc x (json_page ''posts'' (map json_of_post posts) nx)))))"

definition search_post_handler :: "libs \<Rightarrow> request \<Rightarrow> (world, http) state" where
  "search_post_handler x r =
     (let user = rq_query r ''user_id''; keywords = rq_query r ''keywords''
      in Monad_Syntax.bind
           (if user \<noteq> [] then search_post_by_user_id (x_posts x) (x_posts_of x) (x_jitter x) user
            else if rq_query r ''mode'' = ''semantic'' \<and> keywords \<noteq> [] then semantic_search (x_vector x) (x_nearest x) keywords 20
            else search_post_by_keywords (x_rank x) keywords) (\<lambda>res.
         answer (case res of
           Inl _ \<Rightarrow> write_error 500 ''failed to search posts''
         | Inr posts \<Rightarrow> write_json 200 (x_enc x (JObj [(''posts'', JArr (map json_of_post posts))])))))"

definition delete_post_handler :: "libs \<Rightarrow> post_handler \<Rightarrow> request \<Rightarrow> (world, http) state" where
  "delete_post_handler x h r =
     (if rq_vars r ''id'' = [] then answer (write_error 400 ''post id required'')
      else case get_user_id_from_jwt_token (rq_token r) of
        None \<Rightarrow> answer (write_error 401 ''unauthorized'')
      | Some user \<Rightarrow>
          Monad_Syntax.bind (delete_post (ph_relay h) (rq_ctx r) (rq_vars r ''id'') user) (\<lambda>res.
            answer (case res of
              Inl e \<Rightarrow>
                if e = ErrPostNotFound then write_error 404 ''post not found''
                else if e = ErrNotPostOwner then write_error 403 ''only the author can delete this post''
                else write_error 500 ''failed to delete post''
            | Inr deleted \<Rightarrow>
                if \<not> deleted then write_error 404 ''post not found''
                else write_json 200 (x_enc x (JObj [(''message'', JStr ''post deleted, cleanup in progress'')])))))"

definition like_post_handler :: "libs \<Rightarrow> post_handler \<Rightarrow> request \<Rightarrow> (world, http) state" where
  "like_post_handler x h r =
     (case get_user_id_from_jwt_token (rq_token r) of
        None \<Rightarrow> answer (write_error 401 ''unauthorized'')
      | Some user \<Rightarrow>
          Monad_Syntax.bind (like_post (ph_relay h) (rq_ctx r) (rq_vars r ''id'') user) (\<lambda>res.
            answer (case res of
              Inl e \<Rightarrow>
                if e = ErrAlreadyLiked then write_error 409 ''post already liked''
                else if e = ErrPostNotFound then write_error 404 ''post not found''
                else write_error 500 ''failed to like post''
            | Inr liked \<Rightarrow>
                if \<not> liked then write_error 409 ''post already liked''
                else write_json 200 (x_enc x (JObj [(''message'', JStr ''post liked'')])))))"

definition share_post_handler :: "libs \<Rightarrow> request \<Rightarrow> (world, http) state" where
  "share_post_handler x r =
     (case get_user_id_from_jwt_token (rq_token r) of
        None \<Rightarrow> answer (write_error 401 ''unauthorized'')
      | Some user \<Rightarrow>
          (let platform = (case x_platform x (rq_body r) of None \<Rightarrow> ''external'' | Some p \<Rightarrow> if p = [] then ''external'' else p)
           in Monad_Syntax.bind (share_post (rq_vars r ''id'') user platform) (\<lambda>res.
             answer (case res of
               Inl e \<Rightarrow> if e = ErrPostNotFound then write_error 404 ''post not found'' else write_error 500 ''failed to share post''
             | Inr shared \<Rightarrow>
                 if \<not> shared then write_error 404 ''post not found''
                 else write_json 200 (x_enc x (JObj [(''message'', JStr ''post shared'')]))))))"

definition add_comment_to_post_handler :: "libs \<Rightarrow> request \<Rightarrow> (world, http) state" where
  "add_comment_to_post_handler x r =
     (case get_user_id_from_jwt_token (rq_token r) of
        None \<Rightarrow> answer (write_error 401 ''unauthorized'')
      | Some user \<Rightarrow>
          (case x_comment x (rq_body r) of
             None \<Rightarrow> answer (write_error 400 ''invalid request body'')
           | Some (content, parent) \<Rightarrow>
               Monad_Syntax.bind (add_comment (rq_vars r ''id'') parent user content) (\<lambda>res.
                 answer (case res of
                   Inl e \<Rightarrow>
                     if e = ErrInvalidComment then write_error 400 ''comment must be 1-2000 characters''
                     else if e = ErrPostNotFound then write_error 404 ''post not found''
                     else if e = ErrCommentNotFound then write_error 404 ''parent comment not found on this post''
                     else write_error 500 ''failed to add comment''
                 | Inr cid \<Rightarrow> write_json 201 (x_enc x (JObj [(''comment_id'', JStr cid)]))))))"

definition generate_fn :: "libs \<Rightarrow> post_handler \<Rightarrow> string \<Rightarrow> string \<Rightarrow> (world, int \<times> string) state" where
  "generate_fn x h user prompt =
     Monad_Syntax.bind (generate_image_and_save_post (x_draw x) (x_fetch x) (ph_gcs h) (ph_relay h) None user prompt) (\<lambda>res.
       State_Monad.return (case res of
         Inl _ \<Rightarrow> (500, error_json ''failed to generate image'')
       | Inr p \<Rightarrow> (201, x_enc x (json_of_post p))))"

definition generate_image_handler :: "libs \<Rightarrow> post_handler \<Rightarrow> request \<Rightarrow> (world, http) state" where
  "generate_image_handler x h r =
     (case get_user_id_from_jwt_token (rq_token r) of
        None \<Rightarrow> answer (write_error 401 ''unauthorized'')
      | Some user \<Rightarrow>
          (let bad = answer (write_error 400 ''invalid request body'')
           in case x_prompt x (rq_body r) of
             None \<Rightarrow> bad
           | Some prompt \<Rightarrow>
               if prompt = [] then bad
               else with_idempotency (x_entry x) (x_entry_of x) (ph_idem h) ''generate'' user (rq_header r ''Idempotency-Key'')
                 (fingerprint (x_hash x) [prompt]) (generate_fn x h user prompt)))"

definition unlike_post_handler :: "libs \<Rightarrow> request \<Rightarrow> (world, http) state" where
  "unlike_post_handler x r =
     (case get_user_id_from_jwt_token (rq_token r) of
        None \<Rightarrow> answer (write_error 401 ''unauthorized'')
      | Some user \<Rightarrow>
          Monad_Syntax.bind (unlike_post (rq_vars r ''id'') user) (\<lambda>res.
            answer (case res of
              Inl e \<Rightarrow> if e = ErrNotLiked then write_error 404 ''post not liked'' else write_error 500 ''failed to unlike post''
            | Inr _ \<Rightarrow> write_json 200 (x_enc x (JObj [(''message'', JStr ''like removed'')])))))"

definition list_comments_handler :: "libs \<Rightarrow> request \<Rightarrow> (world, http) state" where
  "list_comments_handler x r =
     (case get_user_id_from_jwt_token (rq_token r) of
        None \<Rightarrow> answer (write_error 401 ''unauthorized'')
      | Some _ \<Rightarrow>
          Monad_Syntax.bind (list_comments (x_cur x) (x_cur_of x) (rq_vars r ''id'') (atoi (rq_query r ''limit'')) (rq_query r ''cursor'')) (\<lambda>res.
            answer (case res of
              Inl e \<Rightarrow>
                if e = ErrBadCursor then write_error 400 ''invalid cursor''
                else if e = ErrPostNotFound then write_error 404 ''post not found''
                else write_error 500 ''failed to load comments''
            | Inr (cs, nx) \<Rightarrow> write_json 200 (x_enc x (json_page ''comments'' (map json_of_comment cs) nx)))))"

text \<open>The routes of \<open>InitRouter\<close>.\<close>

datatype route = Upload | Search_Posts | Home_Feed | Delete_Post | Like | Share | Unlike | Add_Comment | List_Comments | Generate

fun serve :: "libs \<Rightarrow> post_handler \<Rightarrow> route \<Rightarrow> request \<Rightarrow> (world, http) state" where
  "serve x h Upload r = upload_post_handler x h r"
| "serve x h Search_Posts r = search_post_handler x r"
| "serve x h Home_Feed r = home_feed_handler x r"
| "serve x h Delete_Post r = delete_post_handler x h r"
| "serve x h Like r = like_post_handler x h r"
| "serve x h Share r = share_post_handler x r"
| "serve x h Unlike r = unlike_post_handler x r"
| "serve x h Add_Comment r = add_comment_to_post_handler x r"
| "serve x h List_Comments r = list_comments_handler x r"
| "serve x h Generate r = generate_image_handler x h r"

section \<open>Refused requests\<close>

text \<open>No system has changed: every table, every Redis key, the bucket, the broker and the search index.\<close>

definition calm :: "world \<Rightarrow> world \<Rightarrow> bool" where
  "calm w u \<longleftrightarrow> db u = db w \<and> red u = red w \<and> bucket u = bucket w \<and> bus u = bus w \<and> index u = index w"

lemma calm_trans: "calm w u \<Longrightarrow> calm u v \<Longrightarrow> calm w v"
  by (simp add: calm_def)

lemma calm_steps [simp]: "calm w w" "calm w (after_call y w)" "calm w (w\<lparr>uuids := us\<rparr>)"
  by (simp_all add: calm_def)

text \<open>A transaction whose statements change only the database changes nothing when it is rolled back.\<close>

definition calm_but_db :: "world \<Rightarrow> world \<Rightarrow> bool" where
  "calm_but_db w u \<longleftrightarrow> red u = red w \<and> bucket u = bucket w \<and> bus u = bus w \<and> index u = index w"

lemma wp_in_tx_refused:
  assumes "wp body (\<lambda>r u. calm_but_db w u) (after_call PG w)"
  shows "wp (in_tx body) (\<lambda>r u. \<forall>e. r = Inl e \<and> e \<noteq> ErrIO \<longrightarrow> calm w u) w"
  unfolding wp_in_tx using assms
  by (auto simp: calm_def calm_but_db_def elim!: wp_mono split: sum.split outcome.split)

lemma wp_ignore: "wp (ignore_err m) (\<lambda>r u. r = Inr ()) w"
  unfolding ignore_err_def by (rule wp_handleI [OF wp_all [of "\<lambda>_ _. True"]]) (simp_all add: wp_ret)

text \<open>The service refused: a sentinel error, or \<open>false\<close> without one.\<close>

definition refusal :: "err + bool \<Rightarrow> bool" where
  "refusal r = (case r of Inl e \<Rightarrow> e \<noteq> ErrIO | Inr ok \<Rightarrow> \<not> ok)"

lemma refusal_simps [simp]: "refusal (Inl e) = (e \<noteq> ErrIO)" "refusal (Inr ok) = (\<not> ok)"
  by (simp_all add: refusal_def)

lemma delete_refused:
  "wp (delete_post rl c i user) (\<lambda>r u. refusal r \<longrightarrow> calm w u) w"
proof (cases "i = [] \<or> user = []")
  case False
  have body: "wp (tryE (select_for_delete i) (\<lambda>owner.
             if owner \<noteq> user then fail ErrNotPostOwner
             else Monad_Syntax.bind now (\<lambda>t.
               tryE (update_deleted i t) (\<lambda>_.
                 enqueue ''post'' i ''post.deleted'' owner (PostDeleted i owner (unix t)) (t + fast_path_grace)))))
      (\<lambda>r u. calm_but_db w u) (after_call PG w)"
    by (auto simp: calm_but_db_def upd_posts_def wp_simps select_for_delete_def update_deleted_def enqueue_def Let_def upd_outbox_def split: outcome.split option.split sum.split prod.split)
  have after: "wp (tryE (ignore_err (redis_delete k)) (\<lambda>_. tryE (publish_after_commit rl c rec) (\<lambda>_. ret True)))
      (\<lambda>r v. refusal r \<longrightarrow> calm w v) u" for k rec u
    by (rule wp_mono [OF wp_after_commit [of u, OF _ quiet_redis_delete]]) (simp_all add: quiet_step_def)
  show ?thesis unfolding delete_post_def if_not_P [OF False]
    by (rule wp_tryI [OF wp_in_tx_refused [OF body]])
      (auto intro!: after)
qed (simp add: delete_post_def wp_ret)


lemma like_refused:
  "wp (like_post rl c i user) (\<lambda>r u. refusal r \<longrightarrow> calm w u) w"
proof (cases "i = [] \<or> user = []")
  case False
  have body: "wp (tryE (post_owner i) (\<lambda>owner.
             tryE (insert_like i user) (\<lambda>n.
               if n = 0 then fail ErrAlreadyLiked
               else Monad_Syntax.bind now (\<lambda>t.
                 enqueue ''post'' i ''post.liked'' i (PostLiked i user owner (unix t)) (t + fast_path_grace)))))
      (\<lambda>r u. calm_but_db w u) (after_call PG w)"
    by (auto simp: calm_but_db_def wp_simps post_owner_def insert_like_def upd_likes_def enqueue_def Let_def upd_outbox_def
        split: outcome.split option.split sum.split prod.split)
  have after: "wp (tryE (ignore_err (bump_counter i f n)) (\<lambda>_. tryE (publish_after_commit rl c rec) (\<lambda>_. ret True)))
      (\<lambda>r v. refusal r \<longrightarrow> calm w v) u" for f n rec u
    by (rule wp_mono [OF wp_after_commit [of u, OF _ quiet_bump]]) (simp_all add: quiet_step_def)
  show ?thesis unfolding like_post_def if_not_P [OF False]
    by (rule wp_tryI [OF wp_in_tx_refused [OF body]])
      (auto intro!: after)
qed (simp add: like_post_def wp_ret)

lemma share_refused:
  "wp (share_post i user platform) (\<lambda>r u. refusal r \<longrightarrow> calm w u) w"
proof -
  have ins: "wp (insert_share s i user platform) (\<lambda>r u. (case r of Inl e \<Rightarrow> e \<noteq> ErrIO | Inr n \<Rightarrow> n = 0) \<longrightarrow> calm w u) (w\<lparr>uuids := q\<rparr>)" for s q
    by (auto simp: insert_share_def wp_ext_call calm_def split: outcome.split)
  have bump: "wp (tryE (ignore_err (bump_counter i f n)) (\<lambda>_. ret True))
      (\<lambda>r v. refusal r \<longrightarrow> calm w v) u" for f n u
    by (rule wp_tryI [OF wp_ignore]) (simp_all add: wp_ret)
  show ?thesis
    by (auto simp: share_post_def wp_ret wp_bind wp_new_uuid intro!: wp_tryI [OF ins] bump)
qed

lemma unlike_refused:
  "wp (unlike_post i user) (\<lambda>r u. r = Inl ErrNotLiked \<longrightarrow> calm w u) w"
proof -
  have none: "filter (\<lambda>l. \<not> is_like i user l) rows = rows" if "count_where (is_like i user) rows = 0" for rows
    using that by (auto simp: count_where_def filter_id_conv filter_empty_conv)
  have del: "wp (delete_like i user) (\<lambda>r u. (r = Inr 0 \<longrightarrow> calm w u) \<and> r \<noteq> Inl ErrNotLiked) w"
    by (auto simp: delete_like_def wp_ext_call calm_def upd_likes_def none split: outcome.split)
  have bump: "wp (ignore_err (bump_counter i f n)) (\<lambda>r v. r = Inl ErrNotLiked \<longrightarrow> calm w v) u" for f n u
    by (rule wp_mono [OF wp_ignore]) simp
  show ?thesis unfolding unlike_post_def
    by (rule wp_tryI [OF del]) (auto simp: wp_ret intro!: bump)
qed

lemma comment_refused:
  "wp (add_comment pid parent user content) (\<lambda>r u. (\<exists>e. r = Inl e \<and> e \<noteq> ErrIO) \<longrightarrow> calm w u) w"
proof -
  have owner: "wp (post_owner pid) (\<lambda>r u. calm w u) w"
    by (auto simp: calm_def post_owner_def wp_ext_call split: outcome.split option.split)
  have place: "wp (comment_place pid parent cid) (\<lambda>r v. calm u v) u" for cid u
    by (auto simp: calm_def comment_place_def select_parent_def pg_query_def wp_simps split: outcome.split option.split prod.split)
  have ins: "wp (insert_comment cid pid par root depth user content)
      (\<lambda>r v. \<forall>e. r = Inl e \<and> e \<noteq> ErrIO \<longrightarrow> calm u v) u" for cid par root depth u
    by (auto simp: calm_def insert_comment_def wp_ext_call split: outcome.split)
  show ?thesis unfolding add_comment_def
    by (auto simp: wp_ret wp_bind wp_new_uuid calm_def split: prod.splits
        intro!: wp_tryI [OF owner] wp_tryI [OF place] wp_handleI [OF ins])
qed


text \<open>\<open>Begin\<close> changes Redis only if the request is then to run its handler: with the claim, or, when the
  claim failed, without one.\<close>

lemma calm_begin:
  "wp (idem_begin marshal unmarshal s k fp) (\<lambda>r u. r \<noteq> Inr None \<and> r \<noteq> Inl ErrIO \<longrightarrow> calm w u) w"
proof -
  have claim: "wp (idem_claim marshal s k fp) (\<lambda>r u. (r = Inr False \<longrightarrow> calm w u) \<and> (\<forall>e. r = Inl e \<longrightarrow> e = ErrIO)) w"
    by (auto simp: idem_claim_def redis_setnx_def wp_ext_call calm_def Let_def split: outcome.split if_splits option.split)
  have get: "wp (redis_get k) (\<lambda>_ u. calm w u) v" if "calm w v" for v
    using that by (simp add: redis_get_def wp_ext_call calm_def split: outcome.split)
  have reply: "wp (idem_reply unmarshal fp v) (\<lambda>_ u. calm w u) u0" if "calm w u0" for v u0
    using that by (simp add: idem_reply_def wp_ret split: option.split)
  have probe: "wp (idem_probe unmarshal k fp) (\<lambda>_ u. calm w u) v" if "calm w v" for v
    unfolding idem_probe_def by (rule wp_handleI [OF get [OF that]]) (simp_all add: reply wp_ret)
  show ?thesis unfolding idem_begin_def
  proof (rule wp_tryI [OF claim], goal_cases)
    case (1 ok u)
    then show ?case by (cases ok) (simp_all add: wp_ret wp_mono [OF probe])
  qed auto
qed

lemma idempotent_refused:
  assumes "\<And>u. wp fn (\<lambda>(st, _) _. st = 201 \<or> st = 500) u"
  shows "wp (with_idempotency marshal unmarshal store scope user key fp fn) (\<lambda>a v. 400 \<le> h_status a \<and> h_status a < 500 \<longrightarrow> calm w v) w"
proof -
  have own: "wp (Monad_Syntax.bind fn (\<lambda>(status, body). State_Monad.return (write_json status body)))
      (\<lambda>a v. 400 \<le> h_status a \<and> h_status a < 500 \<longrightarrow> calm w v) u" for u
    by (rule wp_bindI [OF assms]) (auto simp: wp_ret write_json_def)
  have any: "wp (m :: (world, err + unit) state) (\<lambda>_ _. True) u" for m u by (rule wp_all) simp
  have done1: "wp (Monad_Syntax.bind m (\<lambda>_. State_Monad.return (write_json st body)))
      (\<lambda>a v. 400 \<le> h_status a \<and> h_status a < 500 \<longrightarrow> calm w v) u"
    if "st = 201 \<or> st = 500" for m :: "(world, err + unit) state" and st body u
    by (rule wp_bindI [OF any]) (use that in \<open>auto simp: wp_ret write_json_def\<close>)
  have stored: "wp (Monad_Syntax.bind fn (\<lambda>(status, body). Monad_Syntax.bind (m status body)
      (\<lambda>_. State_Monad.return (write_json status body)))) (\<lambda>a v. 400 \<le> h_status a \<and> h_status a < 500 \<longrightarrow> calm w v) u"
    for m :: "int \<Rightarrow> string \<Rightarrow> (world, err + unit) state" and u
    by (rule wp_bindI [OF assms], split prod.splits) (auto intro: done1)
  show ?thesis
  proof (cases store)
    case None
    then show ?thesis using own [of w] by (simp add: with_idempotency_def)
  next
    case (Some s)
    consider "key = []" | "key \<noteq> []" "length key > 128" | "key \<noteq> []" "\<not> length key > 128" by blast
    then show ?thesis
    proof cases
      case 3
      show ?thesis
        unfolding with_idempotency_def Let_def Some option.case if_not_P [OF 3(1)] if_not_P [OF 3(2)]
      proof (rule wp_bindI [OF calm_begin], goal_cases)
        case (1 r u)
        show ?case
        proof (cases r)
          case (Inl e)
          then show ?thesis using 1 own [of u] by (simp add: wp_ret)
        next
          case (Inr v)
          then show ?thesis using 1 stored [of _ u] by (cases v) (simp_all add: wp_ret)
        qed
      qed
    qed (use Some own [of w] in \<open>simp_all add: with_idempotency_def wp_ret\<close>)
  qed
qed


text \<open>Operations that only read.\<close>

definition reads :: "'a io \<Rightarrow> bool" where
  "reads m \<longleftrightarrow> (\<forall>w. wp m (\<lambda>_ u. calm w u) w)"

named_theorems reads_intros "operations that only read"

lemma reads_ret [reads_intros]: "reads (State_Monad.return r)"
  by (simp add: reads_def wp_ret)

lemma reads_try [reads_intros]:
  assumes "reads m" and "\<And>x. reads (f x)"
  shows "reads (tryE m f)"
  unfolding reads_def
proof (intro allI wp_tryI [OF assms(1) [unfolded reads_def, rule_format]], goal_cases)
  case (1 w x u)
  show ?case
    by (rule wp_mono [OF assms(2) [unfolded reads_def, rule_format]]) (use 1 in \<open>simp add: calm_def\<close>)
qed

lemma reads_call [reads_intros]: "(\<And>w. snd (f w) = w) \<Longrightarrow> reads (ext_call y f)"
  by (simp add: reads_def wp_ext_call split: outcome.split)

lemma reads_home_feed: "reads (get_home_feed marshal unmarshal u limit cursor)"
  unfolding get_home_feed_def Let_def feed_items_def redis_zcount_def redis_zrange_def followed_celebrities_def
    redis_smembers_def followed_among_def pulled_posts_def pg_query_def live_posts_by_id_def
  by (auto split: sum.split intro!: reads_intros)

lemma reads_list_comments: "reads (list_comments marshal unmarshal pid limit cursor)"
  unfolding list_comments_def Let_def post_owner_def pg_query_def
  by (auto split: sum.split prod.split intro!: reads_intros)

text \<open>C33. A request that is answered with a client error (400 to 499) changed nothing, on every route and
  whatever calls fail, lose their reply or are delayed: every table (posts with their counters, likes, shares,
  comments, the outbox), every key of Redis, the bucket, the events on the broker and the search index are what
  they were.  In particular a 4xx is never the answer to a write whose commit went through.\<close>

theorem client_errors_change_nothing:
  assumes "run_state (serve x h q r) w = (a, w')" and "400 \<le> h_status a" and "h_status a < 500"
  shows "db w' = db w \<and> red w' = red w \<and> bucket w' = bucket w \<and> bus w' = bus w \<and> index w' = index w"
proof -
  let ?Q = "\<lambda>a v. 400 \<le> h_status a \<and> h_status a < 500 \<longrightarrow> calm w v"
  have status: "h_status (write_error st msg) = st" "h_status (write_json st body) = st" for st msg body
    by (simp_all add: write_error_def write_json_def)
  have upload: "wp (upload_fn x h p content) (\<lambda>(st, _) _. st = 201 \<or> st = 500) u" for p content u
    unfolding upload_fn_def wp_bind by (rule wp_all) (simp add: wp_ret split: sum.split)
  have generate: "wp (generate_fn x h user prompt) (\<lambda>(st, _) _. st = 201 \<or> st = 500) u" for user prompt u
    unfolding generate_fn_def wp_bind by (rule wp_all) (simp add: wp_ret split: sum.split)
  have uu: "calm w v" if "calm (w\<lparr>uuids := us\<rparr>) v" for v us
    using that by (simp add: calm_def)
  note self = calm_steps
  have "wp (serve x h q r) ?Q w"
  proof (cases q)
    case Upload
    then show ?thesis
      by (auto simp: upload_post_handler_def wp_ret wp_bind wp_new_uuid self split: option.split
          intro!: wp_mono [OF idempotent_refused [OF upload]] uu)
  next
    case Generate
    then show ?thesis
      by (auto simp: generate_image_handler_def Let_def wp_ret self split: option.split
          intro!: wp_mono [OF idempotent_refused [OF generate]])
  next
    case Search_Posts
    then show ?thesis
      by (auto simp: search_post_handler_def Let_def wp_bind wp_ret status split: sum.splits intro!: wp_all)
  next
    case Home_Feed
    then show ?thesis
      by (auto simp: home_feed_handler_def wp_ret self split: option.split
          intro!: wp_bindI [OF reads_home_feed [unfolded reads_def, rule_format]])
  next
    case List_Comments
    then show ?thesis
      by (auto simp: list_comments_handler_def wp_ret self split: option.split
          intro!: wp_bindI [OF reads_list_comments [unfolded reads_def, rule_format]])
  next
    case Delete_Post
    then show ?thesis
      by (auto simp: delete_post_handler_def wp_ret self status split: option.split sum.splits if_splits
          intro!: wp_bindI [OF delete_refused])
  next
    case Like
    then show ?thesis
      by (auto simp: like_post_handler_def wp_ret self status split: option.split sum.splits if_splits
          intro!: wp_bindI [OF like_refused])
  next
    case Share
    then show ?thesis
      by (auto simp: share_post_handler_def Let_def wp_ret self status split: option.split sum.splits if_splits
          intro!: wp_bindI [OF share_refused])
  next
    case Unlike
    then show ?thesis
      by (auto simp: unlike_post_handler_def wp_ret self status split: option.split sum.splits if_splits
          intro!: wp_bindI [OF unlike_refused])
  next
    case Add_Comment
    then show ?thesis
      by (auto simp: add_comment_to_post_handler_def wp_ret self status split: option.split sum.splits if_splits
          intro!: wp_bindI [OF comment_refused])
  qed
  from wp_run [OF this assms(1)] assms(2,3) show ?thesis by (simp add: calm_def)
qed


section \<open>Uploads\<close>

text \<open>Operations after which no system is worse than before: its outcomes are among those it had.\<close>

definition milder :: "world \<Rightarrow> world \<Rightarrow> bool" where
  "milder w u \<longleftrightarrow> (\<forall>y. outcomes u y \<subseteq> outcomes w y)"

definition tame :: "(world, 'r) state \<Rightarrow> bool" where
  "tame m \<longleftrightarrow> (\<forall>w. wp m (\<lambda>_. milder w) w)"

named_theorems tame_intros "operations that leave the systems as they are"

lemma milder_trans: "milder w u \<Longrightarrow> milder u v \<Longrightarrow> milder w v"
  by (meson milder_def order_trans)

lemma milder_call: "milder w (after_call y w)"
  unfolding milder_def using outcomes_after_call by blast

lemma tame_wp: "tame m \<Longrightarrow> milder w u \<Longrightarrow> wp m (\<lambda>_. milder w) u"
  unfolding tame_def by (blast intro: wp_mono milder_trans)

lemma tame_basic [tame_intros]:
  "tame (State_Monad.return r)" "tame now" "tame new_uuid" "tame (ctx_err c)"
  by (simp_all add: tame_def wp_ret wp_now wp_new_uuid wp_ctx_err milder_def outcomes_def)

lemma milder_refl: "milder w w"
  by (simp add: milder_def)

lemma tame_bind [tame_intros]:
  assumes "tame m" and "\<And>r. tame (f r)"
  shows "tame (Monad_Syntax.bind m f)"
  unfolding tame_def by (rule allI, rule wp_bindI [OF tame_wp [OF assms(1) milder_refl]], rule tame_wp [OF assms(2)])

lemma tame_handle [tame_intros]:
  assumes "tame m" and "\<And>e. tame (h e)" and "\<And>x. tame (f x)"
  shows "tame (handleE m h f)"
  unfolding tame_def
  by (rule allI, rule wp_handleI [OF tame_wp [OF assms(1) milder_refl]]; rule tame_wp [OF assms(3)] tame_wp [OF assms(2)])

lemma tame_try [tame_intros]:
  assumes "tame m" and "\<And>x. tame (f x)"
  shows "tame (tryE m f)"
  unfolding tame_def
  by (rule allI, rule wp_tryI [OF tame_wp [OF assms(1) milder_refl]]) (rule tame_wp [OF assms(2)])

lemma tame_call [tame_intros]:
  assumes "\<And>w. outs (snd (f w)) = outs w"
  shows "tame (ext_call y f)"
proof -
  have "milder w (snd (f (after_call y w)))" for w
    unfolding milder_def by (intro allI outcomes_stl) (simp add: assms)
  then show ?thesis by (simp add: tame_def wp_ext_call milder_call split: outcome.split)
qed

lemma tame_in_tx [tame_intros]:
  assumes "tame body"
  shows "tame (in_tx body)"
proof -
  have db: "milder w (v\<lparr>db := d\<rparr>) = milder w v" "milder w (upd_db f v) = milder w v" for w v d f
    by (simp_all add: milder_def)
  have "milder w (after_call y u)" if "milder w u" for w u y using that milder_call milder_trans by blast
  then have "wp (in_tx body) (\<lambda>_. milder w) w" for w
    by (intro wp_in_txI wp_mono [OF tame_wp [OF assms milder_call]]) (auto simp: db milder_call split: sum.split)
  then show ?thesis by (simp add: tame_def)
qed

lemma tame_publish: "tame (publish_after_commit r c rec)"
  unfolding publish_after_commit_def publish_now_def relay_fail_def publish_def pg_mark_published_def pg_mark_failed_def Let_def
  by (auto intro!: tame_intros simp: upd_outbox_def split: prod.split)

lemma tame_save_post: "tame (save_post g r c p content)"
  unfolding save_post_def save_to_gcs_def persist_new_post_def delete_from_gcs_def insert_post_def enqueue_def ignore_err_def
    redis_delete_def Let_def
  by (auto intro!: tame_intros tame_publish simp: upd_outbox_def upd_posts_def)

lemma tame_upload: "tame (upload_fn x h p content)"
  unfolding upload_fn_def by (intro tame_intros tame_save_post)

lemma upload_publishes:
  "wp (upload_fn x h p content) (\<lambda>(st, body) u. st = 201 \<longrightarrow>
    (\<exists>q. facts u = with_post q (facts w) \<and> post_user q = post_user p \<and> post_message q = post_message p \<and>
      post_type q = post_type p \<and> body = x_enc x (JObj [(''post_id'', JStr (post_id q))]))) w"
proof -
  let ?R = "\<lambda>r u. \<forall>q. r = Inr q \<longrightarrow> facts u = with_post q (facts w) \<and> post_user q = post_user p \<and>
    post_message q = post_message p \<and> post_type q = post_type p"
  have gcs: "wp (save_to_gcs (ph_gcs h) content i) (\<lambda>_ v. facts v = facts w) (w\<lparr>uuids := us\<rparr>)" for i us
    unfolding save_to_gcs_def by (auto simp: wp_simps facts_def split: outcome.split option.split)
  have persist: "wp (persist_new_post (ph_relay h) None (p\<lparr>post_id := i, post_url := url\<rparr>)) ?R v" if "facts v = facts w" for i url v
  proof (rule wp_state, intro allI impI)
    fix r u q
    assume run: "run_state (persist_new_post (ph_relay h) None (p\<lparr>post_id := i, post_url := url\<rparr>)) v = (r, u)" and r: "r = Inr q"
    show "facts u = with_post q (facts w) \<and> post_user q = post_user p \<and> post_message q = post_message p \<and> post_type q = post_type p"
      using persist_new_post_facts [OF run] r that by simp
  qed
  have "wp (save_post (ph_gcs h) (ph_relay h) None p content) ?R w"
    unfolding save_post_def wp_bind wp_new_uuid by (rule wp_tryI [OF gcs]) (auto intro: persist)
  then show ?thesis unfolding upload_fn_def
  proof (rule wp_bindI, goal_cases)
    case (1 r v)
    then show ?case by (cases r) (simp_all only: wp_ret sum.case prod.case, simp, blast)
  qed
qed


lemma first_request:
  assumes "0 < length key" "length key \<le> 128" "reliable Redis w" "r_str (red w) (idem_key scope user key) = None"
    and "run_state (with_idempotency marshal unmarshal (Some s) scope user key fp fn) w = (a, w1)"
    and "\<And>u. wp fn (\<lambda>(st, body) v. P u st body (facts v)) u" and "\<And>u st body f. facts u = facts w \<Longrightarrow> P u st body f = P w st body f"
  shows "\<exists>st body. a = write_json st body \<and> P w st body (facts w1)"
proof -
  have key: "key \<noteq> []" "\<not> length key > 128" using assms(1,2) by auto
  obtain u where u: "run_state (idem_begin marshal unmarshal s (idem_key scope user key) fp) w = (Inr None, u)" "redis_only w u"
    using begin_free [OF assms(3), of "idem_key scope user key" marshal unmarshal s fp] assms(4) by (auto simp: live_str_def)
  obtain st body v where fn: "run_state fn u = ((st, body), v)" by (metis surj_pair)
  have fu: "facts u = facts w" using u(2) by (simp add: redis_only_def facts_def)
  have "P w st body (facts v)" using wp_run [OF assms(6) fn] assms(7) [OF fu] by simp
  moreover have "wp (idem_complete marshal s k fp resp) (\<lambda>_ z. facts z = facts v) v"
    "wp (idem_release k) (\<lambda>_ z. facts z = facts v) v" for k resp
    by (simp_all add: idem_complete_def idem_release_def redis_set_def redis_delete_def wp_ext_call facts_def split: outcome.split)
  then have "wp (if 200 \<le> st \<and> st < 300 then idem_complete marshal s (idem_key scope user key) fp \<lparr>rs_status = st, rs_body = body\<rparr>
      else idem_release (idem_key scope user key)) (\<lambda>_ z. facts z = facts v) v" by simp
  from wp_run [OF this] have "a = write_json st body \<and> facts w1 = facts v"
    using assms(5) key by (auto simp: with_idempotency_def Let_def run_bind u(1) fn split: prod.splits)
  ultimately show ?thesis by auto
qed

text \<open>A 201 with the post behind it.\<close>

definition published :: "libs \<Rightarrow> string \<Rightarrow> string \<Rightarrow> string \<Rightarrow> facts \<Rightarrow> int \<Rightarrow> string \<Rightarrow> facts \<Rightarrow> bool" where
  "published x user text name f0 st body f \<longleftrightarrow> st = 201 \<longrightarrow>
     (\<exists>p. f = with_post p f0 \<and> post_user p = user \<and> post_message p = text \<and>
        post_type p = post_type (upload_post [] user [] name) \<and> body = x_enc x (JObj [(''post_id'', JStr (post_id p))]))"

lemma upload_published:
  "wp (upload_fn x h (upload_post i user text name) content) (\<lambda>(st, body) u. published x user text name (facts w) st body (facts u)) w"
  by (rule wp_mono [OF upload_publishes]) (simp add: published_def upload_post_def split: prod.splits)

text \<open>C34. An upload with an idempotency key is published once, as long as Redis answers during both requests and
  the key was free (with Redis down the handler runs without the protection): when the first attempt is answered
  with 201, exactly one post by the signed-in user, with the given text and the media type of the file name, and
  its event were added, and the answer names its id; a retry of the request within the retention period, in any
  later world that still holds the entry, gets the same answer again, marked as replayed, and changes no table, no
  media and nothing on the broker.  The database, the object store and Kafka may fail in any way.\<close>

theorem uploads_publish_once:
  assumes "\<And>e. x_entry_of x (x_entry x e) = Some e" and "ph_idem h = Some s"
    and "get_user_id_from_jwt_token (rq_token r) = Some user" and "rq_file r = Some (name, content)"
  defines "key \<equiv> rq_header r ''Idempotency-Key''"
  defines "k \<equiv> idem_key ''upload'' user key"
  assumes "0 < length key" and "length key \<le> 128" and "reliable Redis w" and "r_str (red w) k = None"
    and "run_state (upload_post_handler x h r) w = (a, w1)" and "h_status a = 201"
    and "reliable Redis w2" and "r_str (red w2) k = r_str (red w1) k"
    and "clock (after_call Redis (after_call Redis w2)) < clock w1 + snd (idem_ttl s)"
    and "run_state (upload_post_handler x h r) w2 = (a', w3)"
  shows "(\<exists>p. facts w1 = with_post p (facts w) \<and> post_user p = user \<and> post_message p = rq_form r ''message'' \<and>
      post_type p = post_type (upload_post [] user [] name) \<and>
      h_body a = x_enc x (JObj [(''post_id'', JStr (post_id p))]) @ [CHR 0x0A]) \<and>
    h_status a' = 201 \<and> h_replayed a' \<and> h_body a' @ [CHR 0x0A] = h_body a \<and>
    db w3 = db w2 \<and> bucket w3 = bucket w2 \<and> bus w3 = bus w2"
proof -
  let ?fp = "fingerprint (x_hash x) [rq_form r ''message'', name, format_int (int (length content))]"
  let ?fn = "\<lambda>w. upload_fn x h (upload_post (shd (uuids w)) user (rq_form r ''message'') name) content"
  let ?u = "\<lambda>w. w\<lparr>uuids := stl (uuids w)\<rparr>"
  have run: "run_state (upload_post_handler x h r) w =
      run_state (with_idempotency (x_entry x) (x_entry_of x) (Some s) ''upload'' user key ?fp (?fn w)) (?u w)" for w
    by (simp add: upload_post_handler_def assms(2-4) key_def run_bind new_uuid_def)
  have rel: "reliable Redis (?u w)" "reliable Redis (?u w2)" using assms(9,13) by (simp_all add: outcomes_def)
  have fn: "wp (?fn v) (\<lambda>_ z. reliable Redis z) y" if "reliable Redis y" for v y
    by (rule wp_mono [OF tame_wp [OF tame_upload milder_refl]]) (use that in \<open>auto simp: milder_def\<close>)
  let ?P = "\<lambda>u. published x user (rq_form r ''message'') name (facts u)"
  have key: "k = idem_key ''upload'' user key" by (simp add: k_def)
  have "\<exists>st body. a = write_json st body \<and> ?P (?u w) st body (facts w1)"
    by (rule first_request [where scope = "''upload''" and user = user and P = ?P, OF assms(7,8) rel(1) _ _ upload_published])
      (use assms(10,11) in \<open>simp_all add: run key\<close>)
  then obtain st body where first: "a = write_json st body" "?P (?u w) st body (facts w1)" by blast
  have st: "st = 201" using first(1) assms(12) by (simp add: write_json_def)
  have uu: "clock (after_call Redis (after_call Redis (?u w2))) = clock (after_call Redis (after_call Redis w2))"
    by (simp add: after_call_def)
  have "redis_only (?u w2) w3 \<and> h_replayed a' \<and> h_status a' = h_status a \<and> h_body a' @ [CHR 0x0A] = h_body a"
    using retried_request [of "x_entry_of x" "x_entry x" "?fn w" key "?u w" "''upload''" user s ?fp a w1 "?u w2" ?fp "?fn w2" a' w3,
        OF assms(1) fn assms(7,8) rel(1) _ _ rel(2)] assms(10-12,14-16) by (simp add: run key uu)
  moreover have "facts (?u w) = facts w" by (simp add: facts_def)
  ultimately show ?thesis using first(2) st by (auto simp: published_def redis_only_def facts_def first(1) write_json_def)
qed


section \<open>A small instance\<close>

text \<open>An encoder and the other libraries for examples.\<close>

definition demo_enc :: "json \<Rightarrow> string" where
  "demo_enc j = (case j of JObj ((f, JStr s) # _) \<Rightarrow> f @ '':'' @ s | _ \<Rightarrow> ''{}'')"

definition demo_libs :: libs where
  "demo_libs = \<lparr>x_enc = demo_enc, x_hash = id, x_entry = entry_text, x_entry_of = text_entry, x_cur = (\<lambda>_. ''c''),
     x_cur_of = (\<lambda>_. None), x_posts = (\<lambda>_. []), x_posts_of = (\<lambda>_. None), x_jitter = 0, x_draw = id, x_fetch = id,
     x_rank = (\<lambda>_ _ _. []), x_vector = (\<lambda>_. []), x_nearest = (\<lambda>_ _ _. []), x_prompt = Some, x_platform = Some,
     x_comment = (\<lambda>s. Some (s, []))\<rparr>"

definition demo_handler :: post_handler where
  "demo_handler = \<lparr>ph_gcs = \<lparr>public_base = ''https://cdn'', bucket_name = ''b'', sign_url = (\<lambda>_. None)\<rparr>, ph_relay = demo_relay,
     ph_idem = Some demo_idem\<rparr>"

definition demo_request :: request where
  "demo_request = \<lparr>rq_token = Claims (Some [''user_id'' \<mapsto> CStr ''bob'']), rq_ctx = None, rq_header = (\<lambda>_. ''k''),
     rq_query = (\<lambda>_. []), rq_form = (\<lambda>_. ''hello''), rq_vars = (\<lambda>_. ''p1''), rq_file = Some (''a.png'', ''data''), rq_body = []\<rparr>"

text \<open>Bob tries to delete a post of another author.\<close>

theorem client_errors_change_nothing_witness:
  "h_status (fst (run_state (serve demo_libs demo_handler Delete_Post demo_request) demo_posts)) = 403 \<and>
   db (snd (run_state (serve demo_libs demo_handler Delete_Post demo_request) demo_posts)) = db demo_posts \<and>
   bus (snd (run_state (serve demo_libs demo_handler Delete_Post demo_request) demo_posts)) = bus demo_posts"
proof -
  let ?r = "run_state (serve demo_libs demo_handler Delete_Post demo_request) demo_posts"
  have u: "get_user_id_from_jwt_token (rq_token demo_request) = Some ''bob''"
    by (simp add: demo_request_def get_user_id_from_jwt_token_def)
  have n: "next_out PG (after_call y demo_posts) = Done" "next_out PG demo_posts = Done" for y
    by (simp_all add: next_out_def after_call_def demo_posts_def quiet_world_def)
  have "run_state (select_for_delete ''p1'') (after_call PG demo_posts) = (Inr ''ann'', after_call PG (after_call PG demo_posts))"
    using demo_posts_ok(4) by (simp add: select_for_delete_def find_post_def ext_call_def n new_row_def demo_post_def blank_post_def)
  then have "fst (run_state (delete_post demo_relay None ''p1'' ''bob'') demo_posts) = Inl ErrNotPostOwner"
    by (simp add: delete_post_def run_simps in_tx_def ext_call_def n)
  then obtain z where d: "run_state (delete_post demo_relay None ''p1'' ''bob'') demo_posts = (Inl ErrNotPostOwner, z)"
    by (metis prod.collapse)
  have st: "h_status (fst ?r) = 403"
    using d u by (simp add: delete_post_handler_def run_bind write_error_def write_json_def demo_handler_def, simp add: demo_request_def write_error_def write_json_def)
  have "?r = (fst ?r, snd ?r)" by simp
  from client_errors_change_nothing [OF this] st show ?thesis by simp
qed

lemma quiet_simps: "outs quiet_world = (\<lambda>_. sconst (Done, 0))" "uuids quiet_world = sconst ''id''" "clock quiet_world = 0"
  "red quiet_world = empty_redis" "db quiet_world = empty_db" "t_posts empty_db = []"
  by (simp_all add: quiet_world_def empty_db_def)

lemma demo_save:
  assumes "outs w = (\<lambda>_. sconst (Done, 0))" "db w = empty_db"
  shows "\<exists>q u. run_state (save_post g demo_relay None p content) w = (Inr q, u) \<and> outs u = outs w"
  using assms
  by (simp add: save_post_def save_to_gcs_def persist_new_post_def insert_post_def enqueue_def ignore_err_def
     redis_delete_def Let_def run_simps instant_calls in_tx_def new_uuid_def now_def quiet_simps upd_posts_def upd_outbox_def
     publish_after_commit_def publish_now_def publish_def pg_mark_published_def)


text \<open>Bob uploads twice with one key, right after each other.\<close>

lemma demo_upload:
  defines "a \<equiv> run_state (upload_post_handler demo_libs demo_handler demo_request) quiet_world"
  shows "h_status (fst a) = 201 \<and> outs (snd a) = (\<lambda>_. sconst (Done, 0))"
proof -
  let ?k = "idem_key ''upload'' ''bob'' ''k''"
  let ?v = "quiet_world\<lparr>uuids := sconst ''id''\<rparr>"
  have u: "get_user_id_from_jwt_token (rq_token demo_request) = Some ''bob''"
    by (simp add: demo_request_def get_user_id_from_jwt_token_def)
  have fn: "\<exists>body z. run_state (upload_fn demo_libs demo_handler p content) w = ((201, body), z) \<and> outs z = outs w"
    if w: "outs w = (\<lambda>_. sconst (Done, 0))" "db w = empty_db" for p content w
  proof -
    obtain q z where "run_state (save_post (ph_gcs demo_handler) demo_relay None p content) w = (Inr q, z)" "outs z = outs w"
      using demo_save [OF w] by blast
    then show ?thesis by (simp add: upload_fn_def run_bind demo_handler_def)
  qed
  have claim: "\<exists>z. run_state (idem_begin entry_text text_entry demo_idem ?k fp) ?v = (Inr None, z) \<and> outs z = (\<lambda>_. sconst (Done, 0)) \<and> db z = empty_db" for fp
    by (simp add: idem_begin_def idem_claim_def redis_setnx_def run_simps instant_calls quiet_simps live_str_def empty_redis_def)
  let ?fp = "fingerprint id [''hello'', ''a.png'', format_int (int (length ''data''))]"
  let ?p = "upload_post ''id'' ''bob'' ''hello'' ''a.png''"
  obtain y where y: "run_state (idem_begin entry_text text_entry demo_idem ?k ?fp) ?v = (Inr None, y)"
    "outs y = (\<lambda>_. sconst (Done, 0))" "db y = empty_db" using claim by blast
  obtain body z where z: "run_state (upload_fn demo_libs demo_handler ?p ''data'') y = ((201, body), z)" "outs z = (\<lambda>_. sconst (Done, 0))"
    using fn [OF y(2,3)] y(2) by fastforce
  have "a = (write_json 201 body, snd (run_state (idem_complete entry_text demo_idem ?k ?fp \<lparr>rs_status = 201, rs_body = body\<rparr>) z))"
    unfolding a_def upload_post_handler_def u
    using y(1) z(1)
    by (simp add: demo_request_def run_bind new_uuid_def quiet_simps with_idempotency_def Let_def demo_libs_def demo_handler_def split: prod.split)
  then show ?thesis by (simp add: write_json_def idem_complete_def redis_set_def instant_calls z(2))
qed

theorem uploads_publish_once_witness:
  "h_body (fst (run_state (upload_post_handler demo_libs demo_handler demo_request)
      (snd (run_state (upload_post_handler demo_libs demo_handler demo_request) quiet_world)))) @ [CHR 0x0A] =
   h_body (fst (run_state (upload_post_handler demo_libs demo_handler demo_request) quiet_world))"
proof -
  let ?h = "upload_post_handler demo_libs demo_handler demo_request"
  let ?a = "run_state ?h quiet_world"
  let ?b = "run_state ?h (snd ?a)"
  have rel: "reliable Redis quiet_world" "reliable Redis (snd ?a)"
    using demo_upload by (simp_all add: outcomes_def quiet_simps)
  have free: "r_str (red quiet_world) (idem_key ''upload'' ''bob'' (rq_header demo_request ''Idempotency-Key'')) = None"
    by (simp add: quiet_simps empty_redis_def)
  have clk: "clock (after_call Redis (after_call Redis (snd ?a))) < clock (snd ?a) + snd (idem_ttl demo_idem)"
    using demo_upload by (simp add: instant_calls idem_ttl_pos)
  have ab: "?a = (fst ?a, snd ?a)" "?b = (fst ?b, snd ?b)" by simp_all
  have req: "get_user_id_from_jwt_token (rq_token demo_request) = Some ''bob''" "rq_file demo_request = Some (''a.png'', ''data'')"
    "ph_idem demo_handler = Some demo_idem" "0 < length (rq_header demo_request ''Idempotency-Key'')"
    "length (rq_header demo_request ''Idempotency-Key'') \<le> 128"
    by (simp_all add: demo_request_def get_user_id_from_jwt_token_def demo_handler_def)
  have law: "x_entry_of demo_libs (x_entry demo_libs e) = Some e" for e by (simp add: demo_libs_def demo_codec)
  from uploads_publish_once [OF law req(3,1,2,4,5) rel(1) free ab(1) _ rel(2) refl clk ab(2)] demo_upload
  show ?thesis by blast
qed

end
