(* ===== verification/Reconcile.thy ===== *)
theory Reconcile
  imports Posts
begin

text \<open>
  \<open>services/post/service/reconcile.go\<close>: recounting the likes and shares of posts from their rows.  The order
  in which Go walks the map of counter columns is arbitrary, so it is an argument.
\<close>

section \<open>The operations\<close>

record reconciler =
  rc_batch :: int
  rc_quiet :: int
  rc_after :: string

record check =
  k_id :: string
  k_likes :: int
  k_shares :: int
  k_nlike :: int
  k_nshare :: int
  k_busy :: bool

definition like_rows :: "string \<Rightarrow> world \<Rightarrow> int" where
  "like_rows i w = int (count_where (\<lambda>l. l_post l = i) (t_likes (db w)))"

definition share_rows :: "string \<Rightarrow> world \<Rightarrow> int" where
  "share_rows i w = int (count_where (\<lambda>s. s_post s = i) (t_shares (db w)))"

definition is_busy :: "int \<Rightarrow> world \<Rightarrow> string \<Rightarrow> bool" where
  "is_busy quiet w i \<longleftrightarrow> list_ex (\<lambda>l. l_post l = i \<and> l_at l > clock w - quiet) (t_likes (db w)) \<or>
     list_ex (\<lambda>s. s_post s = i \<and> s_at s > clock w - quiet) (t_shares (db w))"

definition check_of :: "int \<Rightarrow> world \<Rightarrow> post_row \<Rightarrow> check" where
  "check_of quiet w p = \<lparr>k_id = p_id p, k_likes = p_likes p, k_shares = p_shares p, k_nlike = like_rows (p_id p) w,
     k_nshare = share_rows (p_id p) w, k_busy = is_busy quiet w (p_id p)\<rparr>"

definition load_checks :: "string \<Rightarrow> int \<Rightarrow> int \<Rightarrow> check list io" where
  "load_checks after batch quiet =
     pg_query (\<lambda>w. map (check_of quiet w) (select_asc p_id (Some after) batch (t_posts (db w))))"

text \<open>\<open>hasPendingDelta\<close>; \<open>PendingKey\<close> is the key of the delta.\<close>

fun has_pending_delta :: "string list \<Rightarrow> string \<Rightarrow> bool io" where
  "has_pending_delta [] i = ret False"
| "has_pending_delta (f # cols) i =
     handleE (redis_get (delta_key [] i f)) (\<lambda>_. ret True) (\<lambda>v. case v of
         None \<Rightarrow> has_pending_delta cols i
       | Some s \<Rightarrow> if s \<noteq> [] \<and> s \<noteq> ''0'' then ret True else has_pending_delta cols i)"

definition same_counts :: "check \<Rightarrow> post_row \<Rightarrow> bool" where
  "same_counts c p \<longleftrightarrow> p_id p = k_id c \<and> p_likes p = k_likes c \<and> p_shares p = k_shares c"

definition update_counts :: "check \<Rightarrow> int io" where
  "update_counts c = ext_call PG (\<lambda>w. (Inr (int (count_where (same_counts c) (t_posts (db w)))),
     upd_posts (update_where (same_counts c) (\<lambda>p. p\<lparr>p_likes := k_nlike c, p_shares := k_nshare c\<rparr>)) w))"

text \<open>The body of the loop; the result counts (Checked, Fixed, Skipped).\<close>

type_synonym tally = "int \<times> int \<times> int"

definition reconcile_one :: "string list \<Rightarrow> check \<Rightarrow> tally \<Rightarrow> (world, tally \<times> err option) state" where
  "reconcile_one cols c res = (case res of (checked, fixed, skipped) \<Rightarrow>
     if k_likes c = k_nlike c \<and> k_shares c = k_nshare c then State_Monad.return ((checked + 1, fixed, skipped), None)
     else Monad_Syntax.bind (has_pending_delta cols (k_id c)) (\<lambda>pending. case pending of
         Inl e \<Rightarrow> State_Monad.return ((checked + 1, fixed, skipped), Some e)
       | Inr pending \<Rightarrow>
           if k_busy c \<or> pending then State_Monad.return ((checked + 1, fixed, skipped + 1), None)
           else Monad_Syntax.bind (update_counts c) (\<lambda>tag. State_Monad.return (case tag of
               Inl e \<Rightarrow> ((checked + 1, fixed, skipped), Some e)
             | Inr n \<Rightarrow> if n = 1 then ((checked + 1, fixed + 1, skipped), None) else ((checked + 1, fixed, skipped + 1), None)))))"

fun reconcile_loop :: "string list \<Rightarrow> check list \<Rightarrow> tally \<Rightarrow> (world, tally \<times> err option) state" where
  "reconcile_loop cols [] res = State_Monad.return (res, None)"
| "reconcile_loop cols (c # cs) res = Monad_Syntax.bind (reconcile_one cols c res) (\<lambda>(res', e).
     if e \<noteq> None then State_Monad.return (res', e) else reconcile_loop cols cs res')"

definition reconcile_batch :: "reconciler \<Rightarrow> int" where
  "reconcile_batch r = (if rc_batch r \<le> 0 then 500 else rc_batch r)"

definition reconcile_quiet :: "reconciler \<Rightarrow> int" where
  "reconcile_quiet r = (if rc_quiet r \<le> 0 then 300000000 else rc_quiet r)"

definition reconcile_run_once :: "string list \<Rightarrow> reconciler \<Rightarrow> (world, (tally \<times> err option) \<times> reconciler) state" where
  "reconcile_run_once cols r =
     Monad_Syntax.bind (load_checks (rc_after r) (reconcile_batch r) (reconcile_quiet r)) (\<lambda>got. case got of
         Inl e \<Rightarrow> State_Monad.return (((0, 0, 0), Some e), r)
       | Inr checks \<Rightarrow>
           (let r' = r\<lparr>rc_after := (if int (length checks) < reconcile_batch r then [] else k_id (last checks))\<rparr>
            in Monad_Syntax.bind (reconcile_loop cols checks (0, 0, 0)) (\<lambda>res. State_Monad.return (res, r'))))"

section \<open>What a pass repairs\<close>

text \<open>No delta of the post is on its way.\<close>

definition settled :: "world \<Rightarrow> string \<Rightarrow> bool" where
  "settled w i \<longleftrightarrow> (\<forall>f\<in>set counter_columns. unflushed [] w i f = 0)"

definition recount :: "int \<Rightarrow> world \<Rightarrow> post_row \<Rightarrow> post_row" where
  "recount quiet w p = (if is_busy quiet w (p_id p) \<or> \<not> settled w (p_id p) then p
     else p\<lparr>p_likes := like_rows (p_id p) w, p_shares := share_rows (p_id p) w\<rparr>)"

text \<open>Database and Redis answer.\<close>

abbreviation both_up :: "world \<Rightarrow> bool" where
  "both_up w \<equiv> reliable PG w \<and> reliable Redis w"

text \<open>\<open>hasPendingDelta\<close> tells whether some column has a delta on its way.\<close>

lemma wp_pending:
  assumes "deltas_ok [] v" "both_up v"
  shows "wp (has_pending_delta cols i) (\<lambda>r u. r = Inr (\<exists>f\<in>set cols. unflushed [] v i f \<noteq> 0) \<and>
    db u = db v \<and> red u = red v \<and> both_up u) v"
  using assms
proof (induction cols arbitrary: v)
  case Nil
  then show ?case by (simp add: wp_ret)
next
  case (Cons f cols)
  let ?v = "after_call Redis v"
  have n: "next_out Redis v = Done" using Cons.prems(2) by (simp add: reliable_next)
  have ok: "deltas_ok [] ?v" "both_up ?v" using Cons.prems by simp_all
  have un: "unflushed [] ?v i g = unflushed [] v i g" for g using Cons.prems(1) by simp
  note IH = Cons.IH [OF ok, unfolded un, simplified]
  show ?case
  proof (rule deltas_ok_live' [OF ok(1), of i f])
    assume "live_str ?v (delta_key [] i f) = None" "unflushed [] ?v i f = 0"
    then show ?thesis using IH by (simp add: wp_handleE redis_get_def wp_ext_call n un)
  next
    fix m assume "live_str ?v (delta_key [] i f) = Some (format_int m)" "unflushed [] ?v i f = m"
    then show ?thesis using IH ok(2)
      by (auto simp: wp_handleE redis_get_def wp_ext_call n un wp_ret format_int_zero)
  qed
qed

lemma settled_cong:
  assumes "deltas_ok [] v" "red u = red v"
  shows "settled u i = settled v i" "deltas_ok [] u"
  using unflushed_cong [OF assms(1), of u] assms(2) by (simp_all add: settled_def)

definition replace_row :: "post_row \<Rightarrow> post_row \<Rightarrow> world \<Rightarrow> world \<Rightarrow> bool" where
  "replace_row p p' v u \<longleftrightarrow> db u = (db v)\<lparr>t_posts := map (\<lambda>x. if x = p then p' else x) (t_posts (db v))\<rparr> \<and> red u = red v \<and> both_up u"

lemma replace_same: "db u = db v \<Longrightarrow> red u = red v \<Longrightarrow> both_up u \<Longrightarrow> replace_row p p v u"
  by (simp add: replace_row_def)

lemma wp_update_counts:
  assumes "p \<in> set (t_posts (db v))" "distinct (map p_id (t_posts (db v)))" "both_up v"
  shows "wp (update_counts (check_of q w p)) (\<lambda>r u. r = Inr 1 \<and>
    replace_row p (p\<lparr>p_likes := like_rows (p_id p) w, p_shares := share_rows (p_id p) w\<rparr>) v u) v"
proof -
  let ?c = "check_of q w p"
  have hit: "same_counts ?c x \<longleftrightarrow> x = p" if "x \<in> set (t_posts (db v))" for x
    using that assms(1,2) by (auto simp: same_counts_def check_of_def distinct_map inj_on_def)
  have rows: "update_where (same_counts ?c) f (t_posts (db v)) = map (\<lambda>x. if x = p then f x else x) (t_posts (db v))" for f
    unfolding update_where_def by (rule map_cong [OF refl]) (simp add: hit)
  have "filter (same_counts ?c) (t_posts (db v)) = filter (\<lambda>x. x = p) (t_posts (db v))"
    by (rule filter_cong [OF refl]) (simp add: hit)
  also have "length \<dots> = 1"
    using assms(1,2) by (simp add: distinct_map distinct_length_filter Int_absorb2 Collect_conv_if)
  finally have one: "count_where (same_counts ?c) (t_posts (db v)) = 1" by (simp add: count_where_def)
  have n: "next_out PG v = Done" using assms(3) by (simp add: reliable_next)
  have new: "k_nlike ?c = like_rows (p_id p) w" "k_nshare ?c = share_rows (p_id p) w" by (simp_all add: check_of_def)
  show ?thesis
    using assms(3) by (simp add: update_counts_def wp_ext_call n one rows replace_row_def upd_posts_def new cong: if_cong)
qed

lemma wp_reconcile_one:
  assumes "set cols = set counter_columns" "deltas_ok [] v" "settled v (p_id p) = settled w (p_id p)" "both_up v"
    and "p \<in> set (t_posts (db v))" "distinct (map p_id (t_posts (db v)))"
  shows "wp (reconcile_one cols (check_of q w p) acc) (\<lambda>r u. snd r = None \<and> fst (fst r) = fst acc + 1 \<and>
    replace_row p (recount q w p) v u) v"
proof (cases "p_likes p = like_rows (p_id p) w \<and> p_shares p = share_rows (p_id p) w")
  case True
  then have "recount q w p = p" by (simp add: recount_def)
  then show ?thesis
    using True assms(4) by (cases acc) (simp add: reconcile_one_def check_of_def wp_ret replace_same)
next
  case False
  let ?c = "check_of q w p"
  have c: "\<not> (k_likes ?c = k_nlike ?c \<and> k_shares ?c = k_nshare ?c)" "k_id ?c = p_id p" "k_busy ?c = is_busy q w (p_id p)"
    using False by (simp_all add: check_of_def)
  obtain a b d where acc: "acc = (a, b, d)" by (cases acc)
  show ?thesis
    unfolding reconcile_one_def acc prod.case if_not_P [OF c(1)] c(2)
  proof (rule wp_bindI [OF wp_pending [OF assms(2,4)]], elim conjE, simp only: sum.case c(3) assms(1), goal_cases)
    case (1 r u)
    have pend: "(\<exists>f\<in>set counter_columns. unflushed [] v (p_id p) f \<noteq> 0) \<longleftrightarrow> \<not> settled w (p_id p)"
      unfolding assms(3) [symmetric] by (simp add: settled_def)
    show ?case
    proof (cases "is_busy q w (p_id p) \<or> \<not> settled w (p_id p)")
      case True
      then show ?thesis using 1 by (simp add: pend wp_ret recount_def replace_same)
    next
      case False
      have u: "p \<in> set (t_posts (db u))" "distinct (map p_id (t_posts (db u)))" "both_up u" using 1 assms(5,6) by simp_all
      have "wp (Monad_Syntax.bind (update_counts ?c) (\<lambda>tag. State_Monad.return (case tag of
               Inl e \<Rightarrow> ((a + 1, b, d), Some e)
             | Inr n \<Rightarrow> if n = 1 then ((a + 1, b + 1, d), None) else ((a + 1, b, d + 1), None))))
          (\<lambda>r z. snd r = None \<and> fst (fst r) = a + 1 \<and> replace_row p (recount q w p) v z) u"
        by (rule wp_bindI [OF wp_update_counts [OF u]]) (use 1 False in \<open>simp add: wp_ret replace_row_def recount_def\<close>)
      then show ?thesis using False by (simp add: pend)
    qed
  qed
qed

lemma wp_reconcile_loop:
  assumes "set cols = set counter_columns" "deltas_ok [] w" "red v = red w" "both_up v"
    and "set ps \<subseteq> set (t_posts (db v))" "distinct (map p_id (t_posts (db v)))" "distinct ps"
  shows "wp (reconcile_loop cols (map (check_of q w) ps) acc) (\<lambda>r u. snd r = None \<and> fst (fst r) = fst acc + int (length ps) \<and>
    db u = (db v)\<lparr>t_posts := map (\<lambda>x. if x \<in> set ps then recount q w x else x) (t_posts (db v))\<rparr> \<and> red u = red v \<and> both_up u) v"
  using assms
proof (induction ps arbitrary: v acc)
  case Nil
  then show ?case by (simp add: wp_ret)
next
  case (Cons p ps)
  have id: "p_id (recount q w x) = p_id x" for x by (simp add: recount_def)
  have one: "wp (reconcile_one cols (check_of q w p) acc) (\<lambda>r u. snd r = None \<and> fst (fst r) = fst acc + 1 \<and>
      replace_row p (recount q w p) v u) v"
    using Cons.prems settled_cong [OF Cons.prems(2,3)] by (intro wp_reconcile_one) simp_all
  show ?case
    unfolding list.map reconcile_loop.simps
  proof (rule wp_bindI [OF one], goal_cases)
    case (1 r u)
    then obtain acc' where r: "r = (acc', None)" "fst acc' = fst acc + 1" by (cases r) auto
    let ?f = "\<lambda>x. if x = p then recount q w p else x"
    have rows: "t_posts (db u) = map ?f (t_posts (db v))" "red u = red v" "both_up u" "db u = (db v)\<lparr>t_posts := map ?f (t_posts (db v))\<rparr>"
      using 1 by (simp_all add: replace_row_def)
    have ids: "map p_id (t_posts (db u)) = map p_id (t_posts (db v))"
      unfolding rows(1) by (simp add: id)
    have other: "recount q w p \<notin> set ps"
    proof
      assume "recount q w p \<in> set ps"
      then have "recount q w p \<in> set (t_posts (db v))" using Cons.prems(5) by auto
      then have "recount q w p = p" using Cons.prems(5,6) id [of p] by (auto simp: distinct_map inj_on_def)
      then show False using \<open>recount q w p \<in> set ps\<close> Cons.prems(7) by simp
    qed
    have sub: "set ps \<subseteq> set (t_posts (db u))"
      using Cons.prems(5,7) unfolding rows(1) by (force simp: image_iff)
    have all: "map (\<lambda>x. if x \<in> set ps then recount q w x else x) (t_posts (db u)) =
        map (\<lambda>x. if x \<in> set (p # ps) then recount q w x else x) (t_posts (db v))"
      unfolding rows(1) using other Cons.prems(7) by auto
    have "wp (reconcile_loop cols (map (check_of q w) ps) acc') (\<lambda>r z. snd r = None \<and> fst (fst r) = fst acc' + int (length ps) \<and>
        db z = (db u)\<lparr>t_posts := map (\<lambda>x. if x \<in> set ps then recount q w x else x) (t_posts (db u))\<rparr> \<and> red z = red u \<and> both_up z) u"
      by (rule Cons.IH) (use Cons.prems rows(2,3) sub ids in simp_all)
    then have "wp (reconcile_loop cols (map (check_of q w) ps) acc') (\<lambda>r z. snd r = None \<and> fst (fst r) = fst acc + int (length (p # ps)) \<and>
        db z = (db v)\<lparr>t_posts := map (\<lambda>x. if x \<in> set (p # ps) then recount q w x else x) (t_posts (db v))\<rparr> \<and> red z = red v \<and> both_up z) u"
      unfolding all unfolding rows(4) by (rule wp_mono) (simp add: r(2) rows(2))
    then show ?case by (simp only: r(1) prod.case HOL.simp_thms if_False)
  qed
qed

lemma reconcile_exact:
  fixes rec w
  defines "w1 \<equiv> after_call PG w"
  defines "batch \<equiv> select_asc p_id (Some (rc_after rec)) (reconcile_batch rec) (t_posts (db w))"
  assumes "run_state (reconcile_run_once cols rec) w = (((tally, e), rec'), w')"
    and "both_up w" and "distinct (map p_id (t_posts (db w)))" and "set cols = set counter_columns" and "deltas_ok [] w"
  shows "e = None \<and> fst tally = int (length batch) \<and>
    db w' = (db w)\<lparr>t_posts := map (\<lambda>p. if p \<in> set batch then recount (reconcile_quiet rec) w1 p else p) (t_posts (db w))\<rparr> \<and>
    rc_after rec' = (if int (length batch) < reconcile_batch rec then [] else p_id (last batch)) \<and> red w' = red w \<and> both_up w'"
proof -
  have n: "next_out PG w = Done" using assms(4) by (simp add: reliable_next)
  have sub: "set batch \<subseteq> set (t_posts (db w1))"
    unfolding batch_def select_asc_def w1_def by (auto dest: in_set_takeD)
  have dist: "distinct batch"
    unfolding batch_def select_asc_def using assms(5) by (simp add: distinct_map)
  have pos: "0 < reconcile_batch rec" by (simp add: reconcile_batch_def)
  have last: "k_id (last (map (check_of q v) batch)) = p_id (last batch)" if "batch \<noteq> []" for q v
    using that by (simp add: last_map check_of_def)
  have loop: "wp (reconcile_loop cols (map (check_of (reconcile_quiet rec) w1) batch) (0, 0, 0)) (\<lambda>r u. snd r = None \<and>
      fst (fst r) = int (length batch) \<and>
      db u = (db w)\<lparr>t_posts := map (\<lambda>p. if p \<in> set batch then recount (reconcile_quiet rec) w1 p else p) (t_posts (db w))\<rparr> \<and> red u = red w \<and> both_up u) w1"
    using wp_reconcile_loop [OF assms(6), of w1 w1 batch "reconcile_quiet rec" "(0, 0, 0)"] assms(4,5,7) sub dist
    by (simp add: w1_def)
  have b1: "select_asc p_id (Some (rc_after rec)) (reconcile_batch rec) (t_posts (db w1)) = batch"
    by (simp add: batch_def w1_def)
  let ?Q = "\<lambda>((tally, e), rec') u. e = None \<and> fst tally = int (length batch) \<and>
      db u = (db w)\<lparr>t_posts := map (\<lambda>p. if p \<in> set batch then recount (reconcile_quiet rec) w1 p else p) (t_posts (db w))\<rparr> \<and>
      rc_after rec' = (if int (length batch) < reconcile_batch rec then [] else p_id (last batch)) \<and> red u = red w \<and> both_up u"
  have "wp (Monad_Syntax.bind (reconcile_loop cols (map (check_of (reconcile_quiet rec) w1) batch) (0, 0, 0))
      (\<lambda>res. State_Monad.return (res, rec\<lparr>rc_after := (if int (length (map (check_of (reconcile_quiet rec) w1) batch)) < reconcile_batch rec then []
        else k_id (last (map (check_of (reconcile_quiet rec) w1) batch)))\<rparr>))) ?Q w1"
    by (rule wp_bindI [OF loop]) (use last pos in \<open>cases "batch = []"; auto simp: wp_ret\<close>)
  then have "wp (reconcile_run_once cols rec) ?Q w"
    unfolding reconcile_run_once_def load_checks_def pg_query_def wp_bind wp_ext_call n outcome.case fst_conv snd_conv sum.case
      w1_def [symmetric] b1 Let_def .
  from wp_run [OF this assms(3)] show ?thesis by simp
qed

text \<open>C37. A pass of the reconciler repairs exactly its batch: with database and Redis up and nobody else writing
  meanwhile, every post of the next \<open>Batch\<close> ids gets the number of its like and share rows, except a post
  that was liked or shared within \<open>Quiet\<close> or has a like or share delta that is not flushed yet, which keeps
  its counts; no other post and no other table changes, and the next pass goes on behind the last id (from
  the start when the end was reached).  Whatever order the map of counter columns is walked in, every column
  is looked at.\<close>

theorem reconcile_repairs_batch:
  fixes rec w
  defines "w1 \<equiv> after_call PG w"
  defines "batch \<equiv> select_asc p_id (Some (rc_after rec)) (reconcile_batch rec) (t_posts (db w))"
  assumes "run_state (reconcile_run_once cols rec) w = (((tally, e), rec'), w')"
    and "both_up w" and "distinct (map p_id (t_posts (db w)))" and "set cols = set counter_columns" and "deltas_ok [] w"
  shows "e = None \<and> fst tally = int (length batch) \<and>
    db w' = (db w)\<lparr>t_posts := map (\<lambda>p. if p \<in> set batch then recount (reconcile_quiet rec) w1 p else p) (t_posts (db w))\<rparr> \<and>
    rc_after rec' = (if int (length batch) < reconcile_batch rec then [] else p_id (last batch))"
  using reconcile_exact [OF assms(3-7)] unfolding w1_def batch_def by blast

section \<open>A small instance\<close>

text \<open>One post with two likes, long ago.\<close>

definition demo_likes :: world where
  "demo_likes = quiet_world\<lparr>clock := 1000000000000,
     db := empty_db\<lparr>t_posts := [(new_row demo_post)\<lparr>p_likes := 2\<rparr>],
       t_likes := [\<lparr>l_post = ''p1'', l_user = ''ann'', l_at = 0\<rparr>, \<lparr>l_post = ''p1'', l_user = ''bob'', l_at = 0\<rparr>]\<rparr>\<rparr>"

definition demo_reconciler :: reconciler where
  "demo_reconciler = \<lparr>rc_batch = 0, rc_quiet = 0, rc_after = []\<rparr>"

lemma demo_likes_simps:
  "outs demo_likes = (\<lambda>_. sconst (Done, 0))" "clock demo_likes = 1000000000000" "red demo_likes = empty_redis"
  "t_posts (db demo_likes) = [(new_row demo_post)\<lparr>p_likes := 2\<rparr>]"
  "t_likes (db demo_likes) = [\<lparr>l_post = ''p1'', l_user = ''ann'', l_at = 0\<rparr>, \<lparr>l_post = ''p1'', l_user = ''bob'', l_at = 0\<rparr>]"
  "t_shares (db demo_likes) = []"
  by (simp_all add: demo_likes_def quiet_world_def empty_db_def)

lemma demo_batch: "select_asc p_id (Some (rc_after demo_reconciler)) (reconcile_batch demo_reconciler) (t_posts (db demo_likes)) =
    t_posts (db demo_likes)"
  by (simp add: demo_likes_simps select_asc_def after_cursor_def demo_reconciler_def reconcile_batch_def new_row_def demo_post_def
      blank_post_def)

lemma demo_up: "both_up (upd_likes f demo_likes)" "deltas_ok [] (upd_likes f demo_likes)"
  by (simp_all add: upd_likes_def outcomes_def demo_likes_simps deltas_ok_def empty_redis_def)

lemma demo_settled: "settled (after_call y (upd_likes f demo_likes)) i"
  by (simp add: upd_likes_def demo_likes_simps settled_def unflushed_def delta_text_def live_str_def empty_redis_def)

theorem reconcile_repairs_batch_witness:
  "t_posts (db (snd (run_state (reconcile_run_once counter_columns demo_reconciler) (upd_likes (\<lambda>_. []) demo_likes)))) = [new_row demo_post]"
proof -
  let ?w = "upd_likes (\<lambda>_. []) demo_likes"
  let ?r = "run_state (reconcile_run_once counter_columns demo_reconciler) ?w"
  have r: "?r = (((fst (fst (fst ?r)), snd (fst (fst ?r))), snd (fst ?r)), snd ?r)" by simp
  have rows: "t_posts (db ?w) = t_posts (db demo_likes)" by (simp add: upd_likes_def)
  have none: "recount q (after_call PG ?w) p = p\<lparr>p_likes := 0, p_shares := 0\<rparr>" for q p
    using demo_settled [of PG "\<lambda>_. []"] by (simp add: recount_def is_busy_def like_rows_def share_rows_def count_where_def upd_likes_def demo_likes_simps)
  have "distinct (map p_id (t_posts (db ?w)))" by (simp add: rows demo_likes_simps)
  from reconcile_repairs_batch [OF r demo_up(1) this refl demo_up(2)]
  have "t_posts (db (snd ?r)) = map (\<lambda>p. p\<lparr>p_likes := 0, p_shares := 0\<rparr>) (t_posts (db demo_likes))"
    unfolding rows demo_batch by (simp add: none demo_likes_simps rows)
  then show ?thesis by (simp add: demo_likes_simps new_row_def)
qed

text \<open>C38. The reconciler can make a correct count wrong: a post is busy only through rows that are there, so an unlike
  that has deleted its row and not yet scheduled its delta is invisible; the recount already counts the
  unlike, and the delta counts it again.  The post below keeps one like and ends with a count
  (stored plus on its way) of zero.\<close>

theorem unlike_is_counted_twice:
  defines "w1 \<equiv> snd (run_state (delete_like ''p1'' ''bob'') demo_likes)"
  defines "w2 \<equiv> snd (run_state (reconcile_run_once counter_columns demo_reconciler) w1)"
  defines "w3 \<equiv> snd (run_state (bump_counter ''p1'' ''like_count'' (- 1)) w2)"
  shows "total_count demo_likes ''p1'' ''like_count'' = like_rows ''p1'' demo_likes \<and> like_rows ''p1'' w3 = 1 \<and>
    total_count w3 ''p1'' ''like_count'' = 0"
proof -
  let ?one = "[\<lparr>l_post = ''p1'', l_user = ''ann'', l_at = 0\<rparr>]"
  have w1: "w1 = upd_likes (\<lambda>_. ?one) demo_likes"
  proof -
    have "w1 = upd_likes (filter (\<lambda>l. \<not> is_like ''p1'' ''bob'' l)) demo_likes"
      by (simp add: w1_def delete_like_def instant_calls(3) demo_likes_simps(1))
    moreover have "filter (\<lambda>l. \<not> is_like ''p1'' ''bob'' l) (t_likes (db demo_likes)) = ?one"
      by (simp add: demo_likes_simps(5) is_like_def)
    ultimately show ?thesis by (simp only: upd_likes_def upd_db_def)
  qed
  let ?r = "run_state (reconcile_run_once counter_columns demo_reconciler) w1"
  have r: "?r = (((fst (fst (fst ?r)), snd (fst (fst ?r))), snd (fst ?r)), w2)" by (simp add: w2_def)
  have rows: "t_posts (db w1) = t_posts (db demo_likes)" by (simp add: w1 upd_likes_def)
  have p1: "p_id (new_row demo_post) = ''p1''" by (simp add: new_row_def demo_post_def blank_post_def)
  have quiet: "recount (reconcile_quiet demo_reconciler) (after_call PG w1) p = p\<lparr>p_likes := 1, p_shares := 0\<rparr>" if "p_id p = ''p1''" for p
    using that instant_calls(2) [of w1 PG] demo_settled [of PG "\<lambda>_. ?one" "''p1''"]
    by (simp add: recount_def is_busy_def like_rows_def share_rows_def count_where_def w1 upd_likes_def demo_likes_simps
        demo_reconciler_def reconcile_quiet_def)
  have "distinct (map p_id (t_posts (db w1)))" by (simp add: rows demo_likes_simps)
  from reconcile_exact [OF r _ this refl] demo_up [of "\<lambda>_. ?one", folded w1]
  have E: "db w2 = (db w1)\<lparr>t_posts := map (\<lambda>p. if p \<in> set (t_posts (db demo_likes)) then
        recount (reconcile_quiet demo_reconciler) (after_call PG w1) p else p) (t_posts (db demo_likes))\<rparr>"
    "red w2 = red w1" "both_up w2"
    unfolding rows demo_batch by (simp_all only:)
  have w2: "db w2 = (db w1)\<lparr>t_posts := [(new_row demo_post)\<lparr>p_likes := 1, p_shares := 0\<rparr>]\<rparr>" "red w2 = empty_redis" "both_up w2"
    using E(2,3) unfolding E(1) by (simp_all add: demo_likes_simps(4) quiet p1) (simp add: w1 upd_likes_def demo_likes_simps)
  have n: "next_out Redis w2 = Done" "next_out Redis (after_call Redis w2) = Done" using w2(3) by (simp_all add: reliable_next)
  have ok: "fst (run_state (bump_counter ''p1'' ''like_count'' (- 1)) w2) = Inr ()"
    by (simp add: bump_counter_def incr_def redis_incr_by_def redis_sadd_def run_simps ext_call_def n incr_str_def live_str_def w2(2)
        empty_redis_def int64_ok_def)
  have w3: "run_state (bump_counter ''p1'' ''like_count'' (- 1)) w2 = (Inr (), w3)" using ok by (simp add: w3_def prod_eq_iff)
  have find: "find_post ''p1'' w2 = Some ((new_row demo_post)\<lparr>p_likes := 1, p_shares := 0\<rparr>)" by (simp add: find_post_def w2(1) p1)
  have c: "counted w2 ''p1'' ''like_count''" by (simp add: counted_def w2(1) counter_columns_def p1)
  have "deltas_ok [] w2" by (simp add: deltas_ok_def w2(2) empty_redis_def)
  from wp_run [OF bump_counter_wp [OF this _ _ c] w3] w2(3) c
  have "total_count w3 ''p1'' ''like_count'' = total_count w2 ''p1'' ''like_count'' - 1" by force
  moreover have "total_count w2 ''p1'' ''like_count'' = 1"
    by (simp add: total_count_def stored_count_def find column_def unflushed_def live_str_def w2(2) empty_redis_def delta_text_def)
  moreover have "t_likes (db w3) = ?one"
    using wp_run [OF quiet_bump w3] by (simp add: quiet_step_def facts_def w2(1) w1 upd_likes_def)
  moreover have "total_count demo_likes ''p1'' ''like_count'' = 2"
    by (simp add: total_count_def stored_count_def find_post_def demo_likes_simps p1 column_def unflushed_def live_str_def
        empty_redis_def delta_text_def)
  ultimately show ?thesis by (simp add: like_rows_def count_where_def demo_likes_simps(5))
qed

end
