(* ===== verification/ApiHandlers.thy ===== *)
theory ApiHandlers
  imports Http Auth
begin

text \<open>
  The handlers of the auth, social and message services (\<open>services/*/handler\<close>).  Decoders of the bodies, the JSON
  encoder, bcrypt, the signing of tokens and the text of a time are the functions of \<open>api_libs\<close>.
\<close>

section \<open>Handlers\<close>

record api_libs =
  y_enc :: "json \<Rightarrow> string"
  y_time :: "int \<Rightarrow> string"
  y_cur :: "cursor \<Rightarrow> string"
  y_cur_of :: "string \<Rightarrow> cursor option"
  y_gen :: "string \<Rightarrow> string option"
  y_cmp :: "string \<Rightarrow> string \<Rightarrow> bool"
  y_sign :: "string \<Rightarrow> string \<Rightarrow> int \<Rightarrow> string option"
  y_user :: "string \<Rightarrow> user option"
  y_followee :: "string \<Rightarrow> string option"
  y_send :: "string \<Rightarrow> (string \<times> string) option"
  y_mark :: "string \<Rightarrow> (string \<times> int) option"

text \<open>The expression \<open>^[a-z0-9_]+$\<close>.\<close>

definition id_char :: "char \<Rightarrow> bool" where
  "id_char c \<longleftrightarrow> (CHR ''a'' \<le> c \<and> c \<le> CHR ''z'') \<or> (CHR ''0'' \<le> c \<and> c \<le> CHR ''9'') \<or> c = CHR ''_''"

definition valid_user_id :: "string \<Rightarrow> bool" where
  "valid_user_id s \<longleftrightarrow> s \<noteq> [] \<and> list_all id_char s"

definition signup_handler :: "api_libs \<Rightarrow> request \<Rightarrow> (world, http) state" where
  "signup_handler y r =
     (case y_user y (rq_body r) of
        None \<Rightarrow> answer (write_error 400 ''invalid request body'')
      | Some u \<Rightarrow>
          if user_id u = [] \<or> user_password u = [] \<or> \<not> valid_user_id (user_id u)
          then answer (write_error 400 ''user_id must be non-empty lowercase alphanumeric/underscore, password required'')
          else Monad_Syntax.bind (add_user (y_gen y) u) (\<lambda>res.
            answer (case res of
              Inl e \<Rightarrow> if e = ErrUserAlreadyExisted then write_error 409 ''user already exists'' else write_error 500 ''internal server error''
            | Inr u' \<Rightarrow> write_json 201 (y_enc y (JObj [(''user_id'', JStr (user_id u'))])))))"

definition signin_handler :: "api_libs \<Rightarrow> string \<Rightarrow> request \<Rightarrow> (world, http) state" where
  "signin_handler y secret r =
     (if secret = [] then answer (write_error 500 ''server misconfiguration'')
      else case y_user y (rq_body r) of
        None \<Rightarrow> answer (write_error 400 ''invalid request body'')
      | Some u \<Rightarrow>
          Monad_Syntax.bind (check_user (y_cmp y) (user_id u) (user_password u)) (\<lambda>res. case res of
              Inl e \<Rightarrow> answer (if e = ErrInvalidCredentials then write_error 401 ''invalid credentials'' else write_error 500 ''internal server error'')
            | Inr _ \<Rightarrow> Monad_Syntax.bind now (\<lambda>t. answer (case y_sign y secret (user_id u) (unix (t + 86400000000)) of
                  None \<Rightarrow> write_error 500 ''failed to generate token''
                | Some tok \<Rightarrow> write_json 200 (y_enc y (JObj [(''token'', JStr tok)]))))))"

definition add_follow_handler :: "api_libs \<Rightarrow> request \<Rightarrow> (world, http) state" where
  "add_follow_handler y r =
     (case get_user_id_from_jwt_token (rq_token r) of
        None \<Rightarrow> answer (write_error 401 ''unauthorized'')
      | Some me \<Rightarrow>
          (case y_followee y (rq_body r) of
             None \<Rightarrow> answer (write_error 400 ''followee_id is required'')
           | Some other \<Rightarrow>
               if other = [] then answer (write_error 400 ''followee_id is required'')
               else Monad_Syntax.bind (add_follow me other) (\<lambda>res.
                 answer (case res of
                   Inl e \<Rightarrow>
                     if e = ErrCannotFollowSelf then write_error 400 ''cannot follow yourself''
                     else if e = ErrUserNotFound then write_error 404 ''user not found''
                     else if e = ErrAlreadyFollowing then write_error 409 ''already following''
                     else write_error 500 ''failed to follow user''
                 | Inr i \<Rightarrow> write_json 201 (y_enc y (JObj [(''follow_id'', JStr i)]))))))"

definition remove_follow_handler :: "api_libs \<Rightarrow> request \<Rightarrow> (world, http) state" where
  "remove_follow_handler y r =
     (case get_user_id_from_jwt_token (rq_token r) of
        None \<Rightarrow> answer (write_error 401 ''unauthorized'')
      | Some me \<Rightarrow>
          (case y_followee y (rq_body r) of
             None \<Rightarrow> answer (write_error 400 ''followee_id is required'')
           | Some other \<Rightarrow>
               if other = [] then answer (write_error 400 ''followee_id is required'')
               else Monad_Syntax.bind (remove_follow me other) (\<lambda>res.
                 answer (case res of
                   Inl e \<Rightarrow> if e = ErrNotFollowing then write_error 404 ''not following this user'' else write_error 500 ''failed to unfollow user''
                 | Inr _ \<Rightarrow> write_json 200 (y_enc y (JObj [(''message'', JStr ''unfollowed successfully'')]))))))"

text \<open>A map is encoded in the order of its keys.\<close>

definition list_handler :: "api_libs \<Rightarrow> string \<Rightarrow> (string \<Rightarrow> int \<Rightarrow> string \<Rightarrow> (string list \<times> string) io) \<Rightarrow> request \<Rightarrow> (world, http) state" where
  "list_handler y key fetch r =
     (case get_user_id_from_jwt_token (rq_token r) of
        None \<Rightarrow> answer (write_error 401 ''unauthorized'')
      | Some me \<Rightarrow>
          (let user = (if rq_query r ''user_id'' = [] then me else rq_query r ''user_id'')
           in Monad_Syntax.bind (fetch user (atoi (rq_query r ''limit'')) (rq_query r ''cursor'')) (\<lambda>res.
             answer (case res of
               Inl e \<Rightarrow> if e = ErrBadCursor then write_error 400 ''invalid cursor'' else write_error 500 (''failed to get '' @ key)
             | Inr (ids, nx) \<Rightarrow> write_json 200 (y_enc y (json_page key (map JStr ids) nx))))))"

definition json_of_message :: "(int \<Rightarrow> string) \<Rightarrow> message \<Rightarrow> json" where
  "json_of_message time_text m = JObj
     [(''message_id'', JStr (m_id m)), (''conversation_id'', JStr (m_conv m)), (''seq'', JInt (m_seq m)),
      (''sender_id'', JStr (m_sender m)), (''receiver_id'', JStr (m_receiver m)), (''content'', JStr (m_content m)),
      (''created_at'', JStr (time_text (m_at m)))]"

definition send_message_handler :: "api_libs \<Rightarrow> request \<Rightarrow> (world, http) state" where
  "send_message_handler y r =
     (case get_user_id_from_jwt_token (rq_token r) of
        None \<Rightarrow> answer (write_error 401 ''unauthorized'')
      | Some me \<Rightarrow>
          (case y_send y (rq_body r) of
             None \<Rightarrow> answer (write_error 400 ''invalid request body'')
           | Some (receiver, content) \<Rightarrow>
               if receiver = [] then answer (write_error 400 ''receiver_id and content are required'')
               else if length (rq_header r ''Idempotency-Key'') > 128 then answer (write_error 400 ''Idempotency-Key too long'')
               else Monad_Syntax.bind (send_message me receiver content (rq_header r ''Idempotency-Key'')) (\<lambda>res.
                 answer (case res of
                   Inl e \<Rightarrow>
                     if e = ErrCannotMessageSelf then write_error 400 ''cannot send message to yourself''
                     else if e = ErrInvalidContent then write_error 400 ''content must be 1-4000 characters''
                     else if e = ErrUserNotFound then write_error 404 ''user not found''
                     else if e = ErrKeyReused then write_error 422 ''Idempotency-Key was used for a different message''
                     else write_error 500 ''failed to send message''
                 | Inr (m, replayed) \<Rightarrow>
                     (if replayed then (write_json 200 (y_enc y (json_of_message (y_time y) m)))\<lparr>h_replayed := True\<rparr>
                      else write_json 201 (y_enc y (json_of_message (y_time y) m)))))))"

definition opt_int :: "string \<Rightarrow> int option" where
  "opt_int s = (if s = [] then Some 0 else case parse_int s of None \<Rightarrow> None | Some n \<Rightarrow> if n < 0 then None else Some n)"

text \<open>Zero numbers and \<open>false\<close> are left out (\<open>omitempty\<close>).\<close>

definition json_of_message_page :: "(int \<Rightarrow> string) \<Rightarrow> message_page \<Rightarrow> json" where
  "json_of_message_page time_text p = JObj
     ([(''conversation_id'', JStr (pg_conv p)), (''messages'', JArr (map (json_of_message time_text) (pg_messages p)))] @
      (if pg_next_before p = 0 then [] else [(''next_before_seq'', JInt (pg_next_before p))]) @
      (if pg_has_more p then [(''has_more'', JBool True)] else []) @
      [(''other_last_read_seq'', JInt (pg_last_read p))])"

definition get_message_handler :: "api_libs \<Rightarrow> request \<Rightarrow> (world, http) state" where
  "get_message_handler y r =
     (case get_user_id_from_jwt_token (rq_token r) of
        None \<Rightarrow> answer (write_error 401 ''unauthorized'')
      | Some me \<Rightarrow>
          if rq_query r ''with_user_id'' = [] then answer (write_error 400 ''with_user_id query param is required'')
          else (let bad = answer (write_error 400 ''before_seq, after_seq and limit must be positive integers (not both cursors)'')
            in case (opt_int (rq_query r ''before_seq''), opt_int (rq_query r ''after_seq''), opt_int (rq_query r ''limit'')) of
              (Some before, Some after, Some limit) \<Rightarrow>
                if before > 0 \<and> after > 0 then bad
                else Monad_Syntax.bind (get_messages me (rq_query r ''with_user_id'') before after limit) (\<lambda>res.
                  answer (case res of
                    Inl _ \<Rightarrow> write_error 500 ''failed to get messages''
                  | Inr p \<Rightarrow> write_json 200 (y_enc y (json_of_message_page (y_time y) p))))
            | _ \<Rightarrow> bad))"

definition json_of_conversation :: "(int \<Rightarrow> string) \<Rightarrow> inbox_row \<Rightarrow> json" where
  "json_of_conversation time_text i = JObj
     [(''conversation_id'', JStr (i_conv i)), (''with_user_id'', JStr (i_with i)), (''last_seq'', JInt (i_last_seq i)),
      (''last_message'', JStr (i_message i)), (''last_sender_id'', JStr (i_sender i)), (''last_message_at'', JStr (time_text (i_at i))),
      (''unread'', JInt (i_unread i))]"

definition list_conversations_handler :: "api_libs \<Rightarrow> request \<Rightarrow> (world, http) state" where
  "list_conversations_handler y r =
     (case get_user_id_from_jwt_token (rq_token r) of
        None \<Rightarrow> answer (write_error 401 ''unauthorized'')
      | Some me \<Rightarrow>
          Monad_Syntax.bind (list_conversations (y_cur y) (y_cur_of y) me (atoi (rq_query r ''limit'')) (rq_query r ''cursor'')) (\<lambda>res.
            answer (case res of
              Inl e \<Rightarrow> if e = ErrBadCursor then write_error 400 ''invalid cursor'' else write_error 500 ''failed to list conversations''
            | Inr (convs, nx) \<Rightarrow> write_json 200 (y_enc y (json_page ''conversations'' (map (json_of_conversation (y_time y)) convs) nx)))))"

definition mark_read_handler :: "api_libs \<Rightarrow> request \<Rightarrow> (world, http) state" where
  "mark_read_handler y r =
     (case get_user_id_from_jwt_token (rq_token r) of
        None \<Rightarrow> answer (write_error 401 ''unauthorized'')
      | Some me \<Rightarrow>
          (let bad = answer (write_error 400 ''with_user_id and a positive seq are required'')
           in case y_mark y (rq_body r) of
             None \<Rightarrow> bad
           | Some (other, n) \<Rightarrow>
               if other = [] \<or> n \<le> 0 then bad
               else Monad_Syntax.bind (mark_read me other n) (\<lambda>res.
                 answer (case res of
                   Inl e \<Rightarrow> if e = ErrConversationNotFound then write_error 404 ''conversation not found'' else write_error 500 ''failed to mark read''
                 | Inr _ \<Rightarrow> write_json 200 (y_enc y (JObj [(''message'', JStr ''ok'')]))))))"

text \<open>The routes of the three routers.\<close>

datatype api_route = Signup | Signin | Add_Follow | Remove_Follow | Get_Followers | Get_Following |
  Send_Message | Get_Messages | List_Conversations | Mark_Read

fun serve_api :: "api_libs \<Rightarrow> string \<Rightarrow> api_route \<Rightarrow> request \<Rightarrow> (world, http) state" where
  "serve_api y secret Signup r = signup_handler y r"
| "serve_api y secret Signin r = signin_handler y secret r"
| "serve_api y secret Add_Follow r = add_follow_handler y r"
| "serve_api y secret Remove_Follow r = remove_follow_handler y r"
| "serve_api y secret Get_Followers r = list_handler y ''follower_ids'' (service_followers (y_cur y) (y_cur_of y)) r"
| "serve_api y secret Get_Following r = list_handler y ''following_ids'' (service_following (y_cur y) (y_cur_of y)) r"
| "serve_api y secret Send_Message r = send_message_handler y r"
| "serve_api y secret Get_Messages r = get_message_handler y r"
| "serve_api y secret List_Conversations r = list_conversations_handler y r"
| "serve_api y secret Mark_Read r = mark_read_handler y r"

section \<open>Every stored id is one\<close>

text \<open>The tables of the three services hold user ids only where the schema means one, and every conversation is between
  two of them.\<close>

definition ids_typed :: "database \<Rightarrow> bool" where
  "ids_typed d \<longleftrightarrow> (\<forall>r\<in>set (t_users d). valid_user_id (u_id r)) \<and>
     (\<forall>f\<in>set (t_follows d). valid_user_id (f_from f) \<and> valid_user_id (f_to f)) \<and>
     (\<forall>v\<in>set (t_convs d). \<exists>a b. valid_user_id a \<and> valid_user_id b \<and> a \<noteq> b \<and> v_id v = conversation_id a b) \<and>
     (\<forall>m\<in>set (t_members d). valid_user_id (b_user m)) \<and> (\<forall>g\<in>set (t_messages d). valid_user_id (g_sender g))"

lemma valid_no_colon: "valid_user_id s \<Longrightarrow> CHR '':'' \<notin> set s"
  by (auto simp: valid_user_id_def list_all_iff id_char_def)

lemma typed_add_user:
  assumes "ids_typed (db w)" "valid_user_id (user_id u)"
  shows "wp (add_user gen u) (\<lambda>_ v. ids_typed (db v)) w"
  using assms by (auto simp: add_user_def insert_user_def wp_simps upd_users_def ids_typed_def split: option.split outcome.split)

lemma typed_add_follow:
  assumes "ids_typed (db w)" "valid_user_id me"
  shows "wp (add_follow me other) (\<lambda>_ v. ids_typed (db v)) w"
proof -
  have ex: "wp (user_exists other) (\<lambda>r v. db v = db w \<and> (r = Inr True \<longrightarrow> valid_user_id other)) w"
    using assms(1) by (auto simp: user_exists_def wp_simps ids_typed_def list_ex_iff split: outcome.split)
  have ins: "wp (insert_follow me other) (\<lambda>_ z. ids_typed (db z)) v" if "db v = db w" "valid_user_id other" for v
    using that assms by (auto simp: insert_follow_def wp_ext_call upd_follows_def ids_typed_def split: outcome.split)
  show ?thesis
  proof (cases "me = other")
    case False
    then show ?thesis unfolding add_follow_def if_not_P [OF False]
    proof (intro wp_tryI [OF ex], goal_cases)
      case (1 x v)
      show ?case
      proof (cases x)
        case True
        then show ?thesis using 1 by (auto simp: wp_ret intro!: wp_tryI [OF ins])
      qed (use 1 assms in \<open>simp add: wp_ret\<close>)
    qed (use assms in simp)
  qed (simp add: add_follow_def wp_ret assms)
qed

lemma typed_remove_follow:
  assumes "ids_typed (db w)"
  shows "wp (remove_follow me other) (\<lambda>_ v. ids_typed (db v)) w"
  using assms by (auto simp: remove_follow_def wp_simps upd_follows_def ids_typed_def split: outcome.split)

lemma typed_mark_read:
  assumes "ids_typed (db w)"
  shows "wp (mark_read me other n) (\<lambda>_ v. ids_typed (db v)) w"
  using assms by (auto simp: mark_read_def Let_def wp_simps ids_typed_def set_update_where split: outcome.split)

lemma typed_sent:
  assumes "ids_typed d" "valid_user_id a" "valid_user_id b" "a \<noteq> b" "sent (conversation_id a b) a b content key d x d'"
  shows "ids_typed d'"
proof -
  have ens: "ids_typed (ensure_conv (conversation_id a b) a b d)"
    using assms(1-4) by (auto simp: ids_typed_def ensure_conv_def new_member_def min_def max_def)
  have "ids_typed (deliver g e)" if "ids_typed e" "valid_user_id (g_sender g)" for g e
    using that by (auto simp: ids_typed_def deliver_def set_update_where) metis
  with ens assms(2,5) show ?thesis
    by (auto simp: sent_def Let_def split: prod.splits option.splits)
qed

lemma typed_send:
  assumes "ids_typed (db w)" "valid_user_id a"
  shows "wp (send_message a b content client) (\<lambda>_ v. ids_typed (db v)) w"
proof (cases "list_ex (\<lambda>r. u_id r = b) (t_users (db w))")
  case True
  then have b: "valid_user_id b" using assms(1) by (auto simp: ids_typed_def list_ex_iff)
  show ?thesis
  proof (rule wp_state)
    fix r v assume "run_state (send_message a b content client) w = (r, v)"
    from send_message_db [OF this] show "ids_typed (db v)"
      using typed_sent [OF assms b] assms(1) by (auto split: sum.splits)
  qed
next
  case False
  then show ?thesis using assms(1)
    by (auto simp: send_message_def user_exists_def wp_simps split: outcome.split)
qed


lemma same_followers: "wp (service_followers marshal unmarshal u n c) (\<lambda>_ v. db v = db w) w"
  "wp (service_following marshal unmarshal u n c) (\<lambda>_ v. db v = db w) w"
  by (simp_all add: service_followers_def service_following_def follow_list_def followers_def following_def graph_page_def
      pg_query_def wp_simps split: sum.split outcome.split prod.split)

lemma same_messages: "wp (get_messages me other before after n) (\<lambda>_ v. db v = db w) w"
  by (simp add: get_messages_def select_last_read_def pg_query_def Let_def wp_simps split: outcome.split sum.split)

lemma same_conversations: "wp (list_conversations marshal unmarshal me n c) (\<lambda>_ v. db v = db w) w"
  by (simp add: list_conversations_def pg_query_def Let_def wp_simps split: sum.split outcome.split prod.split)

lemma check_registered:
  "wp (check_user cmp i password) (\<lambda>r v. db v = db w \<and> (r = Inr () \<longrightarrow> i \<in> u_id ` set (t_users (db w)))) w"
proof -
  have "wp (select_hash i) (\<lambda>r v. db v = db w \<and> (\<forall>h. r = Inr h \<longrightarrow> i \<in> u_id ` set (t_users (db w)))) w"
    by (auto simp: select_hash_def wp_ext_call dest!: find_in_set split: outcome.split option.split)
  then show ?thesis unfolding check_user_def by (rule wp_handleI) (auto simp: wp_ret)
qed


lemma typed_conversations:
  assumes "ids_typed d" "v \<in> set (t_convs d)"
  shows "\<exists>a b. valid_user_id a \<and> valid_user_id b \<and> a \<noteq> b \<and> v_id v = conversation_id a b \<and>
    other_participant (v_id v) a = b \<and> other_participant (v_id v) b = a"
  using assms conversation_id_names_pair valid_no_colon unfolding ids_typed_def by metis

text \<open>What a login answers with: a token for the id that was checked, valid for a day from now.\<close>

definition token_answer :: "api_libs \<Rightarrow> string \<Rightarrow> request \<Rightarrow> world \<Rightarrow> string \<Rightarrow> bool" where
  "token_answer y secret r w body \<longleftrightarrow> (\<exists>u tok. y_user y (rq_body r) = Some u \<and> valid_user_id (user_id u) \<and>
     user_id u \<in> u_id ` set (t_users (db w)) \<and> y_sign y secret (user_id u) (unix (clock w + 86400000000)) = Some tok \<and>
     body = y_enc y (JObj [(''token'', JStr tok)]) @ [CHR 0x0A])"

text \<open>C39. The ids in the tables of the auth, social and message services stay well typed under every failure and
  every request that carries no token or one for a well-formed id: accounts, follows, members and senders carry
  ids of the form the sign-up accepts (so without the colon that separates the parts of a key), every
  conversation is between two such ids and gives each of them the other one.  And the condition on tokens is kept
  up: a login answered with 200 returns the token signed for the checked id, which is the well-formed id of an
  account, for 24 hours.\<close>

theorem tables_stay_typed:
  assumes "run_state (serve_api y secret q r) w = (a, w')" and "ids_typed (db w)"
    and "\<And>me. get_user_id_from_jwt_token (rq_token r) = Some me \<Longrightarrow> valid_user_id me"
  shows "ids_typed (db w') \<and>
    (\<forall>v\<in>set (t_convs (db w')). \<exists>me you. valid_user_id me \<and> valid_user_id you \<and> v_id v = conversation_id me you \<and>
       other_participant (v_id v) me = you \<and> other_participant (v_id v) you = me) \<and>
    (q = Signin \<and> h_status a = 200 \<longrightarrow> token_answer y secret r w' (h_body a))"
proof -
  let ?Q = "\<lambda>a v. ids_typed (db v) \<and>
    (q = Signin \<and> h_status a = 200 \<longrightarrow> token_answer y secret r v (h_body a))"
  note typed = assms(2)
  have status: "h_status (write_error st msg) = st" "h_status (write_json st body) = st"
    "h_body (write_json st body) = body @ [CHR 0x0A]" for st msg body
    by (simp_all add: write_error_def write_json_def)
  have "wp (serve_api y secret q r) ?Q w"
  proof (cases q)
    case Signup
    then show ?thesis
      by (auto simp: signup_handler_def wp_ret typed split: option.split intro!: wp_bindI [OF typed_add_user [OF typed]])
  next
    case Signin
    have "wp (case res of Inl e \<Rightarrow> answer (if e = ErrInvalidCredentials then write_error 401 ''invalid credentials'' else write_error 500 ''internal server error'')
        | Inr _ \<Rightarrow> Monad_Syntax.bind now (\<lambda>t. answer (case y_sign y secret (user_id u) (unix (t + 86400000000)) of
            None \<Rightarrow> write_error 500 ''failed to generate token''
          | Some tok \<Rightarrow> write_json 200 (y_enc y (JObj [(''token'', JStr tok)]))))) ?Q v"
      if "db v = db w \<and> (res = Inr () \<longrightarrow> user_id u \<in> u_id ` set (t_users (db w)))" "y_user y (rq_body r) = Some u" for res u v
      using that typed by (cases res) (auto simp: wp_ret wp_bind wp_now status token_answer_def ids_typed_def split: option.splits)
    then show ?thesis
      using Signin by (auto simp: signin_handler_def wp_ret typed status split: option.split intro!: wp_bindI [OF check_registered])
  next
    case Add_Follow
    then show ?thesis using assms(3)
      by (auto simp: add_follow_handler_def wp_ret typed split: option.split intro!: wp_bindI [OF typed_add_follow [OF typed]])
  next
    case Remove_Follow
    then show ?thesis
      by (auto simp: remove_follow_handler_def wp_ret typed split: option.split intro!: wp_bindI [OF typed_remove_follow [OF typed]])
  next
    case Get_Followers
    then show ?thesis
      by (auto simp: list_handler_def Let_def wp_ret typed split: option.split intro!: wp_bindI [OF same_followers(1)])
  next
    case Get_Following
    then show ?thesis
      by (auto simp: list_handler_def Let_def wp_ret typed split: option.split intro!: wp_bindI [OF same_followers(2)])
  next
    case Send_Message
    then show ?thesis using assms(3)
      by (auto simp: send_message_handler_def wp_ret typed split: option.split intro!: wp_bindI [OF typed_send [OF typed]])
  next
    case Get_Messages
    then show ?thesis
      by (auto simp: get_message_handler_def Let_def wp_ret typed split: option.split intro!: wp_bindI [OF same_messages])
  next
    case List_Conversations
    then show ?thesis
      by (auto simp: list_conversations_handler_def wp_ret typed split: option.split intro!: wp_bindI [OF same_conversations])
  next
    case Mark_Read
    then show ?thesis
      by (auto simp: mark_read_handler_def Let_def wp_ret typed split: option.split intro!: wp_bindI [OF typed_mark_read [OF typed]])
  qed
  from wp_run [OF this assms(1)] have Q: "?Q a w'" .
  then show ?thesis using typed_conversations [of "db w'"] by blast
qed

section \<open>A small instance\<close>

definition demo_api :: api_libs where
  "demo_api = \<lparr>y_enc = (\<lambda>_. ''{}''), y_time = format_int, y_cur = (\<lambda>_. ''c''), y_cur_of = (\<lambda>_. None), y_gen = demo_gen, y_cmp = demo_cmp,
     y_sign = (\<lambda>_ u _. Some u), y_user = (\<lambda>_. Some demo_account), y_followee = Some, y_send = (\<lambda>s. Some (s, ''hi'')),
     y_mark = (\<lambda>_. None)\<rparr>"

definition api_request :: request where
  "api_request = \<lparr>rq_token = Claims (Some [''user_id'' \<mapsto> CStr ''eve'']), rq_ctx = None, rq_header = (\<lambda>_. []),
     rq_query = (\<lambda>_. []), rq_form = (\<lambda>_. []), rq_vars = (\<lambda>_. []), rq_file = None, rq_body = ''bob''\<rparr>"

text \<open>A message to bob, and the login of eve.\<close>

definition login_world :: world where
  "login_world = upd_users (\<lambda>rows. rows @ [user_row_of demo_account ''$secret'']) demo_social"

theorem tables_stay_typed_witness:
  "ids_typed (db (snd (run_state (serve_api demo_api ''s'' Send_Message api_request) demo_social))) \<and>
   token_answer demo_api ''s'' api_request (snd (run_state (serve_api demo_api ''s'' Signin api_request) login_world))
     (h_body (fst (run_state (serve_api demo_api ''s'' Signin api_request) login_world)))"
proof -
  let ?r = "run_state (serve_api demo_api ''s'' Send_Message api_request) demo_social"
  let ?l = "run_state (serve_api demo_api ''s'' Signin api_request) login_world"
  have r: "?r = (fst ?r, snd ?r)" "?l = (fst ?l, snd ?l)" by simp_all
  have eve: "valid_user_id me" if "get_user_id_from_jwt_token (rq_token api_request) = Some me" for me
    using that by (auto simp: api_request_def get_user_id_from_jwt_token_def valid_user_id_def id_char_def)
  have typed: "ids_typed (db demo_social)" "ids_typed (db login_world)"
    by (simp_all add: login_world_def upd_users_def user_row_of_def demo_account_def ids_typed_def demo_social_def empty_db_def
        demo_user_def demo_follow_def valid_user_id_def id_char_def)
  have "\<not> list_ex (\<lambda>q. u_id q = ''eve'') (t_users (db demo_social))" by (simp add: demo_social_def demo_user_def)
  then have "find (\<lambda>q. u_id q = ''eve'') (t_users (db login_world)) = Some (user_row_of demo_account ''$secret'')"
    by (simp add: login_world_def upd_users_def demo_social_def demo_user_def user_row_of_def demo_account_def)
  moreover have "next_out PG login_world = Done" by (simp add: login_world_def upd_users_def demo_social_next)
  ultimately have "fst (run_state (check_user demo_cmp ''eve'' ''secret'') login_world) = Inr ()"
    by (simp add: check_user_def select_hash_def run_simps ext_call_def demo_cmp_def user_row_of_def)
  then obtain v where "run_state (check_user demo_cmp ''eve'' ''secret'') login_world = (Inr (), v)" by (metis prod.collapse)
  then have "h_status (fst ?l) = 200"
    by (simp add: signin_handler_def demo_api_def demo_account_def run_simps now_def write_json_def)
  with tables_stay_typed [OF r(1) typed(1) eve] tables_stay_typed [OF r(2) typed(2) eve] show ?thesis by blast
qed

end
