(* ===== verification/Backfill.thy ===== *)
theory Backfill
  imports Reconcile Comments Notify Auth
begin

text \<open>
  \<open>cmd/backfill/backfill.go\<close>: the legacy Elasticsearch indices copied into the tables.  An index is its pages as the
  scroll returns them (\<open>shared/backend/elasticsearch.go\<close>, \<open>Scan\<close>), a document its id and source; the decoders of the
  sources are arguments.  A step returns its statistics when it succeeds; those of a step that fails are
  left out, as are the log lines.
\<close>

section \<open>Scanning\<close>

type_synonym doc = "string \<times> string"

fun each_doc :: "('d \<Rightarrow> 's \<Rightarrow> 's io) \<Rightarrow> 'd list \<Rightarrow> 's \<Rightarrow> 's io" where
  "each_doc f [] s = ret s"
| "each_doc f (d # ds) s = tryE (f d s) (each_doc f ds)"

fun scan_index :: "('d \<Rightarrow> 's \<Rightarrow> 's io) \<Rightarrow> 'd list list \<Rightarrow> 's \<Rightarrow> 's io" where
  "scan_index f [] s = tryE (ext_call Search (\<lambda>w. (Inr (), w))) (\<lambda>_. ret s)"
| "scan_index f (page # pages) s = tryE (ext_call Search (\<lambda>w. (Inr (), w))) (\<lambda>_. tryE (each_doc f page s) (scan_index f pages))"

record stats =
  st_read :: int
  st_inserted :: int
  st_existing :: int
  st_rejected :: int
  st_reasons :: "string \<Rightarrow> int"

definition no_stats :: stats where
  "no_stats = \<lparr>st_read = 0, st_inserted = 0, st_existing = 0, st_rejected = 0, st_reasons = (\<lambda>_. 0)\<rparr>"

definition reject :: "string \<Rightarrow> stats \<Rightarrow> stats" where
  "reject reason s = s\<lparr>st_rejected := st_rejected s + 1, st_reasons := (st_reasons s)(reason := st_reasons s reason + 1)\<rparr>"

definition record_result :: "int \<Rightarrow> stats \<Rightarrow> stats" where
  "record_result tag s = (if tag = 1 then s\<lparr>st_inserted := st_inserted s + 1\<rparr> else s\<lparr>st_existing := st_existing s + 1\<rparr>)"

definition read_one :: "stats \<Rightarrow> stats" where
  "read_one s = s\<lparr>st_read := st_read s + 1\<rparr>"

abbreviation unreadable :: "stats \<Rightarrow> stats" where
  "unreadable s \<equiv> reject ''unreadable document'' s"

definition bf_insert :: "int io \<Rightarrow> stats \<Rightarrow> stats io" where
  "bf_insert stmt s = handleE stmt
     (\<lambda>e. if e = ForeignKeyViolation then ret (reject ''references a missing row'' s)
          else if e = CheckViolation then ret (reject ''violates a check constraint'' s)
          else fail e)
     (\<lambda>tag. ret (record_result tag s))"

section \<open>The steps\<close>

text \<open>Go's zero time, which a document without a time has.\<close>

definition zero_time :: int where
  "zero_time = - 62135596800000000"

definition unix_or_epoch :: "int \<Rightarrow> int" where
  "unix_or_epoch sec = sec * 1000000"

definition bf_user :: "(string \<Rightarrow> user option) \<Rightarrow> doc \<Rightarrow> stats \<Rightarrow> stats io" where
  "bf_user dec d s0 = (let s = read_one s0 in case dec (snd d) of
       None \<Rightarrow> ret (unreadable s)
     | Some u \<Rightarrow>
         if user_id u = [] \<or> user_password u = [] then ret (unreadable s)
         else bf_insert (insert_user \<lparr>u_id = user_id u, u_name = user_name u, u_hash = user_password u, u_age = user_age u,
           u_gender = user_gender u\<rparr>) s)"

record legacy_follow =
  lf_from :: string
  lf_to :: string
  lf_at :: int

definition insert_follow_at :: "string \<Rightarrow> string \<Rightarrow> int \<Rightarrow> int io" where
  "insert_follow_at a b t = ext_call PG (\<lambda>w.
     if a = b then (Inl CheckViolation, w)
     else if list_ex (is_follow a b) (t_follows (db w)) then (Inr 0, w)
     else (Inr 1, upd_follows (\<lambda>rows. rows @ [\<lparr>f_from = a, f_to = b, f_at = t\<rparr>]) w))"

definition bf_follow :: "(string \<Rightarrow> legacy_follow option) \<Rightarrow> doc \<Rightarrow> stats \<Rightarrow> stats io" where
  "bf_follow dec d s0 = (let s = read_one s0 in case dec (snd d) of
       None \<Rightarrow> ret (unreadable s)
     | Some f \<Rightarrow>
         if lf_from f = [] \<or> lf_to f = [] then ret (unreadable s)
         else bf_insert (insert_follow_at (lf_from f) (lf_to f) (if lf_at f = zero_time then 0 else lf_at f)) s)"

record legacy_post =
  lp_id :: string
  lp_user :: string
  lp_message :: string
  lp_url :: string
  lp_type :: string
  lp_deleted :: bool
  lp_deleted_at :: int
  lp_cleanup :: string
  lp_retries :: int
  lp_embedding :: "32 word list"
  lp_at :: int
  lp_outbox :: string

definition legacy_cleanup :: "string \<Rightarrow> cleanup" where
  "legacy_cleanup s = (if s = ''pending'' then CPending else if s = ''completed'' then CCompleted
     else if s = ''failed'' then CFailed else CNone)"

text \<open>The table keeps no \<open>cleanup_error\<close> in the model.\<close>

definition legacy_row :: "int \<Rightarrow> legacy_post \<Rightarrow> post_row" where
  "legacy_row t p = \<lparr>p_id = lp_id p, p_user = lp_user p, p_message = lp_message p, p_url = lp_url p, p_type = lp_type p,
     p_at = unix_or_epoch (lp_at p),
     p_deleted_at = (if lp_deleted p then Some (if lp_deleted_at p > 0 then lp_deleted_at p * 1000000 else t) else None),
     p_cleanup = legacy_cleanup (lp_cleanup p), p_attempts = lp_retries p, p_likes = 0, p_shares = 0,
     p_embedding = (if length (lp_embedding p) = 1536 then Some (lp_embedding p) else None), p_version = 1\<rparr>"

definition insert_legacy_post :: "post_row \<Rightarrow> int io" where
  "insert_legacy_post row = ext_call PG (\<lambda>w.
     if list_ex (\<lambda>r. p_id r = p_id row) (t_posts (db w)) then (Inr 0, w)
     else (Inr 1, upd_posts (\<lambda>rows. rows @ [row]) w))"

definition copy_post :: "legacy_post \<Rightarrow> post_row \<Rightarrow> int io" where
  "copy_post p row = tryE (insert_legacy_post row) (\<lambda>tag.
     if tag = 1 \<and> lp_outbox p = ''pending'' \<and> \<not> lp_deleted p
     then Monad_Syntax.bind now (\<lambda>t.
       tryE (enqueue ''post'' (lp_id p) ''post.created'' (lp_user p)
         (PostCreated (lp_id p) (lp_user p) (lp_message p) (lp_url p) (lp_type p) (lp_at p)) t) (\<lambda>_. ret tag))
     else ret tag)"

definition bf_post :: "(string \<Rightarrow> legacy_post option) \<Rightarrow> doc \<Rightarrow> stats \<Rightarrow> stats io" where
  "bf_post dec d s0 = (let s = read_one s0 in case dec (snd d) of
       None \<Rightarrow> ret (unreadable s)
     | Some p \<Rightarrow>
         if lp_id p = [] \<or> lp_user p = [] then ret (unreadable s)
         else Monad_Syntax.bind now (\<lambda>t. tryE (in_tx (copy_post p (legacy_row t p))) (\<lambda>tag. ret (record_result tag s))))"

record legacy_like =
  ll_post :: string
  ll_user :: string
  ll_at :: int

text \<open>Likes and shares reference their post.\<close>

definition insert_like_at :: "string \<Rightarrow> string \<Rightarrow> int \<Rightarrow> int io" where
  "insert_like_at i u t = ext_call PG (\<lambda>w.
     if list_ex (is_like i u) (t_likes (db w)) then (Inr 0, w)
     else if find_post i w = None then (Inl ForeignKeyViolation, w)
     else (Inr 1, upd_likes (\<lambda>rows. rows @ [\<lparr>l_post = i, l_user = u, l_at = t\<rparr>]) w))"

definition bf_like :: "(string \<Rightarrow> legacy_like option) \<Rightarrow> doc \<Rightarrow> stats \<Rightarrow> stats io" where
  "bf_like dec d s0 = (let s = read_one s0 in case dec (snd d) of
       None \<Rightarrow> ret (unreadable s)
     | Some l \<Rightarrow>
         if ll_post l = [] \<or> ll_user l = [] then ret (unreadable s)
         else bf_insert (insert_like_at (ll_post l) (ll_user l) (unix_or_epoch (ll_at l))) s)"

definition insert_share_at :: "share_row \<Rightarrow> int io" where
  "insert_share_at x = ext_call PG (\<lambda>w.
     if list_ex (\<lambda>y. s_id y = s_id x) (t_shares (db w)) then (Inr 0, w)
     else if find_post (s_post x) w = None then (Inl ForeignKeyViolation, w)
     else (Inr 1, upd_shares (\<lambda>rows. rows @ [x]) w))"

text \<open>A legacy share in the form of a row; its time is in seconds.\<close>

definition bf_share :: "(string \<Rightarrow> share_row option) \<Rightarrow> doc \<Rightarrow> stats \<Rightarrow> stats io" where
  "bf_share dec d s0 = (let s = read_one s0 in case dec (snd d) of
       None \<Rightarrow> ret (unreadable s)
     | Some x \<Rightarrow>
         if s_post x = [] then ret (unreadable s)
         else bf_insert (insert_share_at (x\<lparr>s_id := (if s_id x = [] then fst d else s_id x), s_at := unix_or_epoch (s_at x)\<rparr>)) s)"

record legacy_comment = comment +
  lc_deleted :: bool
  lc_deleted_at :: int

definition gather_comment :: "(string \<Rightarrow> legacy_comment option) \<Rightarrow> doc \<Rightarrow> stats \<times> legacy_comment list \<Rightarrow> (stats \<times> legacy_comment list) io" where
  "gather_comment dec d acc = (case acc of (s0, all) \<Rightarrow> (let s = read_one s0 in case dec (snd d) of
       None \<Rightarrow> ret (unreadable s, all)
     | Some c \<Rightarrow>
         if comment_id c = [] \<or> comment_post c = [] then ret (unreadable s, all) else ret (s, all @ [c])))"

definition legacy_comment_row :: "legacy_comment \<Rightarrow> comment_row" where
  "legacy_comment_row c = \<lparr>c_id = comment_id c, c_post = comment_post c,
     c_parent = (if comment_parent c = [] then None else Some (comment_parent c)),
     c_root = (if comment_root c = [] then comment_id c else comment_root c), c_depth = comment_depth c, c_user = comment_user c,
     c_content = comment_content c, c_at = unix_or_epoch (comment_at c),
     c_deleted_at = (if lc_deleted c then Some (unix_or_epoch (lc_deleted_at c)) else None)\<rparr>"

definition insert_comment_row :: "comment_row \<Rightarrow> int io" where
  "insert_comment_row c = ext_call PG (\<lambda>w.
     if c_depth c < - 2147483648 \<or> c_depth c > 2147483647 then (Inl ErrIO, w)
     else if c_depth c < 0 \<or> rune_count (c_content c) < 1 \<or> rune_count (c_content c) > 2000 then (Inl CheckViolation, w)
     else if find_comment (c_id c) w \<noteq> None then (Inr 0, w)
     else if find_post (c_post c) w = None \<or> \<not> on_same_post (c_post c) (c_parent c) w then (Inl ForeignKeyViolation, w)
     else (Inr 1, upd_comments (\<lambda>rows. rows @ [c]) w))"

definition bf_comments :: "(string \<Rightarrow> legacy_comment option) \<Rightarrow> doc list list \<Rightarrow> stats \<Rightarrow> stats io" where
  "bf_comments dec pages s0 = tryE (scan_index (gather_comment dec) pages (s0, [])) (\<lambda>(s, all).
     each_doc (\<lambda>c. bf_insert (insert_comment_row (legacy_comment_row c))) (sort_key comment_depth all) s)"

section \<open>Messages\<close>

record legacy_message =
  lm_id :: string
  lm_sender :: string
  lm_receiver :: string
  lm_content :: string
  lm_at :: int

definition legacy_conv :: "legacy_message \<Rightarrow> string" where
  "legacy_conv m = conversation_id (lm_sender m) (lm_receiver m)"

text \<open>The map \<open>byConv\<close> as the list of its messages in the order read.\<close>

definition gather_message :: "(string \<Rightarrow> legacy_message option) \<Rightarrow> doc \<Rightarrow> stats \<times> legacy_message list \<Rightarrow> (stats \<times> legacy_message list) io" where
  "gather_message dec d acc = (case acc of (s0, all) \<Rightarrow> (let s = read_one s0 in case dec (snd d) of
       None \<Rightarrow> ret (unreadable s, all)
     | Some m0 \<Rightarrow>
         if lm_sender m0 = [] \<or> lm_receiver m0 = [] \<or> lm_sender m0 = lm_receiver m0 then ret (unreadable s, all)
         else (let m = (if lm_id m0 = [] then m0\<lparr>lm_id := fst d\<rparr> else m0); n = rune_count (lm_content m) in
           if n = 0 \<or> n > 4000 then ret (reject ''violates a check constraint'' s, all)
           else ret (s, all @ [m]))))"

definition select_client_ids :: "string \<Rightarrow> string list io" where
  "select_client_ids conv = pg_query (\<lambda>w. List.map_filter g_client (filter (\<lambda>g. g_conv g = conv) (t_messages (db w))))"

definition insert_message_at :: "message_row \<Rightarrow> unit io" where
  "insert_message_at g = ext_call PG (\<lambda>w.
     if list_ex (\<lambda>h. g_conv h = g_conv g \<and> g_seq h = g_seq g) (t_messages (db w)) \<or>
        list_ex (\<lambda>h. g_client g \<noteq> None \<and> g_conv h = g_conv g \<and> g_sender h = g_sender g \<and> g_client h = g_client g) (t_messages (db w))
     then (Inl UniqueViolation, w)
     else if rune_count (g_content g) < 1 \<or> rune_count (g_content g) > 4000 then (Inl CheckViolation, w)
     else (Inr (), upd_messages (\<lambda>rows. rows @ [g]) w))"

definition legacy_message_row :: "string \<Rightarrow> int \<Rightarrow> legacy_message \<Rightarrow> message_row" where
  "legacy_message_row conv n m = \<lparr>g_conv = conv, g_seq = n, g_sender = lm_sender m, g_content = lm_content m, g_at = lm_at m,
     g_client = Some (lm_id m)\<rparr>"

text \<open>The loop of \<open>copyConversation\<close>; its variables are \<open>(lastSeq, lastAt, s)\<close>.\<close>

fun copy_messages :: "string \<Rightarrow> string list \<Rightarrow> legacy_message list \<Rightarrow> int \<times> int \<times> stats \<Rightarrow> (int \<times> int \<times> stats) io" where
  "copy_messages conv copied [] acc = ret acc"
| "copy_messages conv copied (m # ms) (last1, at1, s) =
     (if lm_id m \<in> set copied then copy_messages conv copied ms (last1, at1, s\<lparr>st_existing := st_existing s + 1\<rparr>)
      else tryE (insert_message_at (legacy_message_row conv (last1 + 1) m)) (\<lambda>_.
        copy_messages conv copied ms (last1 + 1, lm_at m, s\<lparr>st_inserted := st_inserted s + 1\<rparr>)))"

definition upsert_members :: "string \<Rightarrow> string \<Rightarrow> string \<Rightarrow> int \<Rightarrow> int \<Rightarrow> unit io" where
  "upsert_members conv a b n t = ext_call PG (\<lambda>w.
     if a = b then (Inl ErrIO, w)
     else (Inr (), upd_members (\<lambda>rows.
       update_where (\<lambda>r. b_conv r = conv \<and> (b_user r = a \<or> b_user r = b)) (\<lambda>r. r\<lparr>b_read := n, b_last_at := Some t\<rparr>) rows @
       map (\<lambda>u. \<lparr>b_conv = conv, b_user = u, b_read = n, b_last_at = Some t\<rparr>)
         (filter (\<lambda>u. \<not> list_ex (\<lambda>r. b_conv r = conv \<and> b_user r = u) rows) [a, b])) w))"

definition copy_conversation :: "string \<Rightarrow> legacy_message list \<Rightarrow> stats \<Rightarrow> stats io" where
  "copy_conversation conv msgs s =
     tryE (insert_conversation conv) (\<lambda>_.
     tryE (select_last_seq conv) (\<lambda>last1.
     tryE (select_client_ids conv) (\<lambda>copied.
     tryE (copy_messages conv copied msgs (last1, zero_time, s)) (\<lambda>(last2, at2, s').
       if at2 = zero_time then ret s'
       else tryE (update_conversation conv last2 at2) (\<lambda>_.
         tryE (upsert_members conv (lm_sender (hd msgs)) (lm_receiver (hd msgs)) last2 at2) (\<lambda>_. ret s'))))))"

definition conversation_groups :: "legacy_message list \<Rightarrow> (string \<times> legacy_message list) list" where
  "conversation_groups all = map (\<lambda>c. (c, sort_key (\<lambda>m. (lm_at m, lm_id m)) (filter (\<lambda>m. legacy_conv m = c) all)))
     (sorted_list_of_set (legacy_conv ` set all))"

definition bf_messages :: "(string \<Rightarrow> legacy_message option) \<Rightarrow> doc list list \<Rightarrow> stats \<Rightarrow> stats io" where
  "bf_messages dec pages s0 = tryE (scan_index (gather_message dec) pages (s0, [])) (\<lambda>(s, all).
     each_doc (\<lambda>(conv, msgs) s. in_tx (copy_conversation conv msgs s)) (conversation_groups all) s)"

text \<open>A legacy notification in the form of a row; its time is in seconds.\<close>

definition bf_notification :: "(string \<Rightarrow> notif_row option) \<Rightarrow> doc \<Rightarrow> stats \<Rightarrow> stats io" where
  "bf_notification dec d s0 = (let s = read_one s0 in case dec (snd d) of
       None \<Rightarrow> ret (unreadable s)
     | Some n \<Rightarrow>
         if n_user n = [] then ret (unreadable s)
         else bf_insert (insert_notification (n\<lparr>n_id := (if n_id n = [] then fst d else n_id n), n_at := unix_or_epoch (n_at n)\<rparr>)) s)"

section \<open>The run\<close>

text \<open>The legacy store and the decoders.\<close>

record legacy_store =
  es_pages :: "string \<Rightarrow> doc list list"
  de_user :: "string \<Rightarrow> user option"
  de_follow :: "string \<Rightarrow> legacy_follow option"
  de_post :: "string \<Rightarrow> legacy_post option"
  de_like :: "string \<Rightarrow> legacy_like option"
  de_share :: "string \<Rightarrow> share_row option"
  de_comment :: "string \<Rightarrow> legacy_comment option"
  de_message :: "string \<Rightarrow> legacy_message option"
  de_notif :: "string \<Rightarrow> notif_row option"

definition recount_all :: "unit io" where
  "recount_all = ext_call PG (\<lambda>w. (Inr (), upd_posts (map (\<lambda>p. p\<lparr>p_likes := like_rows (p_id p) w, p_shares := share_rows (p_id p) w\<rparr>)) w))"

definition backfill_run :: "legacy_store \<Rightarrow> (string \<times> stats) list io" where
  "backfill_run st =
     tryE (scan_index (bf_user (de_user st)) (es_pages st ''user'') no_stats) (\<lambda>users.
     tryE (scan_index (bf_follow (de_follow st)) (es_pages st ''follow'') no_stats) (\<lambda>follows.
     tryE (scan_index (bf_post (de_post st)) (es_pages st ''post'') no_stats) (\<lambda>posts.
     tryE (scan_index (bf_like (de_like st)) (es_pages st ''like'') no_stats) (\<lambda>likes.
     tryE (scan_index (bf_share (de_share st)) (es_pages st ''share'') no_stats) (\<lambda>shares.
     tryE (bf_comments (de_comment st) (es_pages st ''comment'') no_stats) (\<lambda>comments.
     tryE (bf_messages (de_message st) (es_pages st ''message'') no_stats) (\<lambda>messages.
     tryE (scan_index (bf_notification (de_notif st)) (es_pages st ''notification'') no_stats) (\<lambda>notifications.
     tryE recount_all (\<lambda>_.
       ret [(''users'', users), (''follows'', follows), (''posts'', posts), (''likes'', likes), (''shares'', shares),
            (''comments'', comments), (''messages'', messages), (''notifications'', notifications)])))))))))"

section \<open>The copied history is well formed\<close>

text \<open>While a conversation is copied its row still carries the old \<open>last_seq\<close>; \<open>n\<close> is the number of the last
  message.\<close>

definition with_last :: "string \<Rightarrow> int \<Rightarrow> database \<Rightarrow> database" where
  "with_last conv n d = d\<lparr>t_convs := update_where (\<lambda>v. v_id v = conv) (\<lambda>v. v\<lparr>v_last_seq := n\<rparr>) (t_convs d)\<rparr>"

definition copying :: "string \<Rightarrow> int \<Rightarrow> database \<Rightarrow> bool" where
  "copying conv n d \<longleftrightarrow> conv \<in> v_id ` set (t_convs d) \<and> msg_wf (with_last conv n d)"

lemma with_last_simps [simp]:
  "t_messages (with_last conv n d) = t_messages d" "t_members (with_last conv n d) = t_members d"
  "map v_id (t_convs (with_last conv n d)) = map v_id (t_convs d)"
  "v_id ` set (t_convs (with_last conv n d)) = v_id ` set (t_convs d)"
proof -
  show ids: "map v_id (t_convs (with_last conv n d)) = map v_id (t_convs d)"
    by (simp add: with_last_def map_update_where)
  show "v_id ` set (t_convs (with_last conv n d)) = v_id ` set (t_convs d)"
    using arg_cong [OF ids, of set] by simp
qed (simp_all add: with_last_def)

lemma copying_rows:
  assumes "copying conv n d"
  shows "0 \<le> n" "map g_seq (filter (\<lambda>g. g_conv g = conv) (t_messages d)) = [1..n]"
    "\<forall>r\<in>set (t_members d). b_conv r = conv \<longrightarrow> b_read r \<le> n"
proof -
  obtain v where v: "v \<in> set (t_convs d)" "v_id v = conv" using assms by (auto simp: copying_def)
  then have "v\<lparr>v_last_seq := n\<rparr> \<in> set (t_convs (with_last conv n d))"
    by (force simp: with_last_def set_update_where)
  then have "conv_wf (with_last conv n d) (v\<lparr>v_last_seq := n\<rparr>)" using assms unfolding copying_def msg_wf_def by blast
  then show "0 \<le> n" "map g_seq (filter (\<lambda>g. g_conv g = conv) (t_messages d)) = [1..n]"
    "\<forall>r\<in>set (t_members d). b_conv r = conv \<longrightarrow> b_read r \<le> n"
    using v(2) by (simp_all add: conv_wf_def)
qed

lemma copying_start:
  assumes "msg_wf d" "find (\<lambda>v. v_id v = conv) (t_convs d) = Some v"
  shows "copying conv (v_last_seq v) d" "with_last conv (v_last_seq v) d = d"
proof -
  have v: "v \<in> set (t_convs d)" "v_id v = conv" using find_in_set [OF assms(2)] by simp_all
  have "u\<lparr>v_last_seq := v_last_seq v\<rparr> = u" if "u \<in> set (t_convs d)" "v_id u = conv" for u
  proof -
    have "u = v" using assms(1) v that by (auto simp: msg_wf_def distinct_map inj_on_def)
    then show ?thesis by simp
  qed
  then have "update_where (\<lambda>v. v_id v = conv) (\<lambda>u. u\<lparr>v_last_seq := v_last_seq v\<rparr>) (t_convs d) = t_convs d"
    unfolding update_where_def by (intro map_idI) auto
  then show "with_last conv (v_last_seq v) d = d" by (simp add: with_last_def)
  with assms(1) v show "copying conv (v_last_seq v) d" by (auto simp: copying_def)
qed

lemma conv_wf_cong:
  assumes "conv_wf d v" "t_messages d' = t_messages d" "t_members d' = t_members d" "v_id v' = v_id v" "v_last_seq v' = v_last_seq v"
  shows "conv_wf d' v'"
  using assms by (simp add: conv_wf_def)

lemma copying_append:
  assumes "copying conv n d" "g_conv g = conv" "g_seq g = n + 1"
    and "\<forall>h\<in>set (t_messages d). g_conv h = conv \<longrightarrow> g_sender h = g_sender g \<longrightarrow> g_client h \<noteq> g_client g"
  shows "copying conv (n + 1) (d\<lparr>t_messages := t_messages d @ [g]\<rparr>)"
proof -
  let ?d = "d\<lparr>t_messages := t_messages d @ [g]\<rparr>" and ?D = "with_last conv n d"
  let ?E = "with_last conv (n + 1) ?d"
  note rows = copying_rows [OF assms(1)]
  have conv: "conv \<in> v_id ` set (t_convs d)" and wf: "msg_wf ?D" using assms(1) by (simp_all add: copying_def)
  note W = wf [unfolded msg_wf_def with_last_simps]
  have "conv_wf ?E u" if "u \<in> set (t_convs ?E)" for u
  proof -
    from that obtain v where v: "v \<in> set (t_convs d)" "u = (if v_id v = conv then v\<lparr>v_last_seq := n + 1\<rparr> else v)"
      by (auto simp: with_last_def set_update_where)
    then have D: "(if v_id v = conv then v\<lparr>v_last_seq := n\<rparr> else v) \<in> set (t_convs ?D)"
      by (auto simp: with_last_def set_update_where)
    then have old: "conv_wf ?D (if v_id v = conv then v\<lparr>v_last_seq := n\<rparr> else v)" using W by blast
    show ?thesis
    proof (cases "v_id v = conv")
      case True
      have "[1..n + 1] = [1..n] @ [n + 1]" using rows(1) upto_rec2 [of 1 "n + 1"] by simp
      with True old v(2) rows assms(2,3) show ?thesis by (force simp: conv_wf_def)
    next
      case False
      with old v(2) assms(2) show ?thesis by (auto simp: conv_wf_def)
    qed
  qed
  moreover have "g' = h" if "g' \<in> set (t_messages d @ [g])" "h \<in> set (t_messages d @ [g])" "g_client g' \<noteq> None"
      "(g_conv g', g_sender g', g_client g') = (g_conv h, g_sender h, g_client h)" for g' h
  proof -
    have "g' = h" if "g' \<in> set (t_messages d)" "h \<in> set (t_messages d)" using that W \<open>g_client g' \<noteq> None\<close>
        \<open>(g_conv g', g_sender g', g_client g') = (g_conv h, g_sender h, g_client h)\<close> by blast
    with that assms(2,4) show ?thesis by auto
  qed
  ultimately have "msg_wf ?E" unfolding msg_wf_def with_last_simps
    using W conv assms(2) by (intro conjI ballI) (auto 0 3)
  then show ?thesis using conv by (simp add: copying_def)
qed

lemma msg_wf_new_conv:
  assumes "msg_wf d" "conv \<notin> v_id ` set (t_convs d)"
  shows "msg_wf (d\<lparr>t_convs := t_convs d @ [\<lparr>v_id = conv, v_last_seq = 0, v_last_at = None\<rparr>]\<rparr>)"
proof -
  let ?d = "d\<lparr>t_convs := t_convs d @ [\<lparr>v_id = conv, v_last_seq = 0, v_last_at = None\<rparr>]\<rparr>"
  note W = assms(1) [unfolded msg_wf_def]
  have "conv_wf ?d \<lparr>v_id = conv, v_last_seq = 0, v_last_at = None\<rparr>"
    by (rule conv_wf_empty) (use W assms(2) in auto)
  moreover have "conv_wf ?d v" if "v \<in> set (t_convs d)" for v
    using W that by (auto intro: conv_wf_cong)
  ultimately show ?thesis using W assms(2) by (auto simp: msg_wf_def)
qed

text \<open>The end of the copy: the new \<open>last_seq\<close>, and every message read by both members.\<close>

definition conv_done :: "string \<Rightarrow> int \<Rightarrow> int \<Rightarrow> database \<Rightarrow> database" where
  "conv_done conv n t d = d\<lparr>t_convs := update_where (\<lambda>v. v_id v = conv) (\<lambda>v. v\<lparr>v_last_seq := n, v_last_at := Some t\<rparr>) (t_convs d)\<rparr>"

lemma msg_wf_conv_done:
  assumes "copying conv n d"
  shows "msg_wf (conv_done conv n t d)"
proof -
  let ?D = "with_last conv n d" and ?E = "conv_done conv n t d"
  have ids: "map v_id (t_convs ?E) = map v_id (t_convs ?D)" by (simp add: conv_done_def map_update_where)
  note W = assms [unfolded copying_def, THEN conjunct2, unfolded msg_wf_def]
  have "conv_wf ?E u" if "u \<in> set (t_convs ?E)" for u
  proof -
    from that obtain v where v: "v \<in> set (t_convs d)"
      "u = (if v_id v = conv then v\<lparr>v_last_seq := n, v_last_at := Some t\<rparr> else v)"
      by (auto simp: conv_done_def set_update_where)
    then have "(if v_id v = conv then v\<lparr>v_last_seq := n\<rparr> else v) \<in> set (t_convs ?D)"
      by (auto simp: with_last_def set_update_where)
    then have "conv_wf ?D (if v_id v = conv then v\<lparr>v_last_seq := n\<rparr> else v)" using W by blast
    then show ?thesis by (rule conv_wf_cong) (simp_all add: v(2) conv_done_def)
  qed
  then have "\<forall>u\<in>set (t_convs ?E). conv_wf ?E u" by blast
  moreover have same: "v_id ` set (t_convs ?E) = v_id ` set (t_convs ?D)"
    using ids by (metis list.set_map)
  moreover have rows: "t_messages ?E = t_messages ?D" "t_members ?E = t_members ?D"
    by (simp_all add: conv_done_def with_last_def)
  ultimately show ?thesis using W unfolding msg_wf_def same rows ids by (elim conjE, intro conjI)
qed

definition all_read :: "string \<Rightarrow> string \<Rightarrow> string \<Rightarrow> int \<Rightarrow> int \<Rightarrow> member_row list \<Rightarrow> member_row list" where
  "all_read conv a b n t rows =
     update_where (\<lambda>r. b_conv r = conv \<and> (b_user r = a \<or> b_user r = b)) (\<lambda>r. r\<lparr>b_read := n, b_last_at := Some t\<rparr>) rows @
     map (\<lambda>u. \<lparr>b_conv = conv, b_user = u, b_read = n, b_last_at = Some t\<rparr>)
       (filter (\<lambda>u. \<not> list_ex (\<lambda>r. b_conv r = conv \<and> b_user r = u) rows) [a, b])"

lemma msg_wf_all_read:
  assumes "msg_wf d" "a \<noteq> b" "v \<in> set (t_convs d)" "v_id v = conv" "v_last_seq v = n"
  shows "msg_wf (d\<lparr>t_members := all_read conv a b n t (t_members d)\<rparr>)"
proof -
  let ?m = "all_read conv a b n t (t_members d)"
  let ?d = "d\<lparr>t_members := ?m\<rparr>"
  note W = assms(1) [unfolded msg_wf_def]
  have keys: "map (\<lambda>r. (b_conv r, b_user r)) ?m = map (\<lambda>r. (b_conv r, b_user r)) (t_members d) @
      map (\<lambda>u. (conv, u)) (filter (\<lambda>u. \<not> list_ex (\<lambda>r. b_conv r = conv \<and> b_user r = u) (t_members d)) [a, b])"
    by (simp add: all_read_def map_update_where comp_def)
  have "distinct (map (\<lambda>r. (b_conv r, b_user r)) ?m)"
    unfolding keys using W assms(2) by (auto simp: list_ex_iff)
  moreover have "b_conv ` set ?m \<subseteq> v_id ` set (t_convs d)"
  proof -
    have "conv \<in> v_id ` set (t_convs d)" using assms(3,4) by blast
    then show ?thesis using W by (auto simp: all_read_def set_update_where split: if_splits)
  qed
  moreover have "conv_wf ?d u" if u: "u \<in> set (t_convs d)" for u
  proof -
    have old: "conv_wf d u" using W u by blast
    have "u = v" if "v_id u = conv" using that u assms(3,4) W by (auto simp: distinct_map inj_on_def)
    then have "v_id u = conv \<Longrightarrow> v_last_seq u = n \<and> 0 \<le> n" using old assms(5) by (auto simp: conv_wf_def)
    with old show ?thesis by (auto simp: conv_wf_def all_read_def set_update_where split: if_splits)
  qed
  then have "\<forall>u\<in>set (t_convs ?d). conv_wf ?d u" by simp
  moreover have "t_convs ?d = t_convs d" "t_messages ?d = t_messages d" "t_members ?d = ?m" by simp_all
  ultimately show ?thesis using W unfolding msg_wf_def by (elim conjE, intro conjI) (simp_all only:)
qed

section \<open>The loop and the transaction\<close>

text \<open>The messages of a conversation only grow.\<close>

definition more_messages :: "database \<Rightarrow> database \<Rightarrow> bool" where
  "more_messages d e \<longleftrightarrow> (\<exists>new. t_messages e = t_messages d @ new)"

lemma more_messages_trans: "more_messages c d \<Longrightarrow> more_messages d e \<Longrightarrow> more_messages c e"
  by (auto simp: more_messages_def)

lemma more_messages_same: "t_messages e = t_messages d \<Longrightarrow> more_messages d e"
  by (simp add: more_messages_def)

definition client_ids :: "string \<Rightarrow> database \<Rightarrow> string set" where
  "client_ids conv d = {i. \<exists>g\<in>set (t_messages d). g_conv g = conv \<and> g_client g = Some i}"

lemma client_ids_more: "more_messages d e \<Longrightarrow> client_ids conv d \<subseteq> client_ids conv e"
  by (auto simp: more_messages_def client_ids_def)

lemma wp_insert_message_at:
  "wp (insert_message_at g) (\<lambda>r v. r = Inr () \<longrightarrow> db v = (db w)\<lparr>t_messages := t_messages (db w) @ [g]\<rparr> \<and>
    (\<forall>h\<in>set (t_messages (db w)). g_client g \<noteq> None \<longrightarrow> g_conv h = g_conv g \<longrightarrow> g_sender h = g_sender g \<longrightarrow> g_client h \<noteq> g_client g)) w"
  by (auto simp: insert_message_at_def wp_ext_call upd_messages_def list_ex_iff split: outcome.split)

text \<open>The loop started with the database \<open>d\<close>, \<open>last_seq\<close> \<open>n\<close> and \<open>lastAt\<close> \<open>t\<close>, and ended with \<open>e\<close>, \<open>k\<close> and \<open>t'\<close>.\<close>

definition copied_to :: "string \<Rightarrow> legacy_message list \<Rightarrow> database \<Rightarrow> int \<times> int \<Rightarrow> database \<Rightarrow> int \<times> int \<Rightarrow> bool" where
  "copied_to conv ms d p e q \<longleftrightarrow> copying conv (fst q) e \<and> more_messages d e \<and> t_convs e = t_convs d \<and> t_members e = t_members d \<and>
     (snd q = zero_time \<longrightarrow> snd p = zero_time \<and> e = d \<and> fst q = fst p) \<and> lm_id ` set ms \<subseteq> client_ids conv e"

lemma copied_skip:
  assumes "copied_to conv ms d p e q" "lm_id m \<in> client_ids conv d"
  shows "copied_to conv (m # ms) d p e q"
proof -
  have "lm_id m \<in> client_ids conv e" using assms client_ids_more unfolding copied_to_def by blast
  with assms(1) show ?thesis unfolding copied_to_def by simp
qed

lemma copied_step:
  assumes "copied_to conv ms u (n + 1, lm_at m) e q" "lm_at m \<noteq> zero_time"
    and "u = d\<lparr>t_messages := t_messages d @ [legacy_message_row conv (n + 1) m]\<rparr>"
  shows "copied_to conv (m # ms) d (n, t) e q"
proof -
  have "lm_id m \<in> client_ids conv u" by (auto simp: client_ids_def assms(3) legacy_message_row_def)
  then have "copied_to conv (m # ms) u (n + 1, lm_at m) e q" by (rule copied_skip [OF assms(1)])
  moreover have "more_messages d u" "t_convs u = t_convs d" "t_members u = t_members d"
    by (simp_all add: more_messages_def assms(3))
  ultimately show ?thesis using assms(2) more_messages_trans unfolding copied_to_def by (metis fst_conv snd_conv)
qed

lemma wp_copy_messages:
  assumes "copying conv n (db w)" "set copied \<subseteq> client_ids conv (db w)" "\<forall>m\<in>set ms. lm_at m \<noteq> zero_time"
  shows "wp (copy_messages conv copied ms (n, t, s)) (\<lambda>r v. \<forall>k t' s'. r = Inr (k, t', s') \<longrightarrow>
    copied_to conv ms (db w) (n, t) (db v) (k, t')) w"
  using assms
proof (induction ms arbitrary: n t s w)
  case Nil
  then show ?case by (simp add: wp_ret copied_to_def more_messages_same)
next
  case (Cons m ms)
  show ?case
  proof (cases "lm_id m \<in> set copied")
    case True
    have "wp (copy_messages conv copied ms (n, t, s\<lparr>st_existing := st_existing s + 1\<rparr>)) (\<lambda>r v. \<forall>k t' s'. r = Inr (k, t', s') \<longrightarrow>
      copied_to conv ms (db w) (n, t) (db v) (k, t')) w"
      by (rule Cons.IH) (use Cons.prems in simp_all)
    then show ?thesis unfolding copy_messages.simps if_P [OF True]
      by (rule wp_mono) (use copied_skip True Cons.prems(2) in blast)
  next
    case False
    let ?g = "legacy_message_row conv (n + 1) m"
    show ?thesis unfolding copy_messages.simps if_not_P [OF False]
    proof (rule wp_tryI [OF wp_insert_message_at], goal_cases)
      case (1 x u)
      have fresh: "\<forall>h\<in>set (t_messages (db w)). g_conv h = conv \<longrightarrow> g_sender h = g_sender ?g \<longrightarrow> g_client h \<noteq> g_client ?g"
        and u: "db u = (db w)\<lparr>t_messages := t_messages (db w) @ [?g]\<rparr>"
        using 1 by (auto simp: legacy_message_row_def)
      have c: "copying conv (n + 1) (db u)" unfolding u
        by (rule copying_append [OF Cons.prems(1) _ _ fresh]) (simp_all add: legacy_message_row_def)
      have "more_messages (db w) (db u)" by (simp add: more_messages_def u)
      then have "set copied \<subseteq> client_ids conv (db u)" using Cons.prems(2) client_ids_more by blast
      from Cons.IH [OF c this] Cons.prems(3)
      have "wp (copy_messages conv copied ms (n + 1, lm_at m, s\<lparr>st_inserted := st_inserted s + 1\<rparr>)) (\<lambda>r v. \<forall>k t' s'. r = Inr (k, t', s') \<longrightarrow>
        copied_to conv ms (db u) (n + 1, lm_at m) (db v) (k, t')) u" by simp
      then show ?case
        by (rule wp_mono) (use copied_step [OF _ _ u] Cons.prems(3) in simp)
    qed simp
  qed
qed

end
