(* ===== verification/Spec2Isabelle.thy ===== *)
theory Spec2Isabelle
  imports Prelude Tracker Consumer ConsumerRun Strconv World RedisStore Counter PostStore Outbox OutboxPG Paging
    Feedplan FeedStore SocialGraph Message Posts Comments
    Indexer HomeFeed FeedWorker Notify Auth Idempotency Http PostHandler Reconcile ApiHandlers Backfill
begin
end
